theory Spec2Isabelle
  imports Main "HOL-Library.Word" "HOL-Library.Multiset" "HOL-Library.Sublist"
begin


section \<open>Go channels, wait groups and goroutines\<close>

text \<open>
  The repository holds three small concurrent Go programs: a linear pipeline
  (\<^verbatim>\<open>go_concurrent_patterns/pipeline/main.go\<close>), a fan-out/fan-in program (the second
  package of \<^verbatim>\<open>heap/maxHeap/main.go\<close>, lines 53-148) and a worker pool
  (\<^verbatim>\<open>unnamed/part_001\<close>, lines 1-42). They are embedded as an interleaving semantics:
  every goroutine is a sequential machine whose control states are the program points of
  its source function (with the values of its local variables), the shared state is the
  channels and the wait group, and one step of the program is one channel or wait-group
  operation of one goroutine (two goroutines for a rendezvous on an unbuffered channel).
  The scheduler is the list of labels that says who moves next.

  Go's \<^verbatim>\<open>int\<close> is a 64-bit machine integer on the usual platforms: arithmetic wraps.
  Logging (\<^verbatim>\<open>fmt.Printf\<close>) and delays (\<^verbatim>\<open>time.Sleep\<close>) inside the stages change no
  channel and no variable and are left out; what \<^verbatim>\<open>main\<close> prints with
  \<^verbatim>\<open>fmt.Println\<close> for each result is kept as the program's output.
\<close>

type_synonym goint = "64 word"

text \<open>
  Channels and goroutines are named after the place of the source that creates them
  (every \<^verbatim>\<open>make(chan int)\<close> and every \<^verbatim>\<open>go\<close> statement, with the loop index where
  it stands in a loop), so two different creations never share a name.
\<close>

datatype cname =
    Link nat      \<comment> \<open>pipeline: \<open>Link 0\<close> is generate's \<open>out\<close>, \<open>Link (i+1)\<close> the i-th stage's \<open>out\<close>\<close>
  | Src nat       \<comment> \<open>the k-th input channel handed to fanIn (made by generator)\<close>
  | Input         \<comment> \<open>fan program: \<open>input\<close>, made by generator (line 114)\<close>
  | Lane nat      \<comment> \<open>fan program: \<open>inputChannels[i]\<close> (line 124)\<close>
  | WOut nat      \<comment> \<open>fan program: \<open>workers[i]\<close>, the \<open>out\<close> of the i-th square (line 125)\<close>
  | Merged        \<comment> \<open>fanIn's \<open>out\<close> (line 89)\<close>
  | Jobs          \<comment> \<open>pool: \<open>jobs\<close> (line 22)\<close>
  | Results       \<comment> \<open>pool: \<open>results\<close> (line 23)\<close>

datatype gname =
    GMain         \<comment> \<open>the main goroutine\<close>
  | GGen nat      \<comment> \<open>the goroutine of generate / generator\<close>
  | GStage nat    \<comment> \<open>the goroutine of the i-th stage (square, addTen, double, transform)\<close>
  | GDist         \<comment> \<open>the round-robin distributor (maxHeap/main.go:129)\<close>
  | GFwd nat      \<comment> \<open>fanIn's forwarder for the k-th input channel (line 95)\<close>
  | GCloser       \<comment> \<open>fanIn's closer (line 104)\<close>
  | GWorker nat   \<comment> \<open>pool worker (part_001:28)\<close>

text \<open>
  The four stage functions of the pipeline and the \<open>square\<close> of the fan program have the
  same loop (\<^verbatim>\<open>for n := range in { out <- e }; close(out)\<close>) and differ in the
  expression \<open>e\<close> they send.
\<close>

datatype stagefn =
    square                              \<comment> \<open>pipeline/main.go:21\<close>
  | addTen                              \<comment> \<open>pipeline/main.go:35\<close>
  | double                              \<comment> \<open>pipeline/main.go:49\<close>
  | transform "goint \<Rightarrow> goint" string   \<comment> \<open>pipeline/main.go:63, with \<open>fn\<close> and \<open>name\<close>\<close>
  | fan_square                          \<comment> \<open>maxHeap/main.go:74\<close>

fun stage_expr :: "stagefn \<Rightarrow> goint \<Rightarrow> goint" where
  "stage_expr square n = n * n"
| "stage_expr addTen n = n + 10"
| "stage_expr double n = n * 2"
| "stage_expr (transform fn name) n = fn n"
| "stage_expr fan_square n = n * n"

datatype fault =
    SendOnClosed cname      \<comment> \<open>panic: send on closed channel\<close>
  | CloseOfClosed cname     \<comment> \<open>panic: close of closed channel\<close>
  | NegativeCounter         \<comment> \<open>panic: sync: negative WaitGroup counter\<close>
  | DivideByZero            \<comment> \<open>panic: runtime error: integer divide by zero\<close>

text \<open>Control states: one constructor per program point, holding the live local variables.\<close>

datatype gor =
    generate_loop "goint list" cname        \<comment> \<open>generate, line 12: the nums still to send; out\<close>
  | generator_loop "goint list" cname       \<comment> \<open>generator, line 65\<close>
  | stage_range stagefn cname cname         \<comment> \<open>\<open>for n := range in\<close>; in, out\<close>
  | stage_send stagefn cname cname goint    \<comment> \<open>\<open>out <- e\<close> for the received n\<close>
  | stage_close stagefn cname cname         \<comment> \<open>\<open>close(out)\<close>\<close>
  | dist_range nat nat                      \<comment> \<open>line 131; numWorkers, i\<close>
  | dist_send nat nat goint                 \<comment> \<open>line 132; numWorkers, i, n\<close>
  | dist_close nat nat                      \<comment> \<open>line 137; numWorkers, index of ch\<close>
  | fwd_range cname                         \<comment> \<open>line 97; c\<close>
  | fwd_send cname goint                    \<comment> \<open>line 98; c, val\<close>
  | fwd_done                                \<comment> \<open>the deferred \<open>wg.Done()\<close> of line 96\<close>
  | closer_wait                             \<comment> \<open>line 105\<close>
  | closer_close                            \<comment> \<open>line 106\<close>
  | worker_range nat                        \<comment> \<open>part_001:11; id\<close>
  | worker_send nat goint                   \<comment> \<open>part_001:15; id, job\<close>
  | worker_done nat                         \<comment> \<open>the deferred \<open>wg.Done()\<close> of part_001:10\<close>
  | pipe_main "goint list" "stagefn list"   \<comment> \<open>pipeline main, line 82 (or 98)\<close>
  | pipe_stage nat stagefn "stagefn list"   \<comment> \<open>pipeline main, lines 83-85 (or 99-101)\<close>
  | merge_gen nat "goint list" "goint list list"
  | fan_main "goint list" nat               \<comment> \<open>maxHeap main, line 114; nums, numWorkers\<close>
  | fan_worker nat nat                      \<comment> \<open>lines 124-125; i, numWorkers\<close>
  | fan_dist nat                            \<comment> \<open>line 129\<close>
  | fanIn_add nat cname "cname list"        \<comment> \<open>line 94; index, ch, the channels after ch\<close>
  | fanIn_go nat cname "cname list"         \<comment> \<open>line 95\<close>
  | fanIn_closer                            \<comment> \<open>line 104\<close>
  | consume_range cname                     \<comment> \<open>\<open>for result := range ch\<close>\<close>
  | consume_print cname goint               \<comment> \<open>\<open>fmt.Println(..., result)\<close>\<close>
  | pool_add nat nat nat                    \<comment> \<open>part_001:27; i, numWorkers, numJobs\<close>
  | pool_go nat nat nat                     \<comment> \<open>part_001:28\<close>
  | pool_send nat nat                       \<comment> \<open>part_001:32; j, numJobs\<close>
  | pool_close_jobs                         \<comment> \<open>part_001:34\<close>
  | pool_wait                               \<comment> \<open>part_001:36\<close>
  | pool_close_results                      \<comment> \<open>part_001:37\<close>
  | Exited                                  \<comment> \<open>the function has returned\<close>

text \<open>The operation a goroutine is about to perform.\<close>

datatype act =
    Snd cname goint     \<comment> \<open>\<open>c <- v\<close>\<close>
  | Rcv cname           \<comment> \<open>\<open>v, ok := <-c\<close> (one round of \<open>range c\<close>)\<close>
  | Cls cname           \<comment> \<open>\<open>close(c)\<close>\<close>
  | WgAdd               \<comment> \<open>\<open>wg.Add(1)\<close>\<close>
  | WgDone              \<comment> \<open>\<open>wg.Done()\<close>\<close>
  | WgWait              \<comment> \<open>\<open>wg.Wait()\<close>\<close>
  | Go gname gor        \<comment> \<open>\<open>go f(...)\<close>: the new goroutine and its entry point\<close>
  | Print goint         \<comment> \<open>\<open>fmt.Println\<close> of a result\<close>
  | Fail fault          \<comment> \<open>a run-time panic of the goroutine's own\<close>
  | Halt                \<comment> \<open>nothing: the goroutine has returned\<close>

subsection \<open>The source functions\<close>

text \<open>Loop heads: where a loop that is over continues.\<close>

definition dist_close_next :: "nat \<Rightarrow> nat \<Rightarrow> gor" where
  "dist_close_next N k = (if k < N then dist_close N k else Exited)"

definition fanIn :: "nat \<Rightarrow> cname list \<Rightarrow> gor" where
  "fanIn j chs = (case chs of [] \<Rightarrow> fanIn_closer | ch # rest \<Rightarrow> fanIn_add j ch rest)"

definition pipe_next :: "nat \<Rightarrow> stagefn list \<Rightarrow> gor" where
  "pipe_next i fs = (case fs of [] \<Rightarrow> consume_range (Link i) | f # rest \<Rightarrow> pipe_stage i f rest)"

definition merge_next :: "nat \<Rightarrow> goint list list \<Rightarrow> gor" where
  "merge_next k xss =
     (case xss of [] \<Rightarrow> fanIn 0 (map Src [0..<k]) | xs # rest \<Rightarrow> merge_gen k xs rest)"

definition fan_workers :: "nat \<Rightarrow> nat \<Rightarrow> gor" where
  "fan_workers i N = (if i < N then fan_worker i N else fan_dist N)"

definition pool_jobs :: "nat \<Rightarrow> nat \<Rightarrow> gor" where
  "pool_jobs j J = (if j \<le> J then pool_send j J else pool_close_jobs)"

definition pool_workers :: "nat \<Rightarrow> nat \<Rightarrow> nat \<Rightarrow> gor" where
  "pool_workers i W J = (if i \<le> W then pool_add i W J else pool_jobs 1 J)"

text \<open>
  \<open>instr st\<close> is the operation at control state \<open>st\<close> and the control state after it; the
  argument of the continuation is the value a receive returned (\<open>None\<close> when the channel
  is closed and drained, which ends a \<open>range\<close> loop).
\<close>

fun instr :: "gor \<Rightarrow> act \<times> (goint option \<Rightarrow> gor)" where
  \<comment> \<open>generate (pipeline/main.go:9-18): \<open>for _, n := range nums { out <- n }; close(out)\<close>\<close>
  "instr (generate_loop [] out) = (Cls out, \<lambda>_. Exited)"
| "instr (generate_loop (n # nums) out) = (Snd out n, \<lambda>_. generate_loop nums out)"
  \<comment> \<open>generator (maxHeap/main.go:62-71)\<close>
| "instr (generator_loop [] out) = (Cls out, \<lambda>_. Exited)"
| "instr (generator_loop (n # nums) out) = (Snd out n, \<lambda>_. generator_loop nums out)"
  \<comment> \<open>square, addTen, double, transform: \<open>for n := range in { out <- e }; close(out)\<close>\<close>
| "instr (stage_range f inp out) =
     (Rcv inp, \<lambda>r. case r of Some n \<Rightarrow> stage_send f inp out n | None \<Rightarrow> stage_close f inp out)"
| "instr (stage_send f inp out n) = (Snd out (stage_expr f n), \<lambda>_. stage_range f inp out)"
| "instr (stage_close f inp out) = (Cls out, \<lambda>_. Exited)"
  \<comment> \<open>the distributor (maxHeap/main.go:129-139)\<close>
| "instr (dist_range N i) =
     (Rcv Input, \<lambda>r. case r of Some n \<Rightarrow> dist_send N i n | None \<Rightarrow> dist_close_next N 0)"
| "instr (dist_send N i n) =
     (if N = 0 then (Fail DivideByZero, \<lambda>_. Exited)
      else (Snd (Lane (i mod N)) n, \<lambda>_. dist_range N (Suc i)))"
| "instr (dist_close N k) = (Cls (Lane k), \<lambda>_. dist_close_next N (Suc k))"
  \<comment> \<open>fanIn's forwarder (lines 95-100): \<open>defer wg.Done(); for val := range c { out <- val }\<close>\<close>
| "instr (fwd_range c) =
     (Rcv c, \<lambda>r. case r of Some v \<Rightarrow> fwd_send c v | None \<Rightarrow> fwd_done)"
| "instr (fwd_send c v) = (Snd Merged v, \<lambda>_. fwd_range c)"
| "instr fwd_done = (WgDone, \<lambda>_. Exited)"
  \<comment> \<open>fanIn's closer (lines 104-107): \<open>wg.Wait(); close(out)\<close>\<close>
| "instr closer_wait = (WgWait, \<lambda>_. closer_close)"
| "instr closer_close = (Cls Merged, \<lambda>_. Exited)"
  \<comment> \<open>worker (part_001:9-17): \<open>defer wg.Done(); for job := range jobs { results <- job * 2 }\<close>\<close>
| "instr (worker_range i) =
     (Rcv Jobs, \<lambda>r. case r of Some job \<Rightarrow> worker_send i job | None \<Rightarrow> worker_done i)"
| "instr (worker_send i job) = (Snd Results (job * 2), \<lambda>_. worker_range i)"
| "instr (worker_done i) = (WgDone, \<lambda>_. Exited)"
  \<comment> \<open>pipeline main (lines 82-90): the source, the stages one after the other, the consumer\<close>
| "instr (pipe_main nums fs) = (Go (GGen 0) (generate_loop nums (Link 0)), \<lambda>_. pipe_next 0 fs)"
| "instr (pipe_stage i f fs) =
     (Go (GStage i) (stage_range f (Link i) (Link (Suc i))), \<lambda>_. pipe_next (Suc i) fs)"
  \<comment> \<open>a caller of fanIn: one generator per input channel, then fanIn, then the consumer\<close>
| "instr (merge_gen k xs xss) =
     (Go (GGen k) (generator_loop xs (Src k)), \<lambda>_. merge_next (Suc k) xss)"
  \<comment> \<open>maxHeap main (lines 112-148)\<close>
| "instr (fan_main nums N) = (Go (GGen 0) (generator_loop nums Input), \<lambda>_. fan_workers 0 N)"
| "instr (fan_worker i N) =
     (Go (GStage i) (stage_range fan_square (Lane i) (WOut i)), \<lambda>_. fan_workers (Suc i) N)"
| "instr (fan_dist N) = (Go GDist (dist_range N 0), \<lambda>_. fanIn 0 (map WOut [0..<N]))"
  \<comment> \<open>fanIn (lines 88-110), run by its caller; it returns \<open>out\<close> to the consumer loop\<close>
| "instr (fanIn_add j ch chs) = (WgAdd, \<lambda>_. fanIn_go j ch chs)"
| "instr (fanIn_go j ch chs) = (Go (GFwd j) (fwd_range ch), \<lambda>_. fanIn (Suc j) chs)"
| "instr fanIn_closer = (Go GCloser closer_wait, \<lambda>_. consume_range Merged)"
  \<comment> \<open>\<open>for result := range ch { fmt.Println(result) }\<close>\<close>
| "instr (consume_range c) =
     (Rcv c, \<lambda>r. case r of Some v \<Rightarrow> consume_print c v | None \<Rightarrow> Exited)"
| "instr (consume_print c v) = (Print v, \<lambda>_. consume_range c)"
  \<comment> \<open>pool main (part_001:19-42)\<close>
| "instr (pool_add i W J) = (WgAdd, \<lambda>_. pool_go i W J)"
| "instr (pool_go i W J) = (Go (GWorker i) (worker_range i), \<lambda>_. pool_workers (Suc i) W J)"
| "instr (pool_send j J) = (Snd Jobs (of_nat j), \<lambda>_. pool_jobs (Suc j) J)"
| "instr pool_close_jobs = (Cls Jobs, \<lambda>_. pool_wait)"
| "instr pool_wait = (WgWait, \<lambda>_. pool_close_results)"
| "instr pool_close_results = (Cls Results, \<lambda>_. consume_range Results)"
| "instr Exited = (Halt, \<lambda>_. Exited)"

subsection \<open>The shared state and one step of the program\<close>

text \<open>
  A channel has its buffer, its capacity (0 for \<^verbatim>\<open>make(chan int)\<close>) and its closed
  flag. Two more fields only record what happened: \<open>sent\<close> is every completed send, in
  order, with the goroutine that sent, and \<open>closers\<close> every goroutine that called
  \<^verbatim>\<open>close\<close>, in order (a second one panics, and is recorded too).
\<close>

record chan =
  buf :: "goint list"
  cap :: nat
  closed :: bool
  sent :: "(gname \<times> goint) list"
  closers :: "gname list"

record state =
  chans :: "cname \<Rightarrow> chan"
  wg :: nat                            \<comment> \<open>the counter of the program's one \<open>sync.WaitGroup\<close>\<close>
  gors :: "gname \<Rightarrow> gor option"         \<comment> \<open>\<open>None\<close>: not started yet\<close>
  printed :: "goint list"              \<comment> \<open>the results main has printed\<close>
  crashed :: "(gname \<times> fault) option"  \<comment> \<open>the panic that killed the program\<close>

datatype label = Solo gname | Sync gname gname

definition proceed :: "gname \<Rightarrow> gor \<Rightarrow> goint option \<Rightarrow> state \<Rightarrow> state" where
  "proceed g st r s = s\<lparr>gors := (gors s)(g \<mapsto> snd (instr st) r)\<rparr>"

definition panic :: "gname \<Rightarrow> fault \<Rightarrow> state \<Rightarrow> state" where
  "panic g f s = s\<lparr>crashed := Some (g, f)\<rparr>"

definition set_chan :: "cname \<Rightarrow> chan \<Rightarrow> state \<Rightarrow> state" where
  "set_chan c ch s = s\<lparr>chans := (chans s)(c := ch)\<rparr>"

text \<open>
  What goroutine \<open>g\<close> at control state \<open>st\<close> does on its own; \<open>None\<close> when it is blocked
  (or has returned). A send on a buffered channel with room enqueues; a receive takes the
  head of the buffer, or sees the end of a closed and drained channel; a send on a closed
  channel, a second close and a negative counter panic.
\<close>

definition solo :: "gname \<Rightarrow> gor \<Rightarrow> state \<Rightarrow> state option" where
  "solo g st s =
     (case fst (instr st) of
        Snd c v \<Rightarrow>
          (let ch = chans s c in
           if closed ch then Some (panic g (SendOnClosed c) s)
           else if length (buf ch) < cap ch
           then Some (proceed g st None
                  (set_chan c (ch\<lparr>buf := buf ch @ [v], sent := sent ch @ [(g, v)]\<rparr>) s))
           else None)
      | Rcv c \<Rightarrow>
          (let ch = chans s c in
           case buf ch of
             v # vs \<Rightarrow> Some (proceed g st (Some v) (set_chan c (ch\<lparr>buf := vs\<rparr>) s))
           | [] \<Rightarrow> if closed ch then Some (proceed g st None s) else None)
      | Cls c \<Rightarrow>
          (let ch = chans s c in
           if closed ch
           then Some (panic g (CloseOfClosed c) (set_chan c (ch\<lparr>closers := closers ch @ [g]\<rparr>) s))
           else Some (proceed g st None
                  (set_chan c (ch\<lparr>closed := True, closers := closers ch @ [g]\<rparr>) s)))
      | WgAdd \<Rightarrow> Some (proceed g st None (s\<lparr>wg := wg s + 1\<rparr>))
      | WgDone \<Rightarrow>
          (if wg s = 0 then Some (panic g NegativeCounter s)
           else Some (proceed g st None (s\<lparr>wg := wg s - 1\<rparr>)))
      | WgWait \<Rightarrow> (if wg s = 0 then Some (proceed g st None s) else None)
      | Go g' st' \<Rightarrow>
          (case gors s g' of
             None \<Rightarrow> Some (proceed g st None (s\<lparr>gors := (gors s)(g' \<mapsto> st')\<rparr>))
           | Some _ \<Rightarrow> None)
      | Print v \<Rightarrow> Some (proceed g st None (s\<lparr>printed := printed s @ [v]\<rparr>))
      | Fail f \<Rightarrow> Some (panic g f s)
      | Halt \<Rightarrow> None)"

text \<open>
  The rendezvous on an unbuffered channel: \<open>g\<close> is at a send on \<open>c\<close>, another goroutine
  \<open>h\<close> at a receive on the same open channel; the value passes and both go on.
\<close>

definition sync :: "gname \<Rightarrow> gor \<Rightarrow> gname \<Rightarrow> gor \<Rightarrow> state \<Rightarrow> state option" where
  "sync g sg h sh s =
     (case (fst (instr sg), fst (instr sh)) of
        (Snd c v, Rcv c') \<Rightarrow>
          (let ch = chans s c in
           if c = c' \<and> g \<noteq> h \<and> cap ch = 0 \<and> \<not> closed ch
           then Some (proceed h sh (Some v) (proceed g sg None
                  (set_chan c (ch\<lparr>sent := sent ch @ [(g, v)]\<rparr>) s)))
           else None)
      | _ \<Rightarrow> None)"

text \<open>
  One step. A program that has panicked is dead, and so is one whose main has returned
  (Go ends the program then, whatever the other goroutines are doing).
\<close>

definition step :: "state \<Rightarrow> label \<Rightarrow> state option" where
  "step s l =
     (case crashed s of
        Some _ \<Rightarrow> None
      | None \<Rightarrow>
          (case gors s GMain of
             Some Exited \<Rightarrow> None
           | _ \<Rightarrow>
              (case l of
                 Solo g \<Rightarrow> (case gors s g of None \<Rightarrow> None | Some st \<Rightarrow> solo g st s)
               | Sync g h \<Rightarrow>
                  (case (gors s g, gors s h) of
                     (Some sg, Some sh) \<Rightarrow> sync g sg h sh s
                   | _ \<Rightarrow> None))))"

text \<open>A run under a schedule; \<open>None\<close> when the schedule asks for a step that cannot be taken.\<close>

fun exec :: "label list \<Rightarrow> state \<Rightarrow> state option" where
  "exec [] s = Some s"
| "exec (l # ls) s = (case step s l of None \<Rightarrow> None | Some s' \<Rightarrow> exec ls s')"

definition stuck :: "state \<Rightarrow> bool" where
  "stuck s = (\<forall>l. step s l = None)"

text \<open>The program at its start: main alone, every channel empty and open.\<close>

definition new_chan :: "nat \<Rightarrow> chan" where
  "new_chan n = \<lparr>buf = [], cap = n, closed = False, sent = [], closers = []\<rparr>"

definition boot :: "gor \<Rightarrow> (cname \<Rightarrow> nat) \<Rightarrow> state" where
  "boot m caps =
     \<lparr>chans = (\<lambda>c. new_chan (caps c)), wg = 0, gors = Map.empty(GMain \<mapsto> m),
      printed = [], crashed = None\<rparr>"

text \<open>The three programs, and a caller of \<open>fanIn\<close> on any list of inputs.\<close>

definition pipeline :: "goint list \<Rightarrow> stagefn list \<Rightarrow> state" where
  "pipeline nums fs = boot (pipe_main nums fs) (\<lambda>_. 0)"

definition merger :: "goint list list \<Rightarrow> state" where
  "merger xss = boot (merge_next 0 xss) (\<lambda>_. 0)"

definition fan :: "goint list \<Rightarrow> nat \<Rightarrow> state" where
  "fan nums N = boot (fan_main nums N) (\<lambda>_. 0)"

definition pool :: "nat \<Rightarrow> nat \<Rightarrow> state" where
  "pool J W = boot (pool_workers 1 W J) (\<lambda>c. if c = Jobs \<or> c = Results then J else 0)"

text \<open>What a channel has carried, and what one goroutine has sent on it.\<close>

definition vals :: "chan \<Rightarrow> goint list" where
  "vals ch = map snd (sent ch)"

definition carried :: "state \<Rightarrow> cname \<Rightarrow> goint list" where
  "carried s c = vals (chans s c)"

definition sent_by :: "state \<Rightarrow> gname \<Rightarrow> cname \<Rightarrow> goint list" where
  "sent_by s g c = map snd (filter (\<lambda>p. fst p = g) (sent (chans s c)))"

fun started_of :: "nat \<Rightarrow> gor option \<Rightarrow> nat" where
  "started_of N (Some (pipe_main _ _)) = 0"
| "started_of N (Some (pipe_stage i _ _)) = Suc i"
| "started_of N _ = Suc N"

fun pipe_main_ok :: "goint list \<Rightarrow> stagefn list \<Rightarrow> goint list \<Rightarrow> chan \<Rightarrow> gor \<Rightarrow> bool" where
  "pipe_main_ok nums fs pr ch (pipe_main nums' fs') = (nums' = nums \<and> fs' = fs \<and> pr = [])"
| "pipe_main_ok nums fs pr ch (pipe_stage i f rest) =
     (i < length fs \<and> f = fs ! i \<and> rest = drop (Suc i) fs \<and> pr = [])"
| "pipe_main_ok nums fs pr ch (consume_range c) = (c = Link (length fs) \<and> pr = vals ch)"
| "pipe_main_ok nums fs pr ch (consume_print c v) =
     (c = Link (length fs) \<and> vals ch = pr @ [v])"
| "pipe_main_ok nums fs pr ch Exited = (pr = vals ch \<and> closed ch)"
| "pipe_main_ok nums fs pr ch _ = False"

fun pipe_gen_ok :: "goint list \<Rightarrow> chan \<Rightarrow> gor \<Rightarrow> bool" where
  "pipe_gen_ok nums ch (generate_loop rest c) =
     (c = Link 0 \<and> vals ch @ rest = nums \<and> \<not> closed ch)"
| "pipe_gen_ok nums ch Exited = (vals ch = nums \<and> closed ch)"
| "pipe_gen_ok nums ch _ = False"

fun pipe_stage_ok :: "stagefn \<Rightarrow> nat \<Rightarrow> chan \<Rightarrow> chan \<Rightarrow> gor \<Rightarrow> bool" where
  "pipe_stage_ok f i a b (stage_range f' ca cb) =
     (f' = f \<and> ca = Link i \<and> cb = Link (Suc i) \<and>
      vals b = map (stage_expr f) (vals a) \<and> \<not> closed b)"
| "pipe_stage_ok f i a b (stage_send f' ca cb n) =
     (f' = f \<and> ca = Link i \<and> cb = Link (Suc i) \<and>
      map (stage_expr f) (vals a) = vals b @ [stage_expr f n] \<and> \<not> closed b)"
| "pipe_stage_ok f i a b (stage_close f' ca cb) =
     (f' = f \<and> ca = Link i \<and> cb = Link (Suc i) \<and>
      vals b = map (stage_expr f) (vals a) \<and> closed a \<and> \<not> closed b)"
| "pipe_stage_ok f i a b Exited =
     (vals b = map (stage_expr f) (vals a) \<and> closed a \<and> closed b)"
| "pipe_stage_ok f i a b _ = False"

fun pipe_owner :: "nat \<Rightarrow> gname" where
  "pipe_owner 0 = GGen 0"
| "pipe_owner (Suc i) = GStage i"

definition pipe_base :: "state \<Rightarrow> bool" where
  "pipe_base s =
     (crashed s = None \<and> wg s = 0 \<and> (\<forall>c. buf (chans s c) = [] \<and> cap (chans s c) = 0) \<and>
      (\<forall>k. gors s (GGen (Suc k)) = None) \<and> gors s GDist = None \<and>
      (\<forall>k. gors s (GFwd k) = None) \<and> gors s GCloser = None \<and>
      (\<forall>k. gors s (GWorker k) = None))"

definition pipe_main_inv :: "goint list \<Rightarrow> stagefn list \<Rightarrow> state \<Rightarrow> bool" where
  "pipe_main_inv nums fs s =
     (case gors s GMain of
        None \<Rightarrow> False
      | Some m \<Rightarrow> pipe_main_ok nums fs (printed s) (chans s (Link (length fs))) m)"

definition pipe_gen_inv :: "goint list \<Rightarrow> stagefn list \<Rightarrow> state \<Rightarrow> bool" where
  "pipe_gen_inv nums fs s =
     (case gors s (GGen 0) of
        None \<Rightarrow> started_of (length fs) (gors s GMain) = 0 \<and> sent (chans s (Link 0)) = [] \<and>
                \<not> closed (chans s (Link 0))
      | Some st \<Rightarrow> 0 < started_of (length fs) (gors s GMain) \<and>
                   pipe_gen_ok nums (chans s (Link 0)) st)"

definition pipe_stage_inv :: "stagefn list \<Rightarrow> state \<Rightarrow> nat \<Rightarrow> bool" where
  "pipe_stage_inv fs s i =
     (case gors s (GStage i) of
        None \<Rightarrow> \<not> Suc i < started_of (length fs) (gors s GMain) \<and>
                sent (chans s (Link (Suc i))) = [] \<and> \<not> closed (chans s (Link (Suc i))) \<and>
                (i < length fs \<longrightarrow> sent (chans s (Link i)) = [])
      | Some st \<Rightarrow> Suc i < started_of (length fs) (gors s GMain) \<and>
                   pipe_stage_ok (fs ! i) i (chans s (Link i)) (chans s (Link (Suc i))) st)"

definition pipe_chan_inv :: "state \<Rightarrow> nat \<Rightarrow> bool" where
  "pipe_chan_inv s i =
     ((\<forall>p \<in> set (sent (chans s (Link i))). fst p = pipe_owner i) \<and>
      closers (chans s (Link i)) = (if closed (chans s (Link i)) then [pipe_owner i] else []))"

definition pipe_inv :: "goint list \<Rightarrow> stagefn list \<Rightarrow> state \<Rightarrow> bool" where
  "pipe_inv nums fs s =
     (pipe_base s \<and> pipe_main_inv nums fs s \<and> pipe_gen_inv nums fs s \<and>
      (\<forall>i. pipe_stage_inv fs s i) \<and> (\<forall>i. pipe_chan_inv s i))"

inductive pipe_tr :: "goint list \<Rightarrow> stagefn list \<Rightarrow> state \<Rightarrow> state \<Rightarrow> bool"
  for nums :: "goint list" and fs :: "stagefn list" where
  start_gen:
    "gors s GMain = Some (pipe_main nums fs) \<Longrightarrow> gors s (GGen 0) = None \<Longrightarrow>
     s' = s\<lparr>gors := (gors s)(GGen 0 \<mapsto> generate_loop nums (Link 0), GMain \<mapsto> pipe_next 0 fs)\<rparr> \<Longrightarrow>
     pipe_tr nums fs s s'"
| start_stage:
    "gors s GMain = Some (pipe_stage i f rest) \<Longrightarrow> gors s (GStage i) = None \<Longrightarrow>
     s' = s\<lparr>gors := (gors s)(GStage i \<mapsto> stage_range f (Link i) (Link (Suc i)),
                            GMain \<mapsto> pipe_next (Suc i) rest)\<rparr> \<Longrightarrow>
     pipe_tr nums fs s s'"
| gen_to_stage:
    "gors s (GGen 0) = Some (generate_loop (v # rest) (Link 0)) \<Longrightarrow>
     gors s (GStage 0) = Some (stage_range f (Link 0) b) \<Longrightarrow>
     \<not> closed (chans s (Link 0)) \<Longrightarrow>
     s' = s\<lparr>chans := (chans s)(Link 0 := (chans s (Link 0))
                \<lparr>sent := sent (chans s (Link 0)) @ [(GGen 0, v)]\<rparr>),
            gors := (gors s)(GGen 0 \<mapsto> generate_loop rest (Link 0),
                            GStage 0 \<mapsto> stage_send f (Link 0) b v)\<rparr> \<Longrightarrow>
     pipe_tr nums fs s s'"
| gen_to_main:
    "gors s (GGen 0) = Some (generate_loop (v # rest) (Link 0)) \<Longrightarrow>
     gors s GMain = Some (consume_range (Link 0)) \<Longrightarrow>
     \<not> closed (chans s (Link 0)) \<Longrightarrow>
     s' = s\<lparr>chans := (chans s)(Link 0 := (chans s (Link 0))
                \<lparr>sent := sent (chans s (Link 0)) @ [(GGen 0, v)]\<rparr>),
            gors := (gors s)(GGen 0 \<mapsto> generate_loop rest (Link 0),
                            GMain \<mapsto> consume_print (Link 0) v)\<rparr> \<Longrightarrow>
     pipe_tr nums fs s s'"
| stage_to_stage:
    "gors s (GStage i) = Some (stage_send f a (Link (Suc i)) n) \<Longrightarrow>
     gors s (GStage (Suc i)) = Some (stage_range f' (Link (Suc i)) b') \<Longrightarrow>
     \<not> closed (chans s (Link (Suc i))) \<Longrightarrow>
     s' = s\<lparr>chans := (chans s)(Link (Suc i) := (chans s (Link (Suc i)))
                \<lparr>sent := sent (chans s (Link (Suc i))) @ [(GStage i, stage_expr f n)]\<rparr>),
            gors := (gors s)(GStage i \<mapsto> stage_range f a (Link (Suc i)),
                            GStage (Suc i) \<mapsto> stage_send f' (Link (Suc i)) b' (stage_expr f n))\<rparr> \<Longrightarrow>
     pipe_tr nums fs s s'"
| stage_to_main:
    "gors s (GStage i) = Some (stage_send f a (Link (Suc i)) n) \<Longrightarrow>
     gors s GMain = Some (consume_range (Link (Suc i))) \<Longrightarrow>
     \<not> closed (chans s (Link (Suc i))) \<Longrightarrow>
     s' = s\<lparr>chans := (chans s)(Link (Suc i) := (chans s (Link (Suc i)))
                \<lparr>sent := sent (chans s (Link (Suc i))) @ [(GStage i, stage_expr f n)]\<rparr>),
            gors := (gors s)(GStage i \<mapsto> stage_range f a (Link (Suc i)),
                            GMain \<mapsto> consume_print (Link (Suc i)) (stage_expr f n))\<rparr> \<Longrightarrow>
     pipe_tr nums fs s s'"
| gen_close:
    "gors s (GGen 0) = Some (generate_loop [] (Link 0)) \<Longrightarrow>
     \<not> closed (chans s (Link 0)) \<Longrightarrow>
     s' = s\<lparr>chans := (chans s)(Link 0 := (chans s (Link 0))
                \<lparr>closed := True, closers := closers (chans s (Link 0)) @ [GGen 0]\<rparr>),
            gors := (gors s)(GGen 0 \<mapsto> Exited)\<rparr> \<Longrightarrow>
     pipe_tr nums fs s s'"
| stage_end:
    "gors s (GStage i) = Some (stage_range f (Link i) b) \<Longrightarrow>
     closed (chans s (Link i)) \<Longrightarrow>
     s' = s\<lparr>gors := (gors s)(GStage i \<mapsto> stage_close f (Link i) b)\<rparr> \<Longrightarrow>
     pipe_tr nums fs s s'"
| stage_close:
    "gors s (GStage i) = Some (stage_close f a (Link (Suc i))) \<Longrightarrow>
     \<not> closed (chans s (Link (Suc i))) \<Longrightarrow>
     s' = s\<lparr>chans := (chans s)(Link (Suc i) := (chans s (Link (Suc i)))
                \<lparr>closed := True, closers := closers (chans s (Link (Suc i))) @ [GStage i]\<rparr>),
            gors := (gors s)(GStage i \<mapsto> Exited)\<rparr> \<Longrightarrow>
     pipe_tr nums fs s s'"
| main_end:
    "gors s GMain = Some (consume_range c) \<Longrightarrow> closed (chans s c) \<Longrightarrow>
     s' = s\<lparr>gors := (gors s)(GMain \<mapsto> Exited)\<rparr> \<Longrightarrow>
     pipe_tr nums fs s s'"
| main_print:
    "gors s GMain = Some (consume_print c v) \<Longrightarrow>
     s' = s\<lparr>printed := printed s @ [v], gors := (gors s)(GMain \<mapsto> consume_range c)\<rparr> \<Longrightarrow>
     pipe_tr nums fs s s'"

definition pipe_fun :: "stagefn list \<Rightarrow> goint list \<Rightarrow> goint list" where
  "pipe_fun fs xs = foldl (\<lambda>ys f. map (stage_expr f) ys) xs fs"

text \<open>
  The steps a pipeline still has to take, counted from the control states: every number
  still to be sent passes over every link and is printed, every goroutine has its last
  receive and its close.
\<close>

fun pipe_main_mu :: "nat \<Rightarrow> gor option \<Rightarrow> nat" where
  "pipe_main_mu N (Some (pipe_main nums fs)) = length nums * (N + 2) + 3 * N + 3"
| "pipe_main_mu N (Some (pipe_stage i f rest)) = 3 * (N - i) + 1"
| "pipe_main_mu N (Some (consume_range c)) = 1"
| "pipe_main_mu N (Some (consume_print c v)) = 2"
| "pipe_main_mu N _ = 0"

fun pipe_gen_mu :: "nat \<Rightarrow> gor option \<Rightarrow> nat" where
  "pipe_gen_mu N (Some (generate_loop rest c)) = length rest * (N + 2) + 1"
| "pipe_gen_mu N _ = 0"

fun pipe_stage_mu :: "nat \<Rightarrow> nat \<Rightarrow> gor option \<Rightarrow> nat" where
  "pipe_stage_mu N i (Some (stage_range f a b)) = 2"
| "pipe_stage_mu N i (Some (stage_send f a b n)) = (N - i) + 3"
| "pipe_stage_mu N i (Some (stage_close f a b)) = 1"
| "pipe_stage_mu N i _ = 0"

definition pipe_mu :: "nat \<Rightarrow> state \<Rightarrow> nat" where
  "pipe_mu N s =
     pipe_main_mu N (gors s GMain) + pipe_gen_mu N (gors s (GGen 0)) +
     (\<Sum>i<N. pipe_stage_mu N i (gors s (GStage i)))"

definition alive :: "state \<Rightarrow> bool" where
  "alive s = (crashed s = None \<and> gors s GMain \<noteq> Some Exited)"


definition empty_source_schedule :: "label list" where
  "empty_source_schedule = [Solo GMain, Solo (GGen 0), Solo GMain]"

text \<open>
  A schedule that runs a source and one stage on two numbers to the end: each number
  passes from the source to the stage and from the stage to main, which prints it, before
  the next one is sent.
\<close>

definition two_item_schedule :: "label list" where
  "two_item_schedule =
     [Solo GMain, Solo GMain,
      Sync (GGen 0) (GStage 0), Sync (GStage 0) GMain, Solo GMain,
      Sync (GGen 0) (GStage 0), Sync (GStage 0) GMain, Solo GMain,
      Solo (GGen 0), Solo (GStage 0), Solo (GStage 0), Solo GMain]"

subsection \<open>Invariants of fanIn and of its caller\<close>

text \<open>
  How far the caller of \<open>fanIn\<close> has come, read from its control state: the number of
  forwarders it has started, whether it stands between \<open>wg.Add(1)\<close> and the \<open>go\<close> of
  the same round, and whether the closer is started.
\<close>

fun fwds_started :: "nat \<Rightarrow> gor option \<Rightarrow> nat" where
  "fwds_started N (Some (fanIn_add j c cs)) = j"
| "fwds_started N (Some (fanIn_go j c cs)) = j"
| "fwds_started N (Some fanIn_closer) = N"
| "fwds_started N (Some (consume_range c)) = N"
| "fwds_started N (Some (consume_print c v)) = N"
| "fwds_started N (Some Exited) = N"
| "fwds_started N _ = 0"

fun pending_add :: "gor option \<Rightarrow> nat" where
  "pending_add (Some (fanIn_go j c cs)) = 1"
| "pending_add _ = 0"

fun closer_started :: "gor option \<Rightarrow> bool" where
  "closer_started (Some (consume_range c)) = True"
| "closer_started (Some (consume_print c v)) = True"
| "closer_started (Some Exited) = True"
| "closer_started _ = False"

fun fwd_active :: "gor option \<Rightarrow> nat" where
  "fwd_active (Some (fwd_range c)) = 1"
| "fwd_active (Some (fwd_send c v)) = 1"
| "fwd_active (Some fwd_done) = 1"
| "fwd_active _ = 0"

text \<open>The counter of the wait group is the number of forwarders that have not returned.\<close>

definition fin_wg :: "nat \<Rightarrow> state \<Rightarrow> bool" where
  "fin_wg N s = (wg s = pending_add (gors s GMain) + (\<Sum>k<N. fwd_active (gors s (GFwd k))))"

fun closer_ok :: "bool \<Rightarrow> nat \<Rightarrow> chan \<Rightarrow> gor option \<Rightarrow> bool" where
  "closer_ok st w ch None = (\<not> st \<and> \<not> closed ch \<and> closers ch = [])"
| "closer_ok st w ch (Some closer_wait) = (st \<and> \<not> closed ch \<and> closers ch = [])"
| "closer_ok st w ch (Some closer_close) = (st \<and> \<not> closed ch \<and> closers ch = [] \<and> w = 0)"
| "closer_ok st w ch (Some Exited) = (st \<and> closed ch \<and> closers ch = [GCloser] \<and> w = 0)"
| "closer_ok st w ch _ = False"

definition fin_closer :: "state \<Rightarrow> bool" where
  "fin_closer s = closer_ok (closer_started (gors s GMain)) (wg s) (chans s Merged) (gors s GCloser)"

definition proj :: "gname \<Rightarrow> (gname \<times> goint) list \<Rightarrow> goint list" where
  "proj g l = map snd (filter (\<lambda>p. fst p = g) l)"

fun fwd_ok :: "cname \<Rightarrow> chan \<Rightarrow> goint list \<Rightarrow> gor \<Rightarrow> bool" where
  "fwd_ok c a out (fwd_range c') = (c' = c \<and> out = vals a)"
| "fwd_ok c a out (fwd_send c' v) = (c' = c \<and> vals a = out @ [v])"
| "fwd_ok c a out fwd_done = (out = vals a \<and> closed a)"
| "fwd_ok c a out Exited = (out = vals a \<and> closed a)"
| "fwd_ok c a out _ = False"

definition fin_fwd :: "(nat \<Rightarrow> cname) \<Rightarrow> nat \<Rightarrow> state \<Rightarrow> nat \<Rightarrow> bool" where
  "fin_fwd inp N s k =
     (case gors s (GFwd k) of
        None \<Rightarrow> \<not> k < fwds_started N (gors s GMain) \<and>
                (k < N \<longrightarrow> sent (chans s (inp k)) = []) \<and>
                proj (GFwd k) (sent (chans s Merged)) = []
      | Some st \<Rightarrow> k < fwds_started N (gors s GMain) \<and>
                   fwd_ok (inp k) (chans s (inp k)) (proj (GFwd k) (sent (chans s Merged))) st)"

definition fin_senders :: "nat \<Rightarrow> state \<Rightarrow> bool" where
  "fin_senders N s = (\<forall>p \<in> set (sent (chans s Merged)). \<exists>k<N. fst p = GFwd k)"

text \<open>The caller of \<open>fanIn\<close> on generators, one for each of the sequences \<open>xss\<close>.\<close>

fun gens_started :: "nat \<Rightarrow> gor option \<Rightarrow> nat" where
  "gens_started N (Some (merge_gen k xs rest)) = k"
| "gens_started N _ = N"

fun merge_main_ok :: "goint list list \<Rightarrow> goint list \<Rightarrow> chan \<Rightarrow> gor \<Rightarrow> bool" where
  "merge_main_ok xss pr ch (merge_gen k xs rest) =
     (k < length xss \<and> xs = xss ! k \<and> rest = drop (Suc k) xss \<and> pr = [] \<and> sent ch = [])"
| "merge_main_ok xss pr ch (fanIn_add j c cs) =
     (j < length xss \<and> c = Src j \<and> cs = map Src [Suc j..<length xss] \<and> pr = [] \<and> sent ch = [])"
| "merge_main_ok xss pr ch (fanIn_go j c cs) =
     (j < length xss \<and> c = Src j \<and> cs = map Src [Suc j..<length xss] \<and> pr = [] \<and> sent ch = [])"
| "merge_main_ok xss pr ch fanIn_closer = (pr = [] \<and> sent ch = [])"
| "merge_main_ok xss pr ch (consume_range c) = (c = Merged \<and> pr = vals ch)"
| "merge_main_ok xss pr ch (consume_print c v) = (c = Merged \<and> vals ch = pr @ [v])"
| "merge_main_ok xss pr ch Exited = (pr = vals ch \<and> closed ch)"
| "merge_main_ok xss pr ch _ = False"

fun merge_gen_ok :: "goint list \<Rightarrow> cname \<Rightarrow> chan \<Rightarrow> gor \<Rightarrow> bool" where
  "merge_gen_ok xs c ch (generator_loop rest c') = (c' = c \<and> vals ch @ rest = xs \<and> \<not> closed ch)"
| "merge_gen_ok xs c ch Exited = (vals ch = xs \<and> closed ch)"
| "merge_gen_ok xs c ch _ = False"

definition merge_base :: "state \<Rightarrow> bool" where
  "merge_base s =
     (crashed s = None \<and> (\<forall>c. buf (chans s c) = [] \<and> cap (chans s c) = 0) \<and>
      (\<forall>i. gors s (GStage i) = None) \<and> gors s GDist = None \<and> (\<forall>k. gors s (GWorker k) = None))"

definition merge_main_inv :: "goint list list \<Rightarrow> state \<Rightarrow> bool" where
  "merge_main_inv xss s =
     (case gors s GMain of
        None \<Rightarrow> False
      | Some m \<Rightarrow> merge_main_ok xss (printed s) (chans s Merged) m)"

definition merge_gen_inv :: "goint list list \<Rightarrow> state \<Rightarrow> nat \<Rightarrow> bool" where
  "merge_gen_inv xss s k =
     (case gors s (GGen k) of
        None \<Rightarrow> \<not> k < gens_started (length xss) (gors s GMain) \<and>
                sent (chans s (Src k)) = [] \<and> \<not> closed (chans s (Src k))
      | Some st \<Rightarrow> k < gens_started (length xss) (gors s GMain) \<and>
                   merge_gen_ok (xss ! k) (Src k) (chans s (Src k)) st)"

definition src_chan_inv :: "state \<Rightarrow> nat \<Rightarrow> bool" where
  "src_chan_inv s k =
     ((\<forall>p \<in> set (sent (chans s (Src k))). fst p = GGen k) \<and>
      closers (chans s (Src k)) = (if closed (chans s (Src k)) then [GGen k] else []))"

definition merge_inv :: "goint list list \<Rightarrow> state \<Rightarrow> bool" where
  "merge_inv xss s =
     (merge_base s \<and> merge_main_inv xss s \<and> (\<forall>k. merge_gen_inv xss s k) \<and>
      (\<forall>k. fin_fwd Src (length xss) s k) \<and> fin_wg (length xss) s \<and> fin_closer s \<and>
      fin_senders (length xss) s \<and> (\<forall>k. src_chan_inv s k))"

inductive merge_tr :: "state \<Rightarrow> state \<Rightarrow> bool" where
  m_gen:
    "gors s GMain = Some (merge_gen k xs rest) \<Longrightarrow> gors s (GGen k) = None \<Longrightarrow>
     s' = s\<lparr>gors := (gors s)(GGen k \<mapsto> generator_loop xs (Src k),
                            GMain \<mapsto> merge_next (Suc k) rest)\<rparr> \<Longrightarrow>
     merge_tr s s'"
| m_add:
    "gors s GMain = Some (fanIn_add j c cs) \<Longrightarrow>
     s' = s\<lparr>wg := Suc (wg s), gors := (gors s)(GMain \<mapsto> fanIn_go j c cs)\<rparr> \<Longrightarrow>
     merge_tr s s'"
| m_go:
    "gors s GMain = Some (fanIn_go j c cs) \<Longrightarrow> gors s (GFwd j) = None \<Longrightarrow>
     s' = s\<lparr>gors := (gors s)(GFwd j \<mapsto> fwd_range c, GMain \<mapsto> fanIn (Suc j) cs)\<rparr> \<Longrightarrow>
     merge_tr s s'"
| m_closer:
    "gors s GMain = Some fanIn_closer \<Longrightarrow> gors s GCloser = None \<Longrightarrow>
     s' = s\<lparr>gors := (gors s)(GCloser \<mapsto> closer_wait, GMain \<mapsto> consume_range Merged)\<rparr> \<Longrightarrow>
     merge_tr s s'"
| m_gen_to_fwd:
    "gors s (GGen k) = Some (generator_loop (v # rest) (Src k)) \<Longrightarrow>
     gors s (GFwd k) = Some (fwd_range (Src k)) \<Longrightarrow>
     \<not> closed (chans s (Src k)) \<Longrightarrow>
     s' = s\<lparr>chans := (chans s)(Src k := (chans s (Src k))
                \<lparr>sent := sent (chans s (Src k)) @ [(GGen k, v)]\<rparr>),
            gors := (gors s)(GGen k \<mapsto> generator_loop rest (Src k),
                            GFwd k \<mapsto> fwd_send (Src k) v)\<rparr> \<Longrightarrow>
     merge_tr s s'"
| m_gen_close:
    "gors s (GGen k) = Some (generator_loop [] (Src k)) \<Longrightarrow>
     \<not> closed (chans s (Src k)) \<Longrightarrow>
     s' = s\<lparr>chans := (chans s)(Src k := (chans s (Src k))
                \<lparr>closed := True, closers := closers (chans s (Src k)) @ [GGen k]\<rparr>),
            gors := (gors s)(GGen k \<mapsto> Exited)\<rparr> \<Longrightarrow>
     merge_tr s s'"
| m_fwd_end:
    "gors s (GFwd k) = Some (fwd_range c) \<Longrightarrow> closed (chans s c) \<Longrightarrow>
     s' = s\<lparr>gors := (gors s)(GFwd k \<mapsto> fwd_done)\<rparr> \<Longrightarrow>
     merge_tr s s'"
| m_fwd_done:
    "gors s (GFwd k) = Some fwd_done \<Longrightarrow> wg s \<noteq> 0 \<Longrightarrow>
     s' = s\<lparr>wg := wg s - 1, gors := (gors s)(GFwd k \<mapsto> Exited)\<rparr> \<Longrightarrow>
     merge_tr s s'"
| m_fwd_to_main:
    "gors s (GFwd k) = Some (fwd_send c v) \<Longrightarrow>
     gors s GMain = Some (consume_range Merged) \<Longrightarrow>
     \<not> closed (chans s Merged) \<Longrightarrow>
     s' = s\<lparr>chans := (chans s)(Merged := (chans s Merged)
                \<lparr>sent := sent (chans s Merged) @ [(GFwd k, v)]\<rparr>),
            gors := (gors s)(GFwd k \<mapsto> fwd_range c, GMain \<mapsto> consume_print Merged v)\<rparr> \<Longrightarrow>
     merge_tr s s'"
| m_wait:
    "gors s GCloser = Some closer_wait \<Longrightarrow> wg s = 0 \<Longrightarrow>
     s' = s\<lparr>gors := (gors s)(GCloser \<mapsto> closer_close)\<rparr> \<Longrightarrow>
     merge_tr s s'"
| m_close:
    "gors s GCloser = Some closer_close \<Longrightarrow> \<not> closed (chans s Merged) \<Longrightarrow>
     s' = s\<lparr>chans := (chans s)(Merged := (chans s Merged)
                \<lparr>closed := True, closers := closers (chans s Merged) @ [GCloser]\<rparr>),
            gors := (gors s)(GCloser \<mapsto> Exited)\<rparr> \<Longrightarrow>
     merge_tr s s'"
| m_main_end:
    "gors s GMain = Some (consume_range c) \<Longrightarrow> closed (chans s c) \<Longrightarrow>
     s' = s\<lparr>gors := (gors s)(GMain \<mapsto> Exited)\<rparr> \<Longrightarrow>
     merge_tr s s'"
| m_main_print:
    "gors s GMain = Some (consume_print c v) \<Longrightarrow>
     s' = s\<lparr>printed := printed s @ [v], gors := (gors s)(GMain \<mapsto> consume_range c)\<rparr> \<Longrightarrow>
     merge_tr s s'"

text \<open>The steps the caller of \<open>fanIn\<close> and its goroutines still have to take.\<close>

fun merge_main_mu :: "nat \<Rightarrow> gor option \<Rightarrow> nat" where
  "merge_main_mu N (Some (merge_gen k xs rest)) =
     3 * length (concat (xs # rest)) + 2 * Suc (length rest) + 4 * N + 4"
| "merge_main_mu N (Some (fanIn_add j c cs)) = 4 * Suc (length cs) + 4"
| "merge_main_mu N (Some (fanIn_go j c cs)) = 4 * Suc (length cs) + 3"
| "merge_main_mu N (Some fanIn_closer) = 4"
| "merge_main_mu N (Some (consume_range c)) = 1"
| "merge_main_mu N (Some (consume_print c v)) = 2"
| "merge_main_mu N _ = 0"

fun generator_mu :: "gor option \<Rightarrow> nat" where
  "generator_mu (Some (generator_loop rest c)) = 3 * length rest + 1"
| "generator_mu _ = 0"

fun fwd_mu :: "gor option \<Rightarrow> nat" where
  "fwd_mu (Some (fwd_range c)) = 2"
| "fwd_mu (Some (fwd_send c v)) = 4"
| "fwd_mu (Some fwd_done) = 1"
| "fwd_mu _ = 0"

fun closer_mu :: "gor option \<Rightarrow> nat" where
  "closer_mu (Some closer_wait) = 2"
| "closer_mu (Some closer_close) = 1"
| "closer_mu _ = 0"

definition merge_mu :: "nat \<Rightarrow> state \<Rightarrow> nat" where
  "merge_mu N s =
     merge_main_mu N (gors s GMain) + (\<Sum>k<N. generator_mu (gors s (GGen k))) +
     (\<Sum>k<N. fwd_mu (gors s (GFwd k))) + closer_mu (gors s GCloser)"

text \<open>
  Two schedules of the caller of \<open>fanIn\<close>, run to the end. The first has one input with
  one number. The second has two inputs with one number each, and the number of the
  second input reaches the output first.
\<close>

definition one_lane_schedule :: "label list" where
  "one_lane_schedule =
     [Solo GMain, Solo GMain, Solo GMain, Solo GMain,
      Sync (GGen 0) (GFwd 0), Sync (GFwd 0) GMain, Solo GMain,
      Solo (GGen 0), Solo (GFwd 0), Solo (GFwd 0), Solo GCloser, Solo GCloser, Solo GMain]"

definition two_lane_schedule :: "label list" where
  "two_lane_schedule =
     [Solo GMain, Solo GMain, Solo GMain, Solo GMain, Solo GMain, Solo GMain, Solo GMain,
      Sync (GGen 1) (GFwd 1), Sync (GFwd 1) GMain, Solo GMain,
      Sync (GGen 0) (GFwd 0), Sync (GFwd 0) GMain, Solo GMain,
      Solo (GGen 0), Solo (GGen 1), Solo (GFwd 0), Solo (GFwd 1), Solo (GFwd 0), Solo (GFwd 1),
      Solo GCloser, Solo GCloser, Solo GMain]"

definition no_lane_schedule :: "label list" where
  "no_lane_schedule = [Solo GMain, Solo GCloser, Solo GCloser, Solo GMain]"

section \<open>The worker pool\<close>

subsection \<open>Invariants of the worker pool\<close>

text \<open>
  How far main has come in starting the workers: the \<open>id\<close> of the next worker to start,
  and whether main stands between \<open>wg.Add(1)\<close> and the \<open>go\<close> of the same round.
\<close>

fun workers_started :: "nat \<Rightarrow> gor option \<Rightarrow> nat" where
  "workers_started W (Some (pool_add i W' J)) = i"
| "workers_started W (Some (pool_go i W' J)) = i"
| "workers_started W _ = Suc W"

fun pool_pending :: "gor option \<Rightarrow> nat" where
  "pool_pending (Some (pool_go i W J)) = 1"
| "pool_pending _ = 0"

fun worker_active :: "gor option \<Rightarrow> nat" where
  "worker_active (Some (worker_range i)) = 1"
| "worker_active (Some (worker_send i job)) = 1"
| "worker_active (Some (worker_done i)) = 1"
| "worker_active _ = 0"

fun worker_holding :: "gor option \<Rightarrow> nat" where
  "worker_holding (Some (worker_send i job)) = 1"
| "worker_holding _ = 0"

fun worker_ok :: "nat \<Rightarrow> gor \<Rightarrow> bool" where
  "worker_ok i (worker_range i') = (i' = i)"
| "worker_ok i (worker_send i' job) = (i' = i)"
| "worker_ok i (worker_done i') = (i' = i)"
| "worker_ok i Exited = True"
| "worker_ok i _ = False"

definition all_jobs :: "nat \<Rightarrow> goint list" where
  "all_jobs J = map of_nat [1..<Suc J]"

fun pool_main_ok ::
  "nat \<Rightarrow> nat \<Rightarrow> chan \<Rightarrow> chan \<Rightarrow> goint list \<Rightarrow> nat \<Rightarrow> gor \<Rightarrow> bool" where
  "pool_main_ok J W jobs res pr w (pool_add i W' J') =
     (W' = W \<and> J' = J \<and> 1 \<le> i \<and> i \<le> W \<and> sent jobs = [] \<and> buf jobs = [] \<and> \<not> closed jobs \<and>
      sent res = [] \<and> buf res = [] \<and> \<not> closed res \<and> pr = [])"
| "pool_main_ok J W jobs res pr w (pool_go i W' J') =
     (W' = W \<and> J' = J \<and> 1 \<le> i \<and> i \<le> W \<and> sent jobs = [] \<and> buf jobs = [] \<and> \<not> closed jobs \<and>
      sent res = [] \<and> buf res = [] \<and> \<not> closed res \<and> pr = [])"
| "pool_main_ok J W jobs res pr w (pool_send j J') =
     (J' = J \<and> 1 \<le> j \<and> j \<le> J \<and> vals jobs = map of_nat [1..<j] \<and> \<not> closed jobs \<and>
      \<not> closed res \<and> pr = [] \<and> vals res = buf res)"
| "pool_main_ok J W jobs res pr w pool_close_jobs =
     (vals jobs = all_jobs J \<and> \<not> closed jobs \<and> \<not> closed res \<and> pr = [] \<and> vals res = buf res)"
| "pool_main_ok J W jobs res pr w pool_wait =
     (vals jobs = all_jobs J \<and> closed jobs \<and> \<not> closed res \<and> pr = [] \<and> vals res = buf res)"
| "pool_main_ok J W jobs res pr w pool_close_results =
     (vals jobs = all_jobs J \<and> closed jobs \<and> \<not> closed res \<and> pr = [] \<and> vals res = buf res \<and>
      w = 0)"
| "pool_main_ok J W jobs res pr w (consume_range c) =
     (c = Results \<and> vals jobs = all_jobs J \<and> closed jobs \<and> closed res \<and> w = 0 \<and>
      vals res = pr @ buf res)"
| "pool_main_ok J W jobs res pr w (consume_print c v) =
     (c = Results \<and> vals jobs = all_jobs J \<and> closed jobs \<and> closed res \<and> w = 0 \<and>
      vals res = pr @ v # buf res)"
| "pool_main_ok J W jobs res pr w Exited =
     (vals jobs = all_jobs J \<and> closed jobs \<and> closed res \<and> w = 0 \<and> vals res = pr \<and>
      buf res = [])"
| "pool_main_ok J W jobs res pr w _ = False"

definition pool_base :: "nat \<Rightarrow> state \<Rightarrow> bool" where
  "pool_base J s =
     (crashed s = None \<and> cap (chans s Jobs) = J \<and> cap (chans s Results) = J \<and>
      (\<forall>k. gors s (GGen k) = None) \<and> (\<forall>i. gors s (GStage i) = None) \<and> gors s GDist = None \<and>
      (\<forall>k. gors s (GFwd k) = None) \<and> gors s GCloser = None)"

definition pool_main_inv :: "nat \<Rightarrow> nat \<Rightarrow> state \<Rightarrow> bool" where
  "pool_main_inv J W s =
     (case gors s GMain of
        None \<Rightarrow> False
      | Some m \<Rightarrow> pool_main_ok J W (chans s Jobs) (chans s Results) (printed s) (wg s) m)"

definition pool_worker_inv :: "nat \<Rightarrow> state \<Rightarrow> nat \<Rightarrow> bool" where
  "pool_worker_inv W s i =
     (case gors s (GWorker i) of
        None \<Rightarrow> \<not> (1 \<le> i \<and> i < workers_started W (gors s GMain))
      | Some st \<Rightarrow> 1 \<le> i \<and> i < workers_started W (gors s GMain) \<and> worker_ok i st)"

definition pool_wg :: "nat \<Rightarrow> state \<Rightarrow> bool" where
  "pool_wg W s =
     (wg s = pool_pending (gors s GMain) + (\<Sum>i<Suc W. worker_active (gors s (GWorker i))))"

definition pool_count :: "nat \<Rightarrow> state \<Rightarrow> bool" where
  "pool_count W s =
     (length (vals (chans s Jobs)) =
        length (buf (chans s Jobs)) + length (vals (chans s Results)) +
        (\<Sum>i<Suc W. worker_holding (gors s (GWorker i))))"

definition pool_chan_inv :: "nat \<Rightarrow> state \<Rightarrow> bool" where
  "pool_chan_inv W s =
     ((\<forall>p \<in> set (sent (chans s Jobs)). fst p = GMain) \<and>
      closers (chans s Jobs) = (if closed (chans s Jobs) then [GMain] else []) \<and>
      (\<forall>p \<in> set (sent (chans s Results)). \<exists>i. 1 \<le> i \<and> i \<le> W \<and> fst p = GWorker i) \<and>
      closers (chans s Results) = (if closed (chans s Results) then [GMain] else []))"

definition pool_inv :: "nat \<Rightarrow> nat \<Rightarrow> state \<Rightarrow> bool" where
  "pool_inv J W s =
     (pool_base J s \<and> pool_main_inv J W s \<and> (\<forall>i. pool_worker_inv W s i) \<and> pool_wg W s \<and>
      pool_count W s \<and> pool_chan_inv W s)"

inductive pool_tr :: "state \<Rightarrow> state \<Rightarrow> bool" where
  p_add:
    "gors s GMain = Some (pool_add i W J) \<Longrightarrow>
     s' = s\<lparr>wg := Suc (wg s), gors := (gors s)(GMain \<mapsto> pool_go i W J)\<rparr> \<Longrightarrow>
     pool_tr s s'"
| p_go:
    "gors s GMain = Some (pool_go i W J) \<Longrightarrow> gors s (GWorker i) = None \<Longrightarrow>
     s' = s\<lparr>gors := (gors s)(GWorker i \<mapsto> worker_range i,
                            GMain \<mapsto> pool_workers (Suc i) W J)\<rparr> \<Longrightarrow>
     pool_tr s s'"
| p_send:
    "gors s GMain = Some (pool_send j J) \<Longrightarrow> \<not> closed (chans s Jobs) \<Longrightarrow>
     length (buf (chans s Jobs)) < cap (chans s Jobs) \<Longrightarrow>
     s' = s\<lparr>chans := (chans s)(Jobs := (chans s Jobs)
                \<lparr>buf := buf (chans s Jobs) @ [of_nat j],
                 sent := sent (chans s Jobs) @ [(GMain, of_nat j)]\<rparr>),
            gors := (gors s)(GMain \<mapsto> pool_jobs (Suc j) J)\<rparr> \<Longrightarrow>
     pool_tr s s'"
| p_close_jobs:
    "gors s GMain = Some pool_close_jobs \<Longrightarrow> \<not> closed (chans s Jobs) \<Longrightarrow>
     s' = s\<lparr>chans := (chans s)(Jobs := (chans s Jobs)
                \<lparr>closed := True, closers := closers (chans s Jobs) @ [GMain]\<rparr>),
            gors := (gors s)(GMain \<mapsto> pool_wait)\<rparr> \<Longrightarrow>
     pool_tr s s'"
| p_wait:
    "gors s GMain = Some pool_wait \<Longrightarrow> wg s = 0 \<Longrightarrow>
     s' = s\<lparr>gors := (gors s)(GMain \<mapsto> pool_close_results)\<rparr> \<Longrightarrow>
     pool_tr s s'"
| p_close_results:
    "gors s GMain = Some pool_close_results \<Longrightarrow> \<not> closed (chans s Results) \<Longrightarrow>
     s' = s\<lparr>chans := (chans s)(Results := (chans s Results)
                \<lparr>closed := True, closers := closers (chans s Results) @ [GMain]\<rparr>),
            gors := (gors s)(GMain \<mapsto> consume_range Results)\<rparr> \<Longrightarrow>
     pool_tr s s'"
| p_recv:
    "gors s GMain = Some (consume_range Results) \<Longrightarrow> buf (chans s Results) = v # vs \<Longrightarrow>
     s' = s\<lparr>chans := (chans s)(Results := (chans s Results)\<lparr>buf := vs\<rparr>),
            gors := (gors s)(GMain \<mapsto> consume_print Results v)\<rparr> \<Longrightarrow>
     pool_tr s s'"
| p_end:
    "gors s GMain = Some (consume_range Results) \<Longrightarrow> buf (chans s Results) = [] \<Longrightarrow>
     closed (chans s Results) \<Longrightarrow>
     s' = s\<lparr>gors := (gors s)(GMain \<mapsto> Exited)\<rparr> \<Longrightarrow>
     pool_tr s s'"
| p_print:
    "gors s GMain = Some (consume_print c v) \<Longrightarrow>
     s' = s\<lparr>printed := printed s @ [v], gors := (gors s)(GMain \<mapsto> consume_range c)\<rparr> \<Longrightarrow>
     pool_tr s s'"
| w_recv:
    "gors s (GWorker i) = Some (worker_range i) \<Longrightarrow> buf (chans s Jobs) = v # vs \<Longrightarrow>
     s' = s\<lparr>chans := (chans s)(Jobs := (chans s Jobs)\<lparr>buf := vs\<rparr>),
            gors := (gors s)(GWorker i \<mapsto> worker_send i v)\<rparr> \<Longrightarrow>
     pool_tr s s'"
| w_end:
    "gors s (GWorker i) = Some (worker_range i) \<Longrightarrow> buf (chans s Jobs) = [] \<Longrightarrow>
     closed (chans s Jobs) \<Longrightarrow>
     s' = s\<lparr>gors := (gors s)(GWorker i \<mapsto> worker_done i)\<rparr> \<Longrightarrow>
     pool_tr s s'"
| w_send:
    "gors s (GWorker i) = Some (worker_send i job) \<Longrightarrow> \<not> closed (chans s Results) \<Longrightarrow>
     length (buf (chans s Results)) < cap (chans s Results) \<Longrightarrow>
     s' = s\<lparr>chans := (chans s)(Results := (chans s Results)
                \<lparr>buf := buf (chans s Results) @ [job * 2],
                 sent := sent (chans s Results) @ [(GWorker i, job * 2)]\<rparr>),
            gors := (gors s)(GWorker i \<mapsto> worker_range i)\<rparr> \<Longrightarrow>
     pool_tr s s'"
| w_done:
    "gors s (GWorker i) = Some (worker_done i) \<Longrightarrow> wg s \<noteq> 0 \<Longrightarrow>
     s' = s\<lparr>wg := wg s - 1, gors := (gors s)(GWorker i \<mapsto> Exited)\<rparr> \<Longrightarrow>
     pool_tr s s'"

text \<open>The steps the pool still has to take.\<close>

fun pool_main_mu :: "gor option \<Rightarrow> nat" where
  "pool_main_mu (Some (pool_add i W J)) = 4 * (Suc W - i) + 5 * J + 4"
| "pool_main_mu (Some (pool_go i W J)) = 4 * (Suc W - i) + 5 * J + 3"
| "pool_main_mu (Some (pool_send j J)) = 5 * (Suc J - j) + 4"
| "pool_main_mu (Some pool_close_jobs) = 4"
| "pool_main_mu (Some pool_wait) = 3"
| "pool_main_mu (Some pool_close_results) = 2"
| "pool_main_mu (Some (consume_range c)) = 1"
| "pool_main_mu (Some (consume_print c v)) = 2"
| "pool_main_mu _ = 0"

fun worker_mu :: "gor option \<Rightarrow> nat" where
  "worker_mu (Some (worker_range i)) = 2"
| "worker_mu (Some (worker_send i job)) = 5"
| "worker_mu (Some (worker_done i)) = 1"
| "worker_mu _ = 0"

definition pool_mu :: "nat \<Rightarrow> state \<Rightarrow> nat" where
  "pool_mu W s =
     pool_main_mu (gors s GMain) + 4 * length (buf (chans s Jobs)) +
     2 * length (buf (chans s Results)) + (\<Sum>i<Suc W. worker_mu (gors s (GWorker i)))"

text \<open>
  A schedule of the pool with one job and one worker: main starts the worker, sends the
  job and closes \<open>jobs\<close>; the worker takes the job, sends the result, sees the end of
  \<open>jobs\<close> and reports done; main's wait returns, it closes \<open>results\<close>, takes the result
  and prints it.
\<close>

definition one_job_schedule :: "label list" where
  "one_job_schedule =
     [Solo GMain, Solo GMain, Solo GMain, Solo GMain,
      Solo (GWorker (Suc 0)), Solo (GWorker (Suc 0)), Solo (GWorker (Suc 0)), Solo (GWorker (Suc 0)),
      Solo GMain, Solo GMain, Solo GMain, Solo GMain, Solo GMain]"

section \<open>The fan-out, fan-in program\<close>

subsection \<open>Invariants of the fan-out, fan-in program\<close>

text \<open>
  Round-robin dealing: what lane \<open>k\<close> of \<open>N\<close> gets of the items \<open>xs\<close>, when the first
  of them has number \<open>i\<close> and item number \<open>j\<close> goes to lane \<open>j mod N\<close>.
\<close>

fun deal :: "nat \<Rightarrow> nat \<Rightarrow> nat \<Rightarrow> 'a list \<Rightarrow> 'a list" where
  "deal N k i [] = []"
| "deal N k i (x # xs) =
     (if i mod N = k then x # deal N k (Suc i) xs else deal N k (Suc i) xs)"

text \<open>How far main has come, read from its control state.\<close>

fun fan_gen_started :: "gor option \<Rightarrow> bool" where
  "fan_gen_started (Some (fan_main nums N)) = False"
| "fan_gen_started _ = True"

fun stages_started :: "nat \<Rightarrow> gor option \<Rightarrow> nat" where
  "stages_started N (Some (fan_main nums N')) = 0"
| "stages_started N (Some (fan_worker i N')) = i"
| "stages_started N _ = N"

fun dist_started :: "gor option \<Rightarrow> bool" where
  "dist_started (Some (fan_main nums N)) = False"
| "dist_started (Some (fan_worker i N)) = False"
| "dist_started (Some (fan_dist N)) = False"
| "dist_started _ = True"

fun fan_main_ok :: "goint list \<Rightarrow> nat \<Rightarrow> goint list \<Rightarrow> chan \<Rightarrow> gor \<Rightarrow> bool" where
  "fan_main_ok nums N pr ch (fan_main nums' N') =
     (nums' = nums \<and> N' = N \<and> pr = [] \<and> sent ch = [])"
| "fan_main_ok nums N pr ch (fan_worker i N') = (N' = N \<and> i < N \<and> pr = [] \<and> sent ch = [])"
| "fan_main_ok nums N pr ch (fan_dist N') = (N' = N \<and> pr = [] \<and> sent ch = [])"
| "fan_main_ok nums N pr ch (fanIn_add j c cs) =
     (j < N \<and> c = WOut j \<and> cs = map WOut [Suc j..<N] \<and> pr = [] \<and> sent ch = [])"
| "fan_main_ok nums N pr ch (fanIn_go j c cs) =
     (j < N \<and> c = WOut j \<and> cs = map WOut [Suc j..<N] \<and> pr = [] \<and> sent ch = [])"
| "fan_main_ok nums N pr ch fanIn_closer = (pr = [] \<and> sent ch = [])"
| "fan_main_ok nums N pr ch (consume_range c) = (c = Merged \<and> pr = vals ch)"
| "fan_main_ok nums N pr ch (consume_print c v) = (c = Merged \<and> vals ch = pr @ [v])"
| "fan_main_ok nums N pr ch Exited = (pr = vals ch \<and> closed ch)"
| "fan_main_ok nums N pr ch _ = False"

text \<open>The distributor: \<open>i\<close> counts the items it has passed on.\<close>

fun dist_ok :: "nat \<Rightarrow> chan \<Rightarrow> gor \<Rightarrow> bool" where
  "dist_ok N inp (dist_range N' i) = (N' = N \<and> i = length (vals inp))"
| "dist_ok N inp (dist_send N' i n) = (N' = N \<and> Suc i = length (vals inp))"
| "dist_ok N inp (dist_close N' j) = (N' = N \<and> j < N \<and> closed inp)"
| "dist_ok N inp Exited = closed inp"
| "dist_ok N inp _ = False"

text \<open>
  Lane \<open>k\<close> and the distributor: the lane has carried its share of what the distributor
  has received, but for the item the distributor holds; the lanes are closed in turn.
\<close>

fun lane_ok :: "nat \<Rightarrow> nat \<Rightarrow> chan \<Rightarrow> chan \<Rightarrow> gor option \<Rightarrow> bool" where
  "lane_ok N k inp ln None = (sent ln = [] \<and> \<not> closed ln)"
| "lane_ok N k inp ln (Some (dist_range N' i)) =
     (vals ln = deal N k 0 (vals inp) \<and> \<not> closed ln)"
| "lane_ok N k inp ln (Some (dist_send N' i n)) =
     (vals ln @ (if i mod N = k then [n] else []) = deal N k 0 (vals inp) \<and> \<not> closed ln)"
| "lane_ok N k inp ln (Some (dist_close N' j)) =
     (vals ln = deal N k 0 (vals inp) \<and> (closed ln \<longleftrightarrow> k < j))"
| "lane_ok N k inp ln (Some Exited) =
     (vals ln = deal N k 0 (vals inp) \<and> (closed ln \<longleftrightarrow> k < N))"
| "lane_ok N k inp ln _ = False"

fun fan_stage_ok :: "nat \<Rightarrow> chan \<Rightarrow> chan \<Rightarrow> gor \<Rightarrow> bool" where
  "fan_stage_ok k a b (stage_range f ca cb) =
     (f = fan_square \<and> ca = Lane k \<and> cb = WOut k \<and>
      vals b = map (stage_expr fan_square) (vals a) \<and> \<not> closed b)"
| "fan_stage_ok k a b (stage_send f ca cb n) =
     (f = fan_square \<and> ca = Lane k \<and> cb = WOut k \<and>
      map (stage_expr fan_square) (vals a) = vals b @ [stage_expr fan_square n] \<and> \<not> closed b)"
| "fan_stage_ok k a b (stage_close f ca cb) =
     (f = fan_square \<and> ca = Lane k \<and> cb = WOut k \<and>
      vals b = map (stage_expr fan_square) (vals a) \<and> closed a \<and> \<not> closed b)"
| "fan_stage_ok k a b Exited =
     (vals b = map (stage_expr fan_square) (vals a) \<and> closed a \<and> closed b)"
| "fan_stage_ok k a b _ = False"

definition fan_base :: "nat \<Rightarrow> state \<Rightarrow> bool" where
  "fan_base N s =
     (0 < N \<and> crashed s = None \<and> (\<forall>c. buf (chans s c) = [] \<and> cap (chans s c) = 0) \<and>
      (\<forall>k. gors s (GGen (Suc k)) = None) \<and> (\<forall>k. gors s (GWorker k) = None))"

definition fan_main_inv :: "goint list \<Rightarrow> nat \<Rightarrow> state \<Rightarrow> bool" where
  "fan_main_inv nums N s =
     (case gors s GMain of
        None \<Rightarrow> False
      | Some m \<Rightarrow> fan_main_ok nums N (printed s) (chans s Merged) m)"

definition fan_gen_inv :: "goint list \<Rightarrow> state \<Rightarrow> bool" where
  "fan_gen_inv nums s =
     (case gors s (GGen 0) of
        None \<Rightarrow> \<not> fan_gen_started (gors s GMain) \<and> sent (chans s Input) = [] \<and>
                \<not> closed (chans s Input)
      | Some st \<Rightarrow> fan_gen_started (gors s GMain) \<and> merge_gen_ok nums Input (chans s Input) st)"

definition fan_dist_inv :: "nat \<Rightarrow> state \<Rightarrow> bool" where
  "fan_dist_inv N s =
     (case gors s GDist of
        None \<Rightarrow> \<not> dist_started (gors s GMain) \<and> sent (chans s Input) = []
      | Some st \<Rightarrow> dist_started (gors s GMain) \<and> dist_ok N (chans s Input) st)"

definition fan_lane_inv :: "nat \<Rightarrow> state \<Rightarrow> nat \<Rightarrow> bool" where
  "fan_lane_inv N s k = lane_ok N k (chans s Input) (chans s (Lane k)) (gors s GDist)"

definition fan_stage_inv :: "nat \<Rightarrow> state \<Rightarrow> nat \<Rightarrow> bool" where
  "fan_stage_inv N s k =
     (case gors s (GStage k) of
        None \<Rightarrow> \<not> k < stages_started N (gors s GMain) \<and> sent (chans s (WOut k)) = [] \<and>
                \<not> closed (chans s (WOut k))
      | Some st \<Rightarrow> k < stages_started N (gors s GMain) \<and>
                   fan_stage_ok k (chans s (Lane k)) (chans s (WOut k)) st)"

definition fan_chan_inv :: "state \<Rightarrow> nat \<Rightarrow> bool" where
  "fan_chan_inv s k =
     ((\<forall>p \<in> set (sent (chans s (Lane k))). fst p = GDist) \<and>
      closers (chans s (Lane k)) = (if closed (chans s (Lane k)) then [GDist] else []) \<and>
      (\<forall>p \<in> set (sent (chans s (WOut k))). fst p = GStage k) \<and>
      closers (chans s (WOut k)) = (if closed (chans s (WOut k)) then [GStage k] else []) \<and>
      (\<forall>p \<in> set (sent (chans s Input)). fst p = GGen 0) \<and>
      closers (chans s Input) = (if closed (chans s Input) then [GGen 0] else []))"

definition fan_inv :: "goint list \<Rightarrow> nat \<Rightarrow> state \<Rightarrow> bool" where
  "fan_inv nums N s =
     (fan_base N s \<and> fan_main_inv nums N s \<and> fan_gen_inv nums s \<and> fan_dist_inv N s \<and>
      (\<forall>k. fan_lane_inv N s k) \<and> (\<forall>k. fan_stage_inv N s k) \<and> (\<forall>k. fin_fwd WOut N s k) \<and>
      fin_wg N s \<and> fin_closer s \<and> fin_senders N s \<and> (\<forall>k. fan_chan_inv s k))"

inductive fan_tr :: "state \<Rightarrow> state \<Rightarrow> bool" where
  f_gen:
    "gors s GMain = Some (fan_main nums N) \<Longrightarrow> gors s (GGen 0) = None \<Longrightarrow>
     s' = s\<lparr>gors := (gors s)(GGen 0 \<mapsto> generator_loop nums Input,
                            GMain \<mapsto> fan_workers 0 N)\<rparr> \<Longrightarrow>
     fan_tr s s'"
| f_worker:
    "gors s GMain = Some (fan_worker i N) \<Longrightarrow> gors s (GStage i) = None \<Longrightarrow>
     s' = s\<lparr>gors := (gors s)(GStage i \<mapsto> stage_range fan_square (Lane i) (WOut i),
                            GMain \<mapsto> fan_workers (Suc i) N)\<rparr> \<Longrightarrow>
     fan_tr s s'"
| f_dist:
    "gors s GMain = Some (fan_dist N) \<Longrightarrow> gors s GDist = None \<Longrightarrow>
     s' = s\<lparr>gors := (gors s)(GDist \<mapsto> dist_range N 0,
                            GMain \<mapsto> fanIn 0 (map WOut [0..<N]))\<rparr> \<Longrightarrow>
     fan_tr s s'"
| f_add:
    "gors s GMain = Some (fanIn_add j c cs) \<Longrightarrow>
     s' = s\<lparr>wg := Suc (wg s), gors := (gors s)(GMain \<mapsto> fanIn_go j c cs)\<rparr> \<Longrightarrow>
     fan_tr s s'"
| f_go:
    "gors s GMain = Some (fanIn_go j c cs) \<Longrightarrow> gors s (GFwd j) = None \<Longrightarrow>
     s' = s\<lparr>gors := (gors s)(GFwd j \<mapsto> fwd_range c, GMain \<mapsto> fanIn (Suc j) cs)\<rparr> \<Longrightarrow>
     fan_tr s s'"
| f_closer:
    "gors s GMain = Some fanIn_closer \<Longrightarrow> gors s GCloser = None \<Longrightarrow>
     s' = s\<lparr>gors := (gors s)(GCloser \<mapsto> closer_wait, GMain \<mapsto> consume_range Merged)\<rparr> \<Longrightarrow>
     fan_tr s s'"
| f_gen_to_dist:
    "gors s (GGen 0) = Some (generator_loop (v # rest) Input) \<Longrightarrow>
     gors s GDist = Some (dist_range N i) \<Longrightarrow>
     \<not> closed (chans s Input) \<Longrightarrow>
     s' = s\<lparr>chans := (chans s)(Input := (chans s Input)
                \<lparr>sent := sent (chans s Input) @ [(GGen 0, v)]\<rparr>),
            gors := (gors s)(GGen 0 \<mapsto> generator_loop rest Input,
                            GDist \<mapsto> dist_send N i v)\<rparr> \<Longrightarrow>
     fan_tr s s'"
| f_gen_close:
    "gors s (GGen 0) = Some (generator_loop [] Input) \<Longrightarrow>
     \<not> closed (chans s Input) \<Longrightarrow>
     s' = s\<lparr>chans := (chans s)(Input := (chans s Input)
                \<lparr>closed := True, closers := closers (chans s Input) @ [GGen 0]\<rparr>),
            gors := (gors s)(GGen 0 \<mapsto> Exited)\<rparr> \<Longrightarrow>
     fan_tr s s'"
| f_dist_end:
    "gors s GDist = Some (dist_range N i) \<Longrightarrow> closed (chans s Input) \<Longrightarrow>
     s' = s\<lparr>gors := (gors s)(GDist \<mapsto> dist_close_next N 0)\<rparr> \<Longrightarrow>
     fan_tr s s'"
| f_dist_to_stage:
    "gors s GDist = Some (dist_send N i n) \<Longrightarrow> 0 < N \<Longrightarrow>
     gors s (GStage (i mod N)) = Some (stage_range f (Lane (i mod N)) b) \<Longrightarrow>
     \<not> closed (chans s (Lane (i mod N))) \<Longrightarrow>
     s' = s\<lparr>chans := (chans s)(Lane (i mod N) := (chans s (Lane (i mod N)))
                \<lparr>sent := sent (chans s (Lane (i mod N))) @ [(GDist, n)]\<rparr>),
            gors := (gors s)(GDist \<mapsto> dist_range N (Suc i),
                            GStage (i mod N) \<mapsto> stage_send f (Lane (i mod N)) b n)\<rparr> \<Longrightarrow>
     fan_tr s s'"
| f_dist_close:
    "gors s GDist = Some (dist_close N j) \<Longrightarrow> \<not> closed (chans s (Lane j)) \<Longrightarrow>
     s' = s\<lparr>chans := (chans s)(Lane j := (chans s (Lane j))
                \<lparr>closed := True, closers := closers (chans s (Lane j)) @ [GDist]\<rparr>),
            gors := (gors s)(GDist \<mapsto> dist_close_next N (Suc j))\<rparr> \<Longrightarrow>
     fan_tr s s'"
| f_stage_end:
    "gors s (GStage k) = Some (stage_range f a b) \<Longrightarrow> closed (chans s a) \<Longrightarrow>
     s' = s\<lparr>gors := (gors s)(GStage k \<mapsto> stage_close f a b)\<rparr> \<Longrightarrow>
     fan_tr s s'"
| f_stage_close:
    "gors s (GStage k) = Some (stage_close f a (WOut k)) \<Longrightarrow> \<not> closed (chans s (WOut k)) \<Longrightarrow>
     s' = s\<lparr>chans := (chans s)(WOut k := (chans s (WOut k))
                \<lparr>closed := True, closers := closers (chans s (WOut k)) @ [GStage k]\<rparr>),
            gors := (gors s)(GStage k \<mapsto> Exited)\<rparr> \<Longrightarrow>
     fan_tr s s'"
| f_stage_to_fwd:
    "gors s (GStage k) = Some (stage_send f a (WOut k) n) \<Longrightarrow>
     gors s (GFwd k) = Some (fwd_range (WOut k)) \<Longrightarrow>
     \<not> closed (chans s (WOut k)) \<Longrightarrow>
     s' = s\<lparr>chans := (chans s)(WOut k := (chans s (WOut k))
                \<lparr>sent := sent (chans s (WOut k)) @ [(GStage k, stage_expr f n)]\<rparr>),
            gors := (gors s)(GStage k \<mapsto> stage_range f a (WOut k),
                            GFwd k \<mapsto> fwd_send (WOut k) (stage_expr f n))\<rparr> \<Longrightarrow>
     fan_tr s s'"
| f_fwd_end:
    "gors s (GFwd k) = Some (fwd_range c) \<Longrightarrow> closed (chans s c) \<Longrightarrow>
     s' = s\<lparr>gors := (gors s)(GFwd k \<mapsto> fwd_done)\<rparr> \<Longrightarrow>
     fan_tr s s'"
| f_fwd_done:
    "gors s (GFwd k) = Some fwd_done \<Longrightarrow> wg s \<noteq> 0 \<Longrightarrow>
     s' = s\<lparr>wg := wg s - 1, gors := (gors s)(GFwd k \<mapsto> Exited)\<rparr> \<Longrightarrow>
     fan_tr s s'"
| f_fwd_to_main:
    "gors s (GFwd k) = Some (fwd_send c v) \<Longrightarrow>
     gors s GMain = Some (consume_range Merged) \<Longrightarrow>
     \<not> closed (chans s Merged) \<Longrightarrow>
     s' = s\<lparr>chans := (chans s)(Merged := (chans s Merged)
                \<lparr>sent := sent (chans s Merged) @ [(GFwd k, v)]\<rparr>),
            gors := (gors s)(GFwd k \<mapsto> fwd_range c, GMain \<mapsto> consume_print Merged v)\<rparr> \<Longrightarrow>
     fan_tr s s'"
| f_wait:
    "gors s GCloser = Some closer_wait \<Longrightarrow> wg s = 0 \<Longrightarrow>
     s' = s\<lparr>gors := (gors s)(GCloser \<mapsto> closer_close)\<rparr> \<Longrightarrow>
     fan_tr s s'"
| f_close:
    "gors s GCloser = Some closer_close \<Longrightarrow> \<not> closed (chans s Merged) \<Longrightarrow>
     s' = s\<lparr>chans := (chans s)(Merged := (chans s Merged)
                \<lparr>closed := True, closers := closers (chans s Merged) @ [GCloser]\<rparr>),
            gors := (gors s)(GCloser \<mapsto> Exited)\<rparr> \<Longrightarrow>
     fan_tr s s'"
| f_main_end:
    "gors s GMain = Some (consume_range c) \<Longrightarrow> closed (chans s c) \<Longrightarrow>
     s' = s\<lparr>gors := (gors s)(GMain \<mapsto> Exited)\<rparr> \<Longrightarrow>
     fan_tr s s'"
| f_main_print:
    "gors s GMain = Some (consume_print c v) \<Longrightarrow>
     s' = s\<lparr>printed := printed s @ [v], gors := (gors s)(GMain \<mapsto> consume_range c)\<rparr> \<Longrightarrow>
     fan_tr s s'"

text \<open>The steps the fan-out, fan-in program still has to take.\<close>

fun fan_main_mu :: "nat \<Rightarrow> gor option \<Rightarrow> nat" where
  "fan_main_mu N (Some (fan_main nums N')) = 5 * length nums + 8 * N + 8"
| "fan_main_mu N (Some (fan_worker i N')) = 3 * (N - i) + 5 * N + 6"
| "fan_main_mu N (Some (fan_dist N')) = 5 * N + 6"
| "fan_main_mu N (Some (fanIn_add j c cs)) = 4 * Suc (length cs) + 4"
| "fan_main_mu N (Some (fanIn_go j c cs)) = 4 * Suc (length cs) + 3"
| "fan_main_mu N (Some fanIn_closer) = 4"
| "fan_main_mu N (Some (consume_range c)) = 1"
| "fan_main_mu N (Some (consume_print c v)) = 2"
| "fan_main_mu N _ = 0"

fun fan_gen_mu :: "gor option \<Rightarrow> nat" where
  "fan_gen_mu (Some (generator_loop rest c)) = 5 * length rest + 1"
| "fan_gen_mu _ = 0"

fun dist_mu :: "gor option \<Rightarrow> nat" where
  "dist_mu (Some (dist_range N i)) = N + 1"
| "dist_mu (Some (dist_send N i n)) = N + 5"
| "dist_mu (Some (dist_close N j)) = N - j"
| "dist_mu _ = 0"

fun stage_mu :: "gor option \<Rightarrow> nat" where
  "stage_mu (Some (stage_range f a b)) = 2"
| "stage_mu (Some (stage_send f a b n)) = 5"
| "stage_mu (Some (stage_close f a b)) = 1"
| "stage_mu _ = 0"

definition fan_mu :: "nat \<Rightarrow> state \<Rightarrow> nat" where
  "fan_mu N s =
     fan_main_mu N (gors s GMain) + fan_gen_mu (gors s (GGen 0)) + dist_mu (gors s GDist) +
     (\<Sum>k<N. stage_mu (gors s (GStage k))) + (\<Sum>k<N. fwd_mu (gors s (GFwd k))) +
     closer_mu (gors s GCloser)"

text \<open>
  A schedule of the fan-out, fan-in program on three numbers and two lanes, run to the
  end: main starts everything; each number in turn passes from the generator to the
  distributor, to the worker of its lane, to the forwarder of that lane and to main, which
  prints it; then each goroutine sees the end of its input and closes its output.
\<close>

definition two_lanes_schedule :: "label list" where
  "two_lanes_schedule =
     [Solo GMain, Solo GMain, Solo GMain, Solo GMain, Solo GMain, Solo GMain, Solo GMain,
      Solo GMain, Solo GMain,
      Sync (GGen 0) GDist, Sync GDist (GStage 0), Sync (GStage 0) (GFwd 0),
      Sync (GFwd 0) GMain, Solo GMain,
      Sync (GGen 0) GDist, Sync GDist (GStage 1), Sync (GStage 1) (GFwd 1),
      Sync (GFwd 1) GMain, Solo GMain,
      Sync (GGen 0) GDist, Sync GDist (GStage 0), Sync (GStage 0) (GFwd 0),
      Sync (GFwd 0) GMain, Solo GMain,
      Solo (GGen 0), Solo GDist, Solo GDist, Solo GDist,
      Solo (GStage 0), Solo (GStage 0), Solo (GStage 1), Solo (GStage 1),
      Solo (GFwd 0), Solo (GFwd 0), Solo (GFwd 1), Solo (GFwd 1),
      Solo GCloser, Solo GCloser, Solo GMain]"

section \<open>Programs with a width of zero\<close>

text \<open>
  Schedules of the programs with a width of zero. In the pool with five jobs and no
  worker only main runs: five sends, the two closes around the wait, and the end of the
  \<open>range\<close>. In the fan-out program with no lane main starts the generator and the
  distributor; in the first schedule the distributor takes the first number and does
  \<^verbatim>\<open>i%numWorkers\<close>, in the second main goes through \<open>fanIn\<close> and returns first.
\<close>

definition no_worker_schedule :: "label list" where
  "no_worker_schedule =
     [Solo GMain, Solo GMain, Solo GMain, Solo GMain, Solo GMain,
      Solo GMain, Solo GMain, Solo GMain, Solo GMain]"

definition zero_lanes_built_schedule :: "label list" where
  "zero_lanes_built_schedule = [Solo GMain, Solo GMain]"

definition zero_lanes_panic_schedule :: "label list" where
  "zero_lanes_panic_schedule = [Solo GMain, Solo GMain, Sync (GGen 0) GDist, Solo GDist]"

definition zero_lanes_quiet_schedule :: "label list" where
  "zero_lanes_quiet_schedule =
     [Solo GMain, Solo GMain, Solo GMain, Solo GCloser, Solo GCloser, Solo GMain]"


section \<open>Proofs\<close>

lemma step_alive:
  assumes "step s l = Some s'"
  shows "crashed s = None" and "gors s GMain \<noteq> Some Exited"
  using assms by (auto simp: step_def split: option.splits gor.splits)

lemma step_cases [consumes 1, case_names send send_closed recv recv_closed close close_closed
    wg_add wg_done wg_neg wg_wait spawn println failure sync]:
  assumes "step s l = Some s'"
  obtains
    (send) g st c v k where "l = Solo g" "gors s g = Some st" "instr st = (Snd c v, k)"
      "\<not> closed (chans s c)" "length (buf (chans s c)) < cap (chans s c)"
      "s' = s\<lparr>chans := (chans s)(c := (chans s c)\<lparr>buf := buf (chans s c) @ [v],
                 sent := sent (chans s c) @ [(g, v)]\<rparr>),
              gors := (gors s)(g \<mapsto> k None)\<rparr>"
  | (send_closed) g st c v k where "l = Solo g" "gors s g = Some st" "instr st = (Snd c v, k)"
      "closed (chans s c)" "s' = s\<lparr>crashed := Some (g, SendOnClosed c)\<rparr>"
  | (recv) g st c k v vs where "l = Solo g" "gors s g = Some st" "instr st = (Rcv c, k)"
      "buf (chans s c) = v # vs"
      "s' = s\<lparr>chans := (chans s)(c := (chans s c)\<lparr>buf := vs\<rparr>),
              gors := (gors s)(g \<mapsto> k (Some v))\<rparr>"
  | (recv_closed) g st c k where "l = Solo g" "gors s g = Some st" "instr st = (Rcv c, k)"
      "buf (chans s c) = []" "closed (chans s c)"
      "s' = s\<lparr>gors := (gors s)(g \<mapsto> k None)\<rparr>"
  | (close) g st c k where "l = Solo g" "gors s g = Some st" "instr st = (Cls c, k)"
      "\<not> closed (chans s c)"
      "s' = s\<lparr>chans := (chans s)(c := (chans s c)\<lparr>closed := True,
                 closers := closers (chans s c) @ [g]\<rparr>),
              gors := (gors s)(g \<mapsto> k None)\<rparr>"
  | (close_closed) g st c k where "l = Solo g" "gors s g = Some st" "instr st = (Cls c, k)"
      "closed (chans s c)"
      "s' = s\<lparr>chans := (chans s)(c := (chans s c)\<lparr>closers := closers (chans s c) @ [g]\<rparr>),
              crashed := Some (g, CloseOfClosed c)\<rparr>"
  | (wg_add) g st k where "l = Solo g" "gors s g = Some st" "instr st = (WgAdd, k)"
      "s' = s\<lparr>wg := Suc (wg s), gors := (gors s)(g \<mapsto> k None)\<rparr>"
  | (wg_done) g st k where "l = Solo g" "gors s g = Some st" "instr st = (WgDone, k)"
      "wg s \<noteq> 0" "s' = s\<lparr>wg := wg s - 1, gors := (gors s)(g \<mapsto> k None)\<rparr>"
  | (wg_neg) g st k where "l = Solo g" "gors s g = Some st" "instr st = (WgDone, k)"
      "wg s = 0" "s' = s\<lparr>crashed := Some (g, NegativeCounter)\<rparr>"
  | (wg_wait) g st k where "l = Solo g" "gors s g = Some st" "instr st = (WgWait, k)"
      "wg s = 0" "s' = s\<lparr>gors := (gors s)(g \<mapsto> k None)\<rparr>"
  | (spawn) g st g' st' k where "l = Solo g" "gors s g = Some st" "instr st = (Go g' st', k)"
      "gors s g' = None" "s' = s\<lparr>gors := (gors s)(g' \<mapsto> st', g \<mapsto> k None)\<rparr>"
  | (println) g st v k where "l = Solo g" "gors s g = Some st" "instr st = (Print v, k)"
      "s' = s\<lparr>printed := printed s @ [v], gors := (gors s)(g \<mapsto> k None)\<rparr>"
  | (failure) g st f k where "l = Solo g" "gors s g = Some st" "instr st = (Fail f, k)"
      "s' = s\<lparr>crashed := Some (g, f)\<rparr>"
  | (sync) g h sg sh c v kg kh where "l = Sync g h" "gors s g = Some sg" "gors s h = Some sh"
      "instr sg = (Snd c v, kg)" "instr sh = (Rcv c, kh)" "g \<noteq> h"
      "cap (chans s c) = 0" "\<not> closed (chans s c)"
      "s' = s\<lparr>chans := (chans s)(c := (chans s c)\<lparr>sent := sent (chans s c) @ [(g, v)]\<rparr>),
              gors := (gors s)(g \<mapsto> kg None, h \<mapsto> kh (Some v))\<rparr>"
proof (cases l)
  case (Solo g)
  with assms obtain st where st: "gors s g = Some st" "solo g st s = Some s'"
    by (auto simp: step_def split: option.splits gor.splits)
  obtain a k where ak: "instr st = (a, k)" by (cases "instr st")
  show ?thesis
  proof (cases a)
    case (Snd c v)
    with st ak Solo show ?thesis
      by (cases "closed (chans s c)")
         (auto simp: solo_def Let_def proceed_def panic_def set_chan_def
               intro: send send_closed split: if_splits)
  next
    case (Rcv c)
    with st ak Solo show ?thesis
      by (cases "buf (chans s c)")
         (auto simp: solo_def Let_def proceed_def panic_def set_chan_def
               intro: recv recv_closed split: if_splits)
  next
    case (Cls c)
    with st ak Solo show ?thesis
      by (cases "closed (chans s c)")
         (auto simp: solo_def Let_def proceed_def panic_def set_chan_def
               intro: close close_closed)
  next
    case WgAdd
    with st ak Solo show ?thesis
      by (auto simp: solo_def proceed_def intro: wg_add)
  next
    case WgDone
    with st ak Solo show ?thesis
      by (cases "wg s = 0") (auto simp: solo_def proceed_def panic_def intro: wg_done wg_neg)
  next
    case WgWait
    with st ak Solo show ?thesis
      by (cases "wg s = 0") (auto simp: solo_def proceed_def intro: wg_wait)
  next
    case (Go g' st')
    with st ak Solo show ?thesis
      by (cases "gors s g'") (auto simp: solo_def proceed_def intro: spawn)
  next
    case (Print v)
    with st ak Solo show ?thesis
      by (auto simp: solo_def proceed_def intro: println)
  next
    case (Fail f)
    with st ak Solo show ?thesis
      by (auto simp: solo_def panic_def intro: failure)
  next
    case Halt
    with st ak show ?thesis by (simp add: solo_def)
  qed
next
  case (Sync g h)
  with assms obtain sg sh where st: "gors s g = Some sg" "gors s h = Some sh"
      "sync g sg h sh s = Some s'"
    by (auto simp: step_def split: option.splits gor.splits)
  obtain a kg where ak: "instr sg = (a, kg)" by (cases "instr sg")
  obtain b kh where bk: "instr sh = (b, kh)" by (cases "instr sh")
  from st(3) ak bk obtain c v where a: "a = Snd c v" and b: "b = Rcv c" and
    ok: "g \<noteq> h" "cap (chans s c) = 0" "\<not> closed (chans s c)"
    by (auto simp: sync_def Let_def split: act.splits if_splits)
  with st ak bk Sync show ?thesis
    by (auto simp: sync_def Let_def proceed_def set_chan_def intro: sync)
qed

lemma exec_append: "exec (ls @ ms) s = (case exec ls s of None \<Rightarrow> None | Some t \<Rightarrow> exec ms t)"
  by (induction ls arbitrary: s) (auto split: option.splits)

lemma exec_invariant:
  assumes "exec ls s0 = Some s" and "I s0" and "\<And>s l s'. I s \<Longrightarrow> step s l = Some s' \<Longrightarrow> I s'"
  shows "I s"
  using assms(1,2)
proof (induction ls arbitrary: s0)
  case Nil
  then show ?case by simp
next
  case (Cons l ls)
  then show ?case by (auto split: option.splits dest: assms(3))
qed

lemma instr_generate:
  "instr (generate_loop xs c) =
     (case xs of [] \<Rightarrow> (Cls c, \<lambda>_. Exited) | n # nums \<Rightarrow> (Snd c n, \<lambda>_. generate_loop nums c))"
  by (cases xs) simp_all

lemma instr_generator:
  "instr (generator_loop xs c) =
     (case xs of [] \<Rightarrow> (Cls c, \<lambda>_. Exited) | n # nums \<Rightarrow> (Snd c n, \<lambda>_. generator_loop nums c))"
  by (cases xs) simp_all

lemma vals_simps [simp]:
  "vals (ch\<lparr>sent := sent ch @ [(g, v)]\<rparr>) = vals ch @ [v]"
  "vals (ch\<lparr>closed := b\<rparr>) = vals ch"
  "vals (ch\<lparr>closers := cs\<rparr>) = vals ch"
  "vals (ch\<lparr>buf := bs\<rparr>) = vals ch"
  "vals (new_chan n) = []"
  by (simp_all add: vals_def new_chan_def)

lemma vals_Nil: "sent ch = [] \<Longrightarrow> vals ch = []"
  by (simp add: vals_def)

lemma stuck_iff: "stuck s \<longleftrightarrow> \<not> (\<exists>l s'. step s l = Some s')"
  by (auto simp: stuck_def)

lemma not_alive_stuck: "\<not> alive s \<Longrightarrow> stuck s"
  by (auto simp: alive_def stuck_def step_def split: option.splits gor.splits)

lemma can_close:
  assumes "alive s" "gors s g = Some st" "instr st = (Cls c, k)"
  shows "\<exists>l s'. step s l = Some s'"
  using assms
  by (intro exI[of _ "Solo g"])
     (auto simp: alive_def step_def solo_def Let_def split: option.splits gor.splits)

lemma can_recv_closed:
  assumes "alive s" "gors s g = Some st" "instr st = (Rcv c, k)" "closed (chans s c)"
  shows "\<exists>l s'. step s l = Some s'"
  using assms
  by (intro exI[of _ "Solo g"])
     (auto simp: alive_def step_def solo_def Let_def split: option.splits gor.splits list.splits)

lemma can_recv_buf:
  assumes "alive s" "gors s g = Some st" "instr st = (Rcv c, k)" "buf (chans s c) \<noteq> []"
  shows "\<exists>l s'. step s l = Some s'"
  using assms
  by (intro exI[of _ "Solo g"])
     (auto simp: alive_def step_def solo_def Let_def split: option.splits gor.splits list.splits)

lemma can_send_buf:
  assumes "alive s" "gors s g = Some st" "instr st = (Snd c v, k)"
    "length (buf (chans s c)) < cap (chans s c)"
  shows "\<exists>l s'. step s l = Some s'"
  using assms
  by (intro exI[of _ "Solo g"])
     (auto simp: alive_def step_def solo_def Let_def split: option.splits gor.splits)

lemma can_sync:
  assumes "alive s" "gors s g = Some sg" "instr sg = (Snd c v, kg)"
    "gors s h = Some sh" "instr sh = (Rcv c, kh)" "g \<noteq> h" "cap (chans s c) = 0"
  shows "\<exists>l s'. step s l = Some s'"
proof (cases "closed (chans s c)")
  case True
  with assms show ?thesis
    by (intro exI[of _ "Solo g"])
       (auto simp: alive_def step_def solo_def Let_def split: option.splits gor.splits)
next
  case False
  with assms show ?thesis
    by (intro exI[of _ "Sync g h"])
       (auto simp: alive_def step_def sync_def Let_def split: option.splits gor.splits)
qed

lemma can_go:
  assumes "alive s" "gors s g = Some st" "instr st = (Go g' st', k)" "gors s g' = None"
  shows "\<exists>l s'. step s l = Some s'"
  using assms
  by (intro exI[of _ "Solo g"])
     (auto simp: alive_def step_def solo_def Let_def split: option.splits gor.splits)

lemma can_print:
  assumes "alive s" "gors s g = Some st" "instr st = (Print v, k)"
  shows "\<exists>l s'. step s l = Some s'"
  using assms
  by (intro exI[of _ "Solo g"])
     (auto simp: alive_def step_def solo_def Let_def split: option.splits gor.splits)

lemma can_add:
  assumes "alive s" "gors s g = Some st" "instr st = (WgAdd, k)"
  shows "\<exists>l s'. step s l = Some s'"
  using assms
  by (intro exI[of _ "Solo g"])
     (auto simp: alive_def step_def solo_def Let_def split: option.splits gor.splits)

lemma can_done:
  assumes "alive s" "gors s g = Some st" "instr st = (WgDone, k)"
  shows "\<exists>l s'. step s l = Some s'"
  using assms
  by (intro exI[of _ "Solo g"])
     (auto simp: alive_def step_def solo_def Let_def split: option.splits gor.splits)

lemma can_wait:
  assumes "alive s" "gors s g = Some st" "instr st = (WgWait, k)" "wg s = 0"
  shows "\<exists>l s'. step s l = Some s'"
  using assms
  by (intro exI[of _ "Solo g"])
     (auto simp: alive_def step_def solo_def Let_def split: option.splits gor.splits)

lemma can_fail:
  assumes "alive s" "gors s g = Some st" "instr st = (Fail f, k)"
  shows "\<exists>l s'. step s l = Some s'"
  using assms
  by (intro exI[of _ "Solo g"])
     (auto simp: alive_def step_def solo_def Let_def split: option.splits gor.splits)

text \<open>Sums over the goroutines of a family, when one or two of them move.\<close>

lemma sum_upd1:
  fixes h :: "nat \<Rightarrow> nat"
  assumes "i < N"
  shows "(\<Sum>j<N. if j = i then a else h j) + h i = (\<Sum>j<N. h j) + a"
proof -
  have fin: "finite {..<N}" and mem: "i \<in> {..<N}" using assms by simp_all
  have "(\<Sum>j<N. if j = i then a else h j) = a + (\<Sum>j\<in>{..<N} - {i}. if j = i then a else h j)"
    using sum.remove[OF fin mem, of "\<lambda>j. if j = i then a else h j"] by simp
  also have "(\<Sum>j\<in>{..<N} - {i}. if j = i then a else h j) = (\<Sum>j\<in>{..<N} - {i}. h j)"
    by (rule sum.cong) auto
  finally have 1: "(\<Sum>j<N. if j = i then a else h j) = a + (\<Sum>j\<in>{..<N} - {i}. h j)" .
  have 2: "(\<Sum>j<N. h j) = h i + (\<Sum>j\<in>{..<N} - {i}. h j)"
    using sum.remove[OF fin mem, of h] by simp
  from 1 2 show ?thesis by simp
qed

lemma sum_upd1_app:
  fixes F :: "nat \<Rightarrow> 'a \<Rightarrow> nat"
  assumes "i < N"
  shows "(\<Sum>j<N. F j (if j = i then a else g j)) + F i (g i) = (\<Sum>j<N. F j (g j)) + F i a"
proof -
  have "(\<Sum>j<N. F j (if j = i then a else g j)) = (\<Sum>j<N. if j = i then F i a else F j (g j))"
    by (rule sum.cong) auto
  with sum_upd1[OF assms, of "F i a" "\<lambda>j. F j (g j)"] show ?thesis by simp
qed

lemma sum_upd2_app:
  fixes F :: "nat \<Rightarrow> 'a \<Rightarrow> nat"
  assumes "i < N" "k < N" "i \<noteq> k"
  shows "(\<Sum>j<N. F j (if j = i then a else if j = k then b else g j)) + F i (g i) + F k (g k) =
         (\<Sum>j<N. F j (g j)) + F i a + F k b"
proof -
  let ?g' = "\<lambda>j. if j = k then b else g j"
  have "(\<Sum>j<N. F j (if j = i then a else if j = k then b else g j)) + F i (?g' i) =
        (\<Sum>j<N. F j (?g' j)) + F i a"
    using sum_upd1_app[OF assms(1), of F a ?g'] by simp
  moreover have "(\<Sum>j<N. F j (?g' j)) + F k (g k) = (\<Sum>j<N. F j (g j)) + F k b"
    using sum_upd1_app[OF assms(2), of F b g] by simp
  ultimately show ?thesis using assms(3) by simp
qed

lemma sum_member_le:
  fixes F :: "nat \<Rightarrow> 'a \<Rightarrow> nat"
  assumes "i < N"
  shows "F i (g i) \<le> (\<Sum>j<N. F j (g j))"
  using sum_upd1_app[OF assms, of F "g i" g] member_le_sum[of i "{..<N}" "\<lambda>j. F j (g j)"] assms
  by simp

lemma sum_member2_le:
  fixes F :: "nat \<Rightarrow> 'a \<Rightarrow> nat"
  assumes "i < N" "k < N" "i \<noteq> k"
  shows "F i (g i) + F k (g k) \<le> (\<Sum>j<N. F j (g j))"
proof -
  have "(\<Sum>j\<in>{i, k}. F j (g j)) \<le> (\<Sum>j<N. F j (g j))"
    by (rule sum_mono2) (use assms in auto)
  with assms(3) show ?thesis by simp
qed

lemma sum_upd1_eq:
  fixes F :: "nat \<Rightarrow> 'a \<Rightarrow> nat"
  assumes "i < N"
  shows "(\<Sum>j<N. F j (if j = i then a else g j)) = (\<Sum>j<N. F j (g j)) - F i (g i) + F i a"
  using sum_upd1_app[OF assms, of F a g] sum_member_le[OF assms, of F g] by simp

lemma sum_upd2_eq:
  fixes F :: "nat \<Rightarrow> 'a \<Rightarrow> nat"
  assumes "i < N" "k < N" "i \<noteq> k"
  shows "(\<Sum>j<N. F j (if j = i then a else if j = k then b else g j)) =
         (\<Sum>j<N. F j (g j)) - (F i (g i) + F k (g k)) + F i a + F k b"
  using sum_upd2_app[OF assms, of F a b g] sum_member2_le[OF assms, of F g] by simp

lemma pipe_invD:
  assumes "pipe_inv nums fs s"
  shows "pipe_base s" "pipe_main_inv nums fs s" "pipe_gen_inv nums fs s"
    "pipe_stage_inv fs s i" "pipe_chan_inv s i"
  using assms by (simp_all add: pipe_inv_def)

lemma pipe_main_okD:
  "pipe_main_ok nums fs pr ch m \<Longrightarrow>
     m = pipe_main nums fs \<or> (\<exists>i. i < length fs \<and> m = pipe_stage i (fs ! i) (drop (Suc i) fs)) \<or>
     m = consume_range (Link (length fs)) \<or> (\<exists>v. m = consume_print (Link (length fs)) v) \<or>
     m = Exited"
  by (cases m) auto

lemma pipe_gen_okD:
  "pipe_gen_ok nums ch st \<Longrightarrow>
     (\<exists>rest. st = generate_loop rest (Link 0) \<and> \<not> closed ch) \<or> st = Exited"
  by (cases st) auto

lemma pipe_stage_okD:
  "pipe_stage_ok f i a b st \<Longrightarrow>
     (st = stage_range f (Link i) (Link (Suc i)) \<and> \<not> closed b) \<or>
     (\<exists>n. st = stage_send f (Link i) (Link (Suc i)) n \<and> \<not> closed b) \<or>
     (st = stage_close f (Link i) (Link (Suc i)) \<and> \<not> closed b) \<or> st = Exited"
  by (cases st) auto

lemma pipe_who_cases [consumes 2, case_names main_gen main_stage main_range main_print main_exit
    gen gen_exit st_range st_send st_close st_exit]:
  assumes "pipe_inv nums fs s" "gors s g = Some st"
  obtains
    (main_gen) "g = GMain" "st = pipe_main nums fs"
  | (main_stage) i where "g = GMain" "i < length fs" "st = pipe_stage i (fs ! i) (drop (Suc i) fs)"
  | (main_range) "g = GMain" "st = consume_range (Link (length fs))"
  | (main_print) v where "g = GMain" "st = consume_print (Link (length fs)) v"
  | (main_exit) "g = GMain" "st = Exited"
  | (gen) rest where "g = GGen 0" "st = generate_loop rest (Link 0)"
      "\<not> closed (chans s (Link 0))"
  | (gen_exit) "g = GGen 0" "st = Exited"
  | (st_range) i where "g = GStage i" "st = stage_range (fs ! i) (Link i) (Link (Suc i))"
      "\<not> closed (chans s (Link (Suc i)))"
  | (st_send) i n where "g = GStage i" "st = stage_send (fs ! i) (Link i) (Link (Suc i)) n"
      "\<not> closed (chans s (Link (Suc i)))"
  | (st_close) i where "g = GStage i" "st = stage_close (fs ! i) (Link i) (Link (Suc i))"
      "\<not> closed (chans s (Link (Suc i)))"
  | (st_exit) i where "g = GStage i" "st = Exited"
proof (cases g)
  case GMain
  with assms pipe_invD(2)[OF assms(1)]
  have "pipe_main_ok nums fs (printed s) (chans s (Link (length fs))) st"
    by (simp add: pipe_main_inv_def)
  from pipe_main_okD[OF this] GMain show ?thesis
    using main_gen main_stage main_range main_print main_exit by blast
next
  case (GGen k)
  with assms pipe_invD(1,3)[OF assms(1)] have "k = 0" "pipe_gen_ok nums (chans s (Link 0)) st"
    by (cases k; simp add: pipe_gen_inv_def pipe_base_def)+
  from pipe_gen_okD[OF this(2)] GGen this(1) show ?thesis
    using gen gen_exit by blast
next
  case (GStage i)
  with assms pipe_invD(4)[OF assms(1), of i]
  have "pipe_stage_ok (fs ! i) i (chans s (Link i)) (chans s (Link (Suc i))) st"
    by (simp add: pipe_stage_inv_def)
  from pipe_stage_okD[OF this] GStage show ?thesis
    using st_range st_send st_close st_exit by blast
qed (use assms pipe_invD(1)[OF assms(1)] in \<open>auto simp: pipe_base_def\<close>)

lemma pipe_unbuffered: "pipe_inv nums fs s \<Longrightarrow> cap (chans s c) = 0 \<and> buf (chans s c) = []"
  by (simp add: pipe_inv_def pipe_base_def)

lemma pipe_step_tr:
  assumes inv: "pipe_inv nums fs s" and st: "step s l = Some s'"
  shows "pipe_tr nums fs s s'"
  using st
proof (cases rule: step_cases)
  case (send g st c v k)
  with pipe_unbuffered[OF inv, of c] show ?thesis by simp
next
  case (send_closed g st c v k)
  from inv send_closed(2) show ?thesis
    by (cases rule: pipe_who_cases) (use send_closed in \<open>auto simp: instr_generate split: list.splits\<close>)
next
  case (recv g st c k v vs)
  with pipe_unbuffered[OF inv, of c] show ?thesis by simp
next
  case (recv_closed g st c k)
  from inv recv_closed(2) show ?thesis
    by (cases rule: pipe_who_cases)
       (use recv_closed in \<open>auto simp: instr_generate split: list.splits intro: pipe_tr.intros\<close>)
next
  case (close g st c k)
  from inv close(2) show ?thesis
    by (cases rule: pipe_who_cases)
       (use close in \<open>auto simp: instr_generate split: list.splits intro: pipe_tr.intros\<close>)
next
  case (close_closed g st c k)
  from inv close_closed(2) show ?thesis
    by (cases rule: pipe_who_cases) (use close_closed in \<open>auto simp: instr_generate split: list.splits\<close>)
next
  case (wg_add g st k)
  from inv wg_add(2) show ?thesis
    by (cases rule: pipe_who_cases) (use wg_add in \<open>auto simp: instr_generate split: list.splits\<close>)
next
  case (wg_done g st k)
  from inv wg_done(2) show ?thesis
    by (cases rule: pipe_who_cases) (use wg_done in \<open>auto simp: instr_generate split: list.splits\<close>)
next
  case (wg_neg g st k)
  from inv wg_neg(2) show ?thesis
    by (cases rule: pipe_who_cases) (use wg_neg in \<open>auto simp: instr_generate split: list.splits\<close>)
next
  case (wg_wait g st k)
  from inv wg_wait(2) show ?thesis
    by (cases rule: pipe_who_cases) (use wg_wait in \<open>auto simp: instr_generate split: list.splits\<close>)
next
  case (spawn g st g' st' k)
  from inv spawn(2) show ?thesis
    by (cases rule: pipe_who_cases)
       (use spawn in \<open>auto simp: instr_generate split: list.splits intro: pipe_tr.intros\<close>)
next
  case (println g st v k)
  from inv println(2) show ?thesis
    by (cases rule: pipe_who_cases)
       (use println in \<open>auto simp: instr_generate split: list.splits intro: pipe_tr.intros\<close>)
next
  case (failure g st f k)
  from inv failure(2) show ?thesis
    by (cases rule: pipe_who_cases) (use failure in \<open>auto simp: instr_generate split: list.splits\<close>)
next
  case (sync g h sg sh c v kg kh)
  from inv sync(2) show ?thesis
  proof (cases rule: pipe_who_cases)
    case (gen rest)
    from inv sync(3) show ?thesis
      by (cases rule: pipe_who_cases)
         (use sync gen in \<open>auto simp: instr_generate split: list.splits intro: pipe_tr.intros\<close>)
  next
    case (st_send i n)
    from inv sync(3) show ?thesis
      by (cases rule: pipe_who_cases)
         (use sync st_send in \<open>auto simp: instr_generate split: list.splits intro: pipe_tr.intros\<close>)
  qed (use sync in \<open>auto simp: instr_generate split: list.splits\<close>)
qed

lemmas pipe_inv_defs = pipe_base_def pipe_main_inv_def pipe_gen_inv_def pipe_stage_inv_def
  pipe_chan_inv_def

lemma pipe_inv_init: "pipe_inv nums fs (pipeline nums fs)"
  by (simp add: pipe_inv_def pipe_inv_defs pipeline_def boot_def new_chan_def)

lemma pipe_tr_base:
  assumes inv: "pipe_inv nums fs s" and tr: "pipe_tr nums fs s s'"
  shows "pipe_base s'"
  using tr pipe_invD(1)[OF inv]
  by (cases rule: pipe_tr.cases) (auto simp: vals_Nil pipe_base_def)

lemma pipe_tr_chan:
  assumes inv: "pipe_inv nums fs s" and tr: "pipe_tr nums fs s s'"
  shows "pipe_chan_inv s' j"
  using tr pipe_invD(5)[OF inv, of j]
  by (cases rule: pipe_tr.cases) (auto simp: vals_Nil pipe_chan_inv_def)

lemma drop_next: "i < length fs \<Longrightarrow> drop i fs = fs ! i # drop (Suc i) fs"
  by (simp add: Cons_nth_drop_Suc)

lemma pipe_next_eq:
  "pipe_next i (drop i fs) =
     (if i < length fs then pipe_stage i (fs ! i) (drop (Suc i) fs) else consume_range (Link i))"
  by (auto simp: vals_Nil pipe_next_def drop_next split: list.splits)

lemma pipe_next_Nil: "pipe_next i [] = consume_range (Link i)"
  by (simp add: pipe_next_def)

lemma pipe_next_0:
  "pipe_next 0 fs =
     (if 0 < length fs then pipe_stage 0 (fs ! 0) (drop (Suc 0) fs) else consume_range (Link 0))"
  using pipe_next_eq[of 0 fs] by simp

lemma pipe_started_le:
  assumes "pipe_inv nums fs s"
  shows "started_of (length fs) (gors s GMain) \<le> Suc (length fs)"
  using pipe_invD(2)[OF assms]
  by (auto simp: vals_Nil pipe_main_inv_def split: option.splits dest!: pipe_main_okD)

lemma pipe_stage_lt:
  assumes "pipe_inv nums fs s" "gors s (GStage i) = Some st"
  shows "i < length fs"
  using pipe_invD(4)[OF assms(1), of i] pipe_started_le[OF assms(1)] assms(2)
  by (simp add: pipe_stage_inv_def)

lemma pipe_main_ok_mono:
  "pipe_main_ok nums fs pr ch m \<Longrightarrow> vals ch' = vals ch \<Longrightarrow> (closed ch \<longrightarrow> closed ch') \<Longrightarrow>
   pipe_main_ok nums fs pr ch' m"
  by (cases m) auto

lemma pipe_tr_main:
  assumes inv: "pipe_inv nums fs s" and tr: "pipe_tr nums fs s s'"
  shows "pipe_main_inv nums fs s'"
  using tr
proof (cases rule: pipe_tr.cases)
  case start_gen
  with pipe_invD(2,3)[OF inv] show ?thesis
    by (auto simp: vals_Nil pipe_main_inv_def pipe_gen_inv_def pipe_next_0)
next
  case (start_stage i f rest)
  with pipe_invD(2)[OF inv] pipe_invD(4)[OF inv, of i] show ?thesis
    by (cases "Suc i = length fs")
       (auto simp: vals_Nil pipe_main_inv_def pipe_stage_inv_def pipe_next_eq pipe_next_Nil)
next
  case (stage_to_main i f a n)
  with pipe_invD(2)[OF inv] pipe_invD(4)[OF inv, of i] show ?thesis
    by (auto simp: vals_Nil pipe_main_inv_def pipe_stage_inv_def)
next
  case (gen_to_main v rest)
  with pipe_invD(2,3)[OF inv] show ?thesis
    by (auto simp: vals_Nil pipe_main_inv_def pipe_gen_inv_def)
next
  case (main_end c)
  with pipe_invD(2)[OF inv] show ?thesis
    by (auto simp: vals_Nil pipe_main_inv_def)
next
  case (main_print c v)
  with pipe_invD(2)[OF inv] show ?thesis
    by (auto simp: vals_Nil pipe_main_inv_def)
next
  case (gen_to_stage v rest f b)
  with pipe_invD(2)[OF inv] pipe_stage_lt[OF inv, of 0] show ?thesis
    by (auto simp: vals_Nil pipe_main_inv_def pipe_stage_inv_def split: option.splits)
next
  case (stage_to_stage i f a n f' b')
  with pipe_invD(2)[OF inv] pipe_stage_lt[OF inv, of "Suc i"] show ?thesis
    by (auto simp: vals_Nil pipe_main_inv_def pipe_stage_inv_def split: option.splits)
next
  case gen_close
  with pipe_invD(2)[OF inv] pipe_invD(3)[OF inv] show ?thesis
    by (auto simp: vals_Nil pipe_main_inv_def pipe_gen_inv_def split: option.splits
        elim!: pipe_main_ok_mono)
next
  case (stage_end i f b)
  with pipe_invD(2)[OF inv] show ?thesis
    by (auto simp: vals_Nil pipe_main_inv_def split: option.splits)
next
  case (stage_close i f a)
  with pipe_invD(2)[OF inv] pipe_invD(4)[OF inv, of i] show ?thesis
    by (auto simp: vals_Nil pipe_main_inv_def pipe_stage_inv_def split: option.splits
         elim!: pipe_main_ok_mono)
qed

lemma pipe_gen_ok_mono:
  "pipe_gen_ok nums ch st \<Longrightarrow> vals ch' = vals ch \<Longrightarrow> closed ch' = closed ch \<Longrightarrow>
   pipe_gen_ok nums ch' st"
  by (cases st) auto

lemma pipe_tr_gen:
  assumes inv: "pipe_inv nums fs s" and tr: "pipe_tr nums fs s s'"
  shows "pipe_gen_inv nums fs s'"
  using tr
proof (cases rule: pipe_tr.cases)
  case start_gen
  with pipe_invD(2,3)[OF inv] show ?thesis
    by (auto simp: vals_Nil pipe_main_inv_def pipe_gen_inv_def pipe_next_0)
next
  case (start_stage i f rest)
  with pipe_invD(2,3)[OF inv] pipe_invD(4)[OF inv, of i] show ?thesis
    by (cases "Suc i = length fs")
       (auto simp: vals_Nil pipe_main_inv_def pipe_gen_inv_def pipe_stage_inv_def pipe_next_eq
          pipe_next_Nil split: option.splits)
next
  case (stage_to_main i f a n)
  with pipe_invD(2,3)[OF inv] pipe_invD(4)[OF inv, of i] show ?thesis
    by (auto simp: vals_Nil pipe_main_inv_def pipe_gen_inv_def split: option.splits)
next
  case (gen_to_main v rest)
  with pipe_invD(2,3)[OF inv] show ?thesis
    by (auto simp: vals_Nil pipe_main_inv_def pipe_gen_inv_def)
next
  case (main_end c)
  with pipe_invD(2,3)[OF inv] show ?thesis
    by (auto simp: vals_Nil pipe_main_inv_def pipe_gen_inv_def split: option.splits)
next
  case (main_print c v)
  with pipe_invD(2,3)[OF inv] show ?thesis
    by (auto simp: vals_Nil pipe_main_inv_def pipe_gen_inv_def split: option.splits)
next
  case (gen_to_stage v rest f b)
  with pipe_invD(3)[OF inv] show ?thesis
    by (auto simp: vals_Nil pipe_gen_inv_def split: option.splits)
next
  case (stage_to_stage i f a n f' b')
  with pipe_invD(3)[OF inv] show ?thesis
    by (auto simp: vals_Nil pipe_gen_inv_def split: option.splits)
next
  case gen_close
  with pipe_invD(3)[OF inv] show ?thesis
    by (auto simp: vals_Nil pipe_gen_inv_def split: option.splits)
next
  case (stage_end i f b)
  with pipe_invD(3)[OF inv] show ?thesis
    by (auto simp: vals_Nil pipe_gen_inv_def split: option.splits)
next
  case (stage_close i f a)
  with pipe_invD(3)[OF inv] show ?thesis
    by (auto simp: vals_Nil pipe_gen_inv_def split: option.splits)
qed

lemma pipe_stage_ok_mono_in:
  "pipe_stage_ok f i a b st \<Longrightarrow> vals a' = vals a \<Longrightarrow> (closed a \<longrightarrow> closed a') \<Longrightarrow>
   pipe_stage_ok f i a' b st"
  by (cases st) auto

lemma pipe_tr_stage:
  assumes inv: "pipe_inv nums fs s" and tr: "pipe_tr nums fs s s'"
  shows "pipe_stage_inv fs s' j"
  using tr
proof (cases rule: pipe_tr.cases)
  case start_gen
  with pipe_invD(2,3)[OF inv] pipe_invD(4)[OF inv, of j] show ?thesis
    by (auto simp: vals_Nil pipe_main_inv_def pipe_gen_inv_def pipe_stage_inv_def pipe_next_0
        split: option.splits)
next
  case (start_stage i f rest)
  with pipe_invD(2)[OF inv] pipe_invD(4)[OF inv, of i] pipe_invD(4)[OF inv, of j]
    pipe_invD(4)[OF inv, of "i - 1"] pipe_invD(3)[OF inv]
  show ?thesis
    by (cases "Suc i = length fs"; cases i)
       (auto simp: vals_Nil pipe_main_inv_def pipe_stage_inv_def pipe_gen_inv_def pipe_next_eq
          pipe_next_Nil split: option.splits)
next
  case (stage_to_main i f a n)
  with pipe_invD(2)[OF inv] pipe_invD(4)[OF inv, of i] pipe_invD(4)[OF inv, of j] show ?thesis
    by (auto simp: vals_Nil pipe_main_inv_def pipe_stage_inv_def split: option.splits)
next
  case (gen_to_main v rest)
  with pipe_invD(2,3)[OF inv] pipe_invD(4)[OF inv, of j] show ?thesis
    by (auto simp: vals_Nil pipe_main_inv_def pipe_stage_inv_def split: option.splits)
next
  case (main_end c)
  with pipe_invD(2)[OF inv] pipe_invD(4)[OF inv, of j] show ?thesis
    by (auto simp: vals_Nil pipe_main_inv_def pipe_stage_inv_def split: option.splits)
next
  case (main_print c v)
  with pipe_invD(2)[OF inv] pipe_invD(4)[OF inv, of j] show ?thesis
    by (auto simp: vals_Nil pipe_main_inv_def pipe_stage_inv_def split: option.splits)
next
  case (gen_to_stage v rest f b)
  with pipe_invD(3)[OF inv]  pipe_invD(4)[OF inv, of j] pipe_invD(4)[OF inv, of 0] show ?thesis
    by (auto simp: vals_Nil pipe_gen_inv_def pipe_stage_inv_def split: option.splits)
next
  case (stage_to_stage i f a n f' b')
  with pipe_invD(4)[OF inv, of i] pipe_invD(4)[OF inv, of "Suc i"] pipe_invD(4)[OF inv, of j]
  show ?thesis
    by (auto simp: vals_Nil pipe_stage_inv_def split: option.splits)
next
  case gen_close
  with pipe_invD(3)[OF inv] pipe_invD(4)[OF inv, of j] show ?thesis
    by (auto simp: vals_Nil pipe_gen_inv_def pipe_stage_inv_def split: option.splits
        elim!: pipe_stage_ok_mono_in)
next
  case (stage_end i f b)
  with pipe_invD(4)[OF inv, of i] pipe_invD(4)[OF inv, of j] show ?thesis
    by (auto simp: vals_Nil pipe_stage_inv_def split: option.splits)
next
  case (stage_close i f a)
  with pipe_invD(4)[OF inv, of i] pipe_invD(4)[OF inv, of "Suc i"] pipe_invD(4)[OF inv, of j]
  show ?thesis
    by (auto simp: vals_Nil pipe_stage_inv_def split: option.splits elim!: pipe_stage_ok_mono_in)
qed

lemma pipe_tr_inv:
  assumes "pipe_inv nums fs s" "pipe_tr nums fs s s'"
  shows "pipe_inv nums fs s'"
  unfolding pipe_inv_def
  using pipe_tr_base[OF assms] pipe_tr_main[OF assms] pipe_tr_gen[OF assms]
    pipe_tr_stage[OF assms] pipe_tr_chan[OF assms]
  by blast

lemma pipe_step_inv:
  assumes "pipe_inv nums fs s" "step s l = Some s'"
  shows "pipe_inv nums fs s'"
  using assms pipe_step_tr pipe_tr_inv by blast

lemma pipe_reach:
  assumes "exec ls (pipeline nums fs) = Some s"
  shows "pipe_inv nums fs s"
  using assms pipe_inv_init pipe_step_inv by (rule exec_invariant)

text \<open>What the pipeline computes: stage after stage, each mapped over the whole sequence.\<close>

lemma pipe_closed_stage:
  assumes inv: "pipe_inv nums fs s" and i: "i < length fs" and c: "closed (chans s (Link (Suc i)))"
  shows "gors s (GStage i) = Some Exited"
proof -
  from pipe_invD(4)[OF inv, of i] c obtain st where st: "gors s (GStage i) = Some st"
    "pipe_stage_ok (fs ! i) i (chans s (Link i)) (chans s (Link (Suc i))) st"
    by (auto simp: pipe_stage_inv_def split: option.splits)
  from pipe_stage_okD[OF st(2)] c st(1) show ?thesis by auto
qed

lemma pipe_closed_gen:
  assumes inv: "pipe_inv nums fs s" and c: "closed (chans s (Link 0))"
  shows "gors s (GGen 0) = Some Exited"
proof -
  from pipe_invD(3)[OF inv] c obtain st where st: "gors s (GGen 0) = Some st"
    "pipe_gen_ok nums (chans s (Link 0)) st"
    by (auto simp: pipe_gen_inv_def split: option.splits)
  from pipe_gen_okD[OF st(2)] c st(1) show ?thesis by auto
qed

lemma pipe_fun_snoc: "pipe_fun (fs @ [f]) xs = map (stage_expr f) (pipe_fun fs xs)"
  by (simp add: pipe_fun_def)

lemma pipe_closed_complete:
  assumes inv: "pipe_inv nums fs s"
  shows "i \<le> length fs \<Longrightarrow> closed (chans s (Link i)) \<Longrightarrow>
     carried s (Link i) = pipe_fun (take i fs) nums \<and>
     (\<forall>j<i. gors s (GStage j) = Some Exited) \<and> gors s (GGen 0) = Some Exited"
proof (induction i)
  case 0
  from pipe_closed_gen[OF inv 0(2)] pipe_invD(3)[OF inv] show ?case
    by (simp add: pipe_gen_inv_def carried_def pipe_fun_def)
next
  case (Suc i)
  then have i: "i < length fs" by simp
  from pipe_closed_stage[OF inv i Suc(3)] pipe_invD(4)[OF inv, of i]
  have ex: "gors s (GStage i) = Some Exited" and
    v: "vals (chans s (Link (Suc i))) = map (stage_expr (fs ! i)) (vals (chans s (Link i)))" and
    c: "closed (chans s (Link i))"
    by (auto simp: pipe_stage_inv_def)
  from Suc.IH[OF _ c] i have ih: "carried s (Link i) = pipe_fun (take i fs) nums"
    "\<forall>j<i. gors s (GStage j) = Some Exited" "gors s (GGen 0) = Some Exited" by auto
  from i have "take (Suc i) fs = take i fs @ [fs ! i]" by (simp add: take_Suc_conv_app_nth)
  with v ih ex show ?case
    by (auto simp: carried_def pipe_fun_snoc less_Suc_eq)
qed

lemma prefix_snoc_eq: "xs @ [x] = ys \<Longrightarrow> \<exists>zs. ys = xs @ zs"
  by auto

lemma pipe_carried_prefix:
  assumes inv: "pipe_inv nums fs s"
  shows "i \<le> length fs \<Longrightarrow> \<exists>zs. pipe_fun (take i fs) nums = carried s (Link i) @ zs"
proof (induction i)
  case 0
  show ?case
  proof (cases "gors s (GGen 0)")
    case None
    with pipe_invD(3)[OF inv] show ?thesis
      by (simp add: pipe_gen_inv_def carried_def pipe_fun_def vals_Nil)
  next
    case (Some st)
    with pipe_invD(3)[OF inv] have ok: "pipe_gen_ok nums (chans s (Link 0)) st"
      by (simp add: pipe_gen_inv_def)
    from pipe_gen_okD[OF ok] ok show ?thesis
      by (auto simp: carried_def pipe_fun_def)
  qed
next
  case (Suc i)
  then have i: "i < length fs" by simp
  from Suc.IH i obtain zs where zs: "pipe_fun (take i fs) nums = carried s (Link i) @ zs" by auto
  from i have tk: "take (Suc i) fs = take i fs @ [fs ! i]" by (simp add: take_Suc_conv_app_nth)
  have "\<exists>ws. map (stage_expr (fs ! i)) (vals (chans s (Link i))) = vals (chans s (Link (Suc i))) @ ws"
  proof (cases "gors s (GStage i)")
    case None
    with pipe_invD(4)[OF inv, of i] show ?thesis by (simp add: pipe_stage_inv_def vals_Nil)
  next
    case (Some st)
    with pipe_invD(4)[OF inv, of i]
    have ok: "pipe_stage_ok (fs ! i) i (chans s (Link i)) (chans s (Link (Suc i))) st"
      by (simp add: pipe_stage_inv_def)
    from pipe_stage_okD[OF ok] ok show ?thesis by auto
  qed
  then obtain ws where
    "map (stage_expr (fs ! i)) (vals (chans s (Link i))) = vals (chans s (Link (Suc i))) @ ws" ..
  with zs tk show ?case
    by (simp add: pipe_fun_snoc carried_def)
qed

lemma pipe_printed_prefix:
  assumes inv: "pipe_inv nums fs s"
  shows "\<exists>zs. carried s (Link (length fs)) = printed s @ zs"
proof -
  from pipe_invD(2)[OF inv] obtain m where m: "gors s GMain = Some m"
    "pipe_main_ok nums fs (printed s) (chans s (Link (length fs))) m"
    by (auto simp: pipe_main_inv_def split: option.splits)
  from pipe_main_okD[OF m(2)] m(2) show ?thesis by (auto simp: carried_def)
qed

lemma pipe_finished:
  assumes inv: "pipe_inv nums fs s" and ex: "gors s GMain = Some Exited"
  shows "printed s = pipe_fun fs nums" "closed (chans s (Link (length fs)))"
    "carried s (Link (length fs)) = pipe_fun fs nums"
    "\<forall>j<length fs. gors s (GStage j) = Some Exited" "gors s (GGen 0) = Some Exited"
proof -
  from pipe_invD(2)[OF inv] ex have p: "printed s = carried s (Link (length fs))"
    and c: "closed (chans s (Link (length fs)))"
    by (simp_all add: pipe_main_inv_def carried_def)
  from pipe_closed_complete[OF inv le_refl c] p c
  show "printed s = pipe_fun fs nums" "closed (chans s (Link (length fs)))"
    "carried s (Link (length fs)) = pipe_fun fs nums"
    "\<forall>j<length fs. gors s (GStage j) = Some Exited" "gors s (GGen 0) = Some Exited"
    by simp_all
qed

lemma pipe_gen_started:
  assumes inv: "pipe_inv nums fs s" and "0 < started_of (length fs) (gors s GMain)"
  obtains st where "gors s (GGen 0) = Some st" "pipe_gen_ok nums (chans s (Link 0)) st"
  using pipe_invD(3)[OF inv] assms(2)
  by (auto simp: pipe_gen_inv_def split: option.splits)

lemma pipe_stage_started:
  assumes inv: "pipe_inv nums fs s" and "Suc i < started_of (length fs) (gors s GMain)"
  obtains st where "gors s (GStage i) = Some st"
    "pipe_stage_ok (fs ! i) i (chans s (Link i)) (chans s (Link (Suc i))) st"
  using pipe_invD(4)[OF inv, of i] assms(2)
  by (auto simp: pipe_stage_inv_def split: option.splits)

lemma pipe_chain:
  assumes inv: "pipe_inv nums fs s" and al: "alive s"
    and run: "started_of (length fs) (gors s GMain) = Suc (length fs)"
  shows "i \<le> length fs \<Longrightarrow> gors s h = Some sh \<Longrightarrow> instr sh = (Rcv (Link i), kh) \<Longrightarrow>
         (\<forall>j. h \<noteq> GStage j \<or> i \<le> j) \<Longrightarrow> h \<noteq> GGen 0 \<Longrightarrow> \<exists>l s'. step s l = Some s'"
proof (induction i arbitrary: h sh kh)
  case 0
  from run obtain st where st: "gors s (GGen 0) = Some st" "pipe_gen_ok nums (chans s (Link 0)) st"
    by (auto intro: pipe_gen_started[OF inv])
  from pipe_gen_okD[OF st(2)] show ?case
  proof (elim disjE exE conjE)
    fix rest assume r: "st = generate_loop rest (Link 0)"
    show ?thesis
    proof (cases rest)
      case Nil
      with r st show ?thesis by (auto intro: can_close[OF al])
    next
      case (Cons v vs)
      with r st 0 pipe_unbuffered[OF inv, of "Link 0"] show ?thesis
        by (auto intro!: can_sync[OF al st(1) _ 0(2,3)])
    qed
  next
    assume "st = Exited"
    with st have "closed (chans s (Link 0))" by simp
    with 0 show ?thesis by (auto intro: can_recv_closed[OF al])
  qed
next
  case (Suc i)
  then have "Suc i < started_of (length fs) (gors s GMain)" using run by simp
  then obtain st where st: "gors s (GStage i) = Some st"
    "pipe_stage_ok (fs ! i) i (chans s (Link i)) (chans s (Link (Suc i))) st"
    by (auto intro: pipe_stage_started[OF inv])
  from Suc.prems(4) have ne: "GStage i \<noteq> h" by auto
  from pipe_stage_okD[OF st(2)] show ?case
  proof (elim disjE exE conjE)
    assume "st = stage_range (fs ! i) (Link i) (Link (Suc i))"
    with st(1) Suc.prems(1) show ?thesis
      by (intro Suc.IH[of "GStage i"]) auto
  next
    fix n assume "st = stage_send (fs ! i) (Link i) (Link (Suc i)) n"
    with st(1) Suc.prems ne pipe_unbuffered[OF inv, of "Link (Suc i)"] show ?thesis
      by (auto intro!: can_sync[OF al st(1) _ Suc.prems(2,3)])
  next
    assume "st = stage_close (fs ! i) (Link i) (Link (Suc i))"
    with st(1) show ?thesis by (auto intro: can_close[OF al])
  next
    assume "st = Exited"
    with st have "closed (chans s (Link (Suc i)))" by simp
    with Suc.prems show ?thesis by (auto intro: can_recv_closed[OF al])
  qed
qed

lemma pipe_progress:
  assumes inv: "pipe_inv nums fs s" and al: "alive s"
  shows "\<exists>l s'. step s l = Some s'"
proof -
  from pipe_invD(2)[OF inv] obtain m where m: "gors s GMain = Some m"
    by (auto simp: pipe_main_inv_def split: option.splits)
  from inv m show ?thesis
  proof (cases rule: pipe_who_cases)
    case main_gen
    with pipe_invD(3)[OF inv] m have "gors s (GGen 0) = None"
      by (auto simp: pipe_gen_inv_def split: option.splits)
    with m main_gen show ?thesis by (auto intro: can_go[OF al])
  next
    case (main_stage i)
    with pipe_invD(4)[OF inv, of i] m have "gors s (GStage i) = None"
      by (auto simp: pipe_stage_inv_def split: option.splits)
    with m main_stage show ?thesis by (auto intro: can_go[OF al])
  next
    case main_range
    with m show ?thesis
      by (intro pipe_chain[OF inv al, of "length fs" GMain]) auto
  next
    case (main_print v)
    with m show ?thesis by (auto intro: can_print[OF al])
  next
    case main_exit
    with m al show ?thesis by (simp add: alive_def)
  qed auto
qed

lemmas pipe_sum_upd1 = sum_upd1_eq[where F = "pipe_stage_mu M" for M]

lemmas pipe_sum_upd2 = sum_upd2_eq[where F = "pipe_stage_mu M" for M]

lemma pipe_tr_mu:
  assumes inv: "pipe_inv nums fs s" and tr: "pipe_tr nums fs s s'"
  shows "Suc (pipe_mu (length fs) s') = pipe_mu (length fs) s"
  using tr
proof (cases rule: pipe_tr.cases)
  case start_gen
  with pipe_invD(1)[OF inv] show ?thesis
    by (auto simp: pipe_mu_def pipe_next_0)
next
  case (start_stage i f rest)
  with pipe_invD(2)[OF inv] have i: "i < length fs" "rest = drop (Suc i) fs" "f = fs ! i"
    by (auto simp: pipe_main_inv_def)
  from start_stage i sum_member_le[OF i(1), of "pipe_stage_mu (length fs)" "\<lambda>j. gors s (GStage j)"]
  show ?thesis
    by (cases "Suc i = length fs")
       (auto simp: pipe_mu_def pipe_next_eq pipe_next_Nil pipe_sum_upd1)
next
  case (gen_to_stage v rest f b)
  from pipe_stage_lt[OF inv gen_to_stage(2)] have i: "0 < length fs" .
  from gen_to_stage i sum_member_le[OF i, of "pipe_stage_mu (length fs)" "\<lambda>j. gors s (GStage j)"]
  show ?thesis
    by (auto simp: pipe_mu_def pipe_sum_upd1)
next
  case (gen_to_main v rest)
  with pipe_invD(2)[OF inv] show ?thesis
    by (auto simp: pipe_mu_def pipe_main_inv_def)
next
  case (stage_to_stage i f a n f' b')
  from pipe_stage_lt[OF inv stage_to_stage(2)] have i: "Suc i < length fs" "i < length fs"
    "Suc i \<noteq> i" by simp_all
  from stage_to_stage i
    sum_member2_le[OF i, of "pipe_stage_mu (length fs)" "\<lambda>j. gors s (GStage j)"]
  show ?thesis
    by (auto simp: pipe_mu_def pipe_sum_upd1)
next
  case (stage_to_main i f a n)
  from pipe_stage_lt[OF inv stage_to_main(1)] have i: "i < length fs" .
  from stage_to_main pipe_invD(2)[OF inv] have "Suc i = length fs"
    by (auto simp: pipe_main_inv_def)
  with stage_to_main i
    sum_member_le[OF i, of "pipe_stage_mu (length fs)" "\<lambda>j. gors s (GStage j)"]
  show ?thesis
    by (auto simp: pipe_mu_def pipe_sum_upd1)
next
  case gen_close
  then show ?thesis by (auto simp: pipe_mu_def)
next
  case (stage_end i f b)
  from pipe_stage_lt[OF inv stage_end(1)] have i: "i < length fs" .
  from stage_end i sum_member_le[OF i, of "pipe_stage_mu (length fs)" "\<lambda>j. gors s (GStage j)"]
  show ?thesis
    by (auto simp: pipe_mu_def pipe_sum_upd1)
next
  case (stage_close i f a)
  from pipe_stage_lt[OF inv stage_close(1)] have i: "i < length fs" .
  from stage_close i sum_member_le[OF i, of "pipe_stage_mu (length fs)" "\<lambda>j. gors s (GStage j)"]
  show ?thesis
    by (auto simp: pipe_mu_def pipe_sum_upd1)
next
  case (main_end c)
  with pipe_invD(2)[OF inv] show ?thesis
    by (auto simp: pipe_mu_def pipe_main_inv_def)
next
  case (main_print c v)
  then show ?thesis by (auto simp: pipe_mu_def)
qed

lemma exec_count:
  assumes "exec ls s0 = Some s" and "I s0"
    and "\<And>s l s'. I s \<Longrightarrow> step s l = Some s' \<Longrightarrow> I s' \<and> Suc (m s') = m s"
  shows "length ls + m s = m s0"
  using assms(1,2)
proof (induction ls arbitrary: s0)
  case Nil
  then show ?case by simp
next
  case (Cons l ls)
  from Cons.prems obtain s1 where s1: "step s0 l = Some s1" "exec ls s1 = Some s"
    by (auto split: option.splits)
  from assms(3)[OF Cons.prems(2) s1(1)] have "I s1" "Suc (m s1) = m s0" by simp_all
  with Cons.IH[OF s1(2)] show ?case by simp
qed

lemma run_to_end:
  assumes stp: "\<And>s l s'. I s \<Longrightarrow> step s l = Some s' \<Longrightarrow> I s' \<and> Suc (m s') = m s"
    and prog: "\<And>s. I s \<Longrightarrow> alive s \<Longrightarrow> \<exists>l s'. step s l = Some s'"
  shows "I s \<Longrightarrow> \<exists>ls t. exec ls s = Some t \<and> \<not> alive t"
proof (induction "m s" arbitrary: s rule: less_induct)
  case less
  show ?case
  proof (cases "alive s")
    case False
    then have "exec [] s = Some s \<and> \<not> alive s" by simp
    then show ?thesis by blast
  next
    case True
    from prog[OF less.prems True] obtain l s' where s': "step s l = Some s'" by blast
    from stp[OF less.prems s'] have "I s'" "m s' < m s" by auto
    from less.hyps[OF this(2) this(1)] obtain ls t where "exec ls s' = Some t" "\<not> alive t"
      by blast
    with s' have "exec (l # ls) s = Some t \<and> \<not> alive t" by simp
    then show ?thesis by blast
  qed
qed

lemma pipe_step_mu:
  assumes "pipe_inv nums fs s" "step s l = Some s'"
  shows "pipe_inv nums fs s' \<and> Suc (pipe_mu (length fs) s') = pipe_mu (length fs) s"
  using pipe_step_inv[OF assms] pipe_tr_mu[OF assms(1) pipe_step_tr[OF assms]] by simp



lemma pipe_stuck_exited:
  assumes inv: "pipe_inv nums fs s" and st: "stuck s"
  shows "gors s GMain = Some Exited" "crashed s = None"
proof -
  from pipe_invD(1)[OF inv] show c: "crashed s = None" by (simp add: pipe_base_def)
  from pipe_progress[OF inv] st have "\<not> alive s" by (auto simp: stuck_def)
  with c show "gors s GMain = Some Exited" by (simp add: alive_def)
qed

lemma pipe_can_finish:
  assumes "exec ls (pipeline nums fs) = Some s"
  shows "\<exists>ms t. exec ms s = Some t \<and> stuck t"
proof -
  have "\<exists>ms t. exec ms s = Some t \<and> \<not> alive t"
  proof (rule run_to_end[where I = "pipe_inv nums fs" and m = "pipe_mu (length fs)"])
    show "pipe_inv nums fs s" by (rule pipe_reach[OF assms])
  qed (auto intro: pipe_progress dest: pipe_step_mu)
  with not_alive_stuck show ?thesis by blast
qed

lemma pipe_fun_single: "pipe_fun [f] xs = map (stage_expr f) xs"
  by (simp add: pipe_fun_def)

lemma merge_invD:
  assumes "merge_inv xss s"
  shows "merge_base s" "merge_main_inv xss s" "merge_gen_inv xss s k"
    "fin_fwd Src (length xss) s k" "fin_wg (length xss) s" "fin_closer s"
    "fin_senders (length xss) s" "src_chan_inv s k"
  using assms by (simp_all add: merge_inv_def)

lemma merge_main_okD:
  "merge_main_ok xss pr ch m \<Longrightarrow>
     (\<exists>k. k < length xss \<and> m = merge_gen k (xss ! k) (drop (Suc k) xss)) \<or>
     (\<exists>j. j < length xss \<and> m = fanIn_add j (Src j) (map Src [Suc j..<length xss])) \<or>
     (\<exists>j. j < length xss \<and> m = fanIn_go j (Src j) (map Src [Suc j..<length xss])) \<or>
     m = fanIn_closer \<or> m = consume_range Merged \<or> (\<exists>v. m = consume_print Merged v) \<or>
     m = Exited"
  by (cases m) auto

lemma merge_gen_okD:
  "merge_gen_ok xs c ch st \<Longrightarrow>
     (\<exists>rest. st = generator_loop rest c \<and> \<not> closed ch) \<or> (st = Exited \<and> closed ch)"
  by (cases st) auto

lemma fwd_okD:
  "fwd_ok c a out st \<Longrightarrow>
     st = fwd_range c \<or> (\<exists>v. st = fwd_send c v) \<or> st = fwd_done \<or> st = Exited"
  by (cases st) auto

lemma closer_okD:
  "closer_ok b w ch (Some st) \<Longrightarrow>
     (st = closer_wait \<and> \<not> closed ch) \<or> (st = closer_close \<and> \<not> closed ch \<and> w = 0) \<or>
     (st = Exited \<and> closed ch \<and> w = 0)"
  by (cases st) auto

text \<open>A forwarder that has not returned keeps the counter above zero.\<close>

lemma fwd_active_wg:
  assumes "fin_wg N s" "k < N" "fwd_active (gors s (GFwd k)) = 1"
  shows "wg s \<noteq> 0"
proof -
  have "fwd_active (gors s (GFwd k)) \<le> (\<Sum>j<N. fwd_active (gors s (GFwd j)))"
    using sum_member_le[OF assms(2), of "\<lambda>_. fwd_active" "\<lambda>j. gors s (GFwd j)"] by simp
  with assms have "0 < wg s" unfolding fin_wg_def by linarith
  then show ?thesis by simp
qed

lemma merge_fwd_lt:
  assumes "merge_inv xss s" "gors s (GFwd k) = Some st"
  shows "k < length xss"
proof -
  from merge_invD(2)[OF assms(1)] obtain m where m: "gors s GMain = Some m"
    "merge_main_ok xss (printed s) (chans s Merged) m"
    by (auto simp: merge_main_inv_def split: option.splits)
  from merge_main_okD[OF m(2)] m(1) have "fwds_started (length xss) (gors s GMain) \<le> length xss"
    by auto
  with merge_invD(4)[OF assms(1), of k] assms(2) show ?thesis
    by (simp add: fin_fwd_def)
qed

lemma merge_open_while_active:
  assumes inv: "merge_inv xss s" and "gors s (GFwd k) = Some st" "st \<noteq> Exited"
  shows "\<not> closed (chans s Merged)" "wg s \<noteq> 0"
proof -
  from merge_invD(4)[OF inv, of k] assms(2)
  have ok: "fwd_ok (Src k) (chans s (Src k)) (proj (GFwd k) (sent (chans s Merged))) st"
    by (simp add: fin_fwd_def)
  from fwd_okD[OF ok] assms(2,3) have "fwd_active (gors s (GFwd k)) = 1" by auto
  from fwd_active_wg[OF merge_invD(5)[OF inv] merge_fwd_lt[OF inv assms(2)] this]
  show w: "wg s \<noteq> 0" .
  from merge_invD(6)[OF inv] w show "\<not> closed (chans s Merged)"
    by (cases "gors s GCloser") (auto simp: fin_closer_def dest!: closer_okD)
qed

lemma merge_who_cases [consumes 2, case_names main_gen main_add main_go main_closer main_range
    main_print main_exit gen gen_exit fwd_range fwd_send fwd_done fwd_exit
    closer_wait closer_close closer_exit]:
  assumes "merge_inv xss s" "gors s g = Some st"
  obtains
    (main_gen) k where "g = GMain" "k < length xss"
      "st = merge_gen k (xss ! k) (drop (Suc k) xss)"
  | (main_add) j where "g = GMain" "j < length xss"
      "st = fanIn_add j (Src j) (map Src [Suc j..<length xss])"
  | (main_go) j where "g = GMain" "j < length xss"
      "st = fanIn_go j (Src j) (map Src [Suc j..<length xss])"
  | (main_closer) "g = GMain" "st = fanIn_closer"
  | (main_range) "g = GMain" "st = consume_range Merged"
  | (main_print) v where "g = GMain" "st = consume_print Merged v"
  | (main_exit) "g = GMain" "st = Exited"
  | (gen) k rest where "g = GGen k" "st = generator_loop rest (Src k)"
      "\<not> closed (chans s (Src k))"
  | (gen_exit) k where "g = GGen k" "st = Exited"
  | (fwd_range) k where "g = GFwd k" "st = fwd_range (Src k)" "\<not> closed (chans s Merged)"
      "wg s \<noteq> 0"
  | (fwd_send) k v where "g = GFwd k" "st = fwd_send (Src k) v" "\<not> closed (chans s Merged)"
      "wg s \<noteq> 0"
  | (fwd_done) k where "g = GFwd k" "st = fwd_done" "\<not> closed (chans s Merged)" "wg s \<noteq> 0"
  | (fwd_exit) k where "g = GFwd k" "st = Exited"
  | (closer_wait) "g = GCloser" "st = closer_wait" "\<not> closed (chans s Merged)"
  | (closer_close) "g = GCloser" "st = closer_close" "\<not> closed (chans s Merged)"
  | (closer_exit) "g = GCloser" "st = Exited"
proof (cases g)
  case GMain
  with assms merge_invD(2)[OF assms(1)]
  have "merge_main_ok xss (printed s) (chans s Merged) st"
    by (simp add: merge_main_inv_def)
  from merge_main_okD[OF this] GMain show ?thesis
    using main_gen main_add main_go main_closer main_range main_print main_exit by blast
next
  case (GGen k)
  with assms merge_invD(3)[OF assms(1), of k]
  have "merge_gen_ok (xss ! k) (Src k) (chans s (Src k)) st"
    by (simp add: merge_gen_inv_def)
  from merge_gen_okD[OF this] GGen show ?thesis
    using gen gen_exit by blast
next
  case (GFwd k)
  with assms merge_invD(4)[OF assms(1), of k]
  have "fwd_ok (Src k) (chans s (Src k)) (proj (GFwd k) (sent (chans s Merged))) st"
    by (simp add: fin_fwd_def)
  from fwd_okD[OF this] GFwd merge_open_while_active[OF assms(1), of k st] assms(2)
  show ?thesis
    using fwd_range fwd_send fwd_done fwd_exit by blast
next
  case GCloser
  with assms merge_invD(6)[OF assms(1)]
  have "closer_ok (closer_started (gors s GMain)) (wg s) (chans s Merged) (Some st)"
    by (simp add: fin_closer_def)
  from closer_okD[OF this] GCloser show ?thesis
    using closer_wait closer_close closer_exit by blast
qed (use assms merge_invD(1)[OF assms(1)] in \<open>auto simp: merge_base_def\<close>)

lemma merge_unbuffered: "merge_inv xss s \<Longrightarrow> cap (chans s c) = 0 \<and> buf (chans s c) = []"
  by (simp add: merge_inv_def merge_base_def)

lemma merge_step_tr:
  assumes inv: "merge_inv xss s" and st: "step s l = Some s'"
  shows "merge_tr s s'"
  using st
proof (cases rule: step_cases)
  case (send g st c v k)
  with merge_unbuffered[OF inv, of c] show ?thesis by simp
next
  case (send_closed g st c v k)
  from inv send_closed(2) show ?thesis
    by (cases rule: merge_who_cases)
       (use send_closed in \<open>auto simp: instr_generator split: list.splits\<close>)
next
  case (recv g st c k v vs)
  with merge_unbuffered[OF inv, of c] show ?thesis by simp
next
  case (recv_closed g st c k)
  from inv recv_closed(2) show ?thesis
    by (cases rule: merge_who_cases)
       (use recv_closed in \<open>auto simp: instr_generator split: list.splits intro: merge_tr.intros\<close>)
next
  case (close g st c k)
  from inv close(2) show ?thesis
    by (cases rule: merge_who_cases)
       (use close in \<open>auto simp: instr_generator split: list.splits intro: merge_tr.intros\<close>)
next
  case (close_closed g st c k)
  from inv close_closed(2) show ?thesis
    by (cases rule: merge_who_cases)
       (use close_closed in \<open>auto simp: instr_generator split: list.splits\<close>)
next
  case (wg_add g st k)
  from inv wg_add(2) show ?thesis
    by (cases rule: merge_who_cases)
       (use wg_add in \<open>auto simp: instr_generator split: list.splits intro: merge_tr.intros\<close>)
next
  case (wg_done g st k)
  from inv wg_done(2) show ?thesis
    by (cases rule: merge_who_cases)
       (use wg_done in \<open>auto simp: instr_generator split: list.splits intro: merge_tr.intros\<close>)
next
  case (wg_neg g st k)
  from inv wg_neg(2) show ?thesis
    by (cases rule: merge_who_cases)
       (use wg_neg in \<open>auto simp: instr_generator split: list.splits\<close>)
next
  case (wg_wait g st k)
  from inv wg_wait(2) show ?thesis
    by (cases rule: merge_who_cases)
       (use wg_wait in \<open>auto simp: instr_generator split: list.splits intro: merge_tr.intros\<close>)
next
  case (spawn g st g' st' k)
  from inv spawn(2) show ?thesis
    by (cases rule: merge_who_cases)
       (use spawn in \<open>auto simp: instr_generator split: list.splits intro: merge_tr.intros\<close>)
next
  case (println g st v k)
  from inv println(2) show ?thesis
    by (cases rule: merge_who_cases)
       (use println in \<open>auto simp: instr_generator split: list.splits intro: merge_tr.intros\<close>)
next
  case (failure g st f k)
  from inv failure(2) show ?thesis
    by (cases rule: merge_who_cases)
       (use failure in \<open>auto simp: instr_generator split: list.splits\<close>)
next
  case (sync g h sg sh c v kg kh)
  from inv sync(2) show ?thesis
  proof (cases rule: merge_who_cases)
    case (gen k rest)
    from inv sync(3) show ?thesis
      by (cases rule: merge_who_cases)
         (use sync gen in \<open>auto simp: instr_generator split: list.splits intro: merge_tr.intros\<close>)
  next
    case (fwd_send k v)
    from inv sync(3) show ?thesis
      by (cases rule: merge_who_cases)
         (use sync fwd_send in \<open>auto simp: instr_generator split: list.splits intro: merge_tr.intros\<close>)
  qed (use sync in \<open>auto simp: instr_generator split: list.splits\<close>)
qed

lemma proj_simps [simp]:
  "proj g [] = []"
  "proj g (l @ [(h, v)]) = (if h = g then proj g l @ [v] else proj g l)"
  by (simp_all add: proj_def)

lemma fanIn_eq:
  "fanIn j (map f [j..<N]) =
     (if j < N then fanIn_add j (f j) (map f [Suc j..<N]) else fanIn_closer)"
  by (simp add: fanIn_def upt_conv_Cons)

lemma fanIn_0:
  "fanIn 0 (map f [0..<N]) =
     (if 0 < N then fanIn_add 0 (f 0) (map f [Suc 0..<N]) else fanIn_closer)"
  using fanIn_eq[of 0 f N] by simp

lemma merge_next_eq:
  "merge_next k (drop k xss) =
     (if k < length xss then merge_gen k (xss ! k) (drop (Suc k) xss)
      else fanIn 0 (map Src [0..<k]))"
  by (auto simp: merge_next_def drop_next split: list.splits)

lemma merge_next_drop:
  assumes "k \<le> length xss"
  shows "merge_next k (drop k xss) =
     (if k < length xss then merge_gen k (xss ! k) (drop (Suc k) xss)
      else if length xss = 0 then fanIn_closer
      else fanIn_add 0 (Src 0) (map Src [Suc 0..<length xss]))"
proof (cases "k < length xss")
  case True
  then show ?thesis by (simp add: merge_next_eq)
next
  case False
  with assms have "k = length xss" by simp
  then show ?thesis using fanIn_0[of Src "length xss"] by (simp add: merge_next_def)
qed

lemmas fwd_sum_upd1 = sum_upd1_eq[where F = "\<lambda>_. fwd_active"]

lemma merge_inv_init: "merge_inv xss (merger xss)"
proof -
  have "merge_next 0 xss =
     (if 0 < length xss then merge_gen 0 (xss ! 0) (drop (Suc 0) xss)
      else fanIn_closer)"
    using merge_next_drop[of 0 xss] by simp
  then show ?thesis
    by (simp add: merge_inv_def merge_base_def merge_main_inv_def merge_gen_inv_def fin_fwd_def
        fin_wg_def fin_closer_def fin_senders_def src_chan_inv_def merger_def boot_def
        new_chan_def)
qed

lemma merge_tr_base:
  assumes inv: "merge_inv xss s" and tr: "merge_tr s s'"
  shows "merge_base s'"
  using tr merge_invD(1)[OF inv]
  by (cases rule: merge_tr.cases) (auto simp: merge_base_def)

lemma merge_tr_src:
  assumes inv: "merge_inv xss s" and tr: "merge_tr s s'"
  shows "src_chan_inv s' j"
  using tr merge_invD(8)[OF inv, of j]
  by (cases rule: merge_tr.cases) (auto simp: src_chan_inv_def)

lemma merge_tr_senders:
  assumes inv: "merge_inv xss s" and tr: "merge_tr s s'"
  shows "fin_senders (length xss) s'"
  using tr
proof (cases rule: merge_tr.cases)
  case (m_fwd_to_main k c v)
  with merge_invD(7)[OF inv] merge_fwd_lt[OF inv m_fwd_to_main(1)] show ?thesis
    by (auto simp: fin_senders_def)
qed (use merge_invD(7)[OF inv] in \<open>auto simp: fin_senders_def\<close>)

lemma merge_main_ok_mono:
  "merge_main_ok xss pr ch m \<Longrightarrow> sent ch' = sent ch \<Longrightarrow> (closed ch \<longrightarrow> closed ch') \<Longrightarrow>
   merge_main_ok xss pr ch' m"
  by (cases m) (auto simp: vals_def)

lemma merge_tr_main:
  assumes inv: "merge_inv xss s" and tr: "merge_tr s s'"
  shows "merge_main_inv xss s'"
  using tr
proof (cases rule: merge_tr.cases)
  case (m_gen k xs rest)
  with merge_invD(2)[OF inv] show ?thesis
    by (auto simp: merge_main_inv_def merge_next_drop)
next
  case (m_add j c cs)
  with merge_invD(2)[OF inv] show ?thesis
    by (auto simp: merge_main_inv_def)
next
  case (m_go j c cs)
  with merge_invD(2)[OF inv] show ?thesis
    by (auto simp: merge_main_inv_def fanIn_eq)
next
  case m_closer
  with merge_invD(2)[OF inv] show ?thesis
    by (auto simp: merge_main_inv_def vals_Nil)
next
  case (m_gen_to_fwd k v rest)
  with merge_invD(2)[OF inv] show ?thesis
    by (auto simp: merge_main_inv_def split: option.splits)
next
  case (m_gen_close k)
  with merge_invD(2)[OF inv] show ?thesis
    by (auto simp: merge_main_inv_def split: option.splits)
next
  case (m_fwd_end k c)
  with merge_invD(2)[OF inv] show ?thesis
    by (auto simp: merge_main_inv_def split: option.splits)
next
  case (m_fwd_done k)
  with merge_invD(2)[OF inv] show ?thesis
    by (auto simp: merge_main_inv_def split: option.splits)
next
  case (m_fwd_to_main k c v)
  with merge_invD(2)[OF inv] show ?thesis
    by (auto simp: merge_main_inv_def)
next
  case m_wait
  with merge_invD(2)[OF inv] show ?thesis
    by (auto simp: merge_main_inv_def split: option.splits)
next
  case m_close
  with merge_invD(2)[OF inv] show ?thesis
    by (auto simp: merge_main_inv_def split: option.splits elim!: merge_main_ok_mono)
next
  case (m_main_end c)
  with merge_invD(2)[OF inv] show ?thesis
    by (auto simp: merge_main_inv_def)
next
  case (m_main_print c v)
  with merge_invD(2)[OF inv] show ?thesis
    by (auto simp: merge_main_inv_def)
qed

lemma merge_gen_ok_mono:
  "merge_gen_ok xs c ch st \<Longrightarrow> vals ch' = vals ch \<Longrightarrow> closed ch' = closed ch \<Longrightarrow>
   merge_gen_ok xs c ch' st"
  by (cases st) auto

lemma merge_tr_gen:
  assumes inv: "merge_inv xss s" and tr: "merge_tr s s'"
  shows "merge_gen_inv xss s' j"
  using tr
proof (cases rule: merge_tr.cases)
  case (m_gen k xs rest)
  with merge_invD(2)[OF inv] merge_invD(3)[OF inv, of j] merge_invD(3)[OF inv, of k] show ?thesis
    by (auto simp: merge_main_inv_def merge_gen_inv_def merge_next_drop
          vals_Nil split: option.splits)
next
  case (m_add j' c cs)
  with merge_invD(3)[OF inv, of j] show ?thesis
    by (auto simp: merge_gen_inv_def split: option.splits)
next
  case (m_go j' c cs)
  with merge_invD(2)[OF inv] merge_invD(3)[OF inv, of j] show ?thesis
    by (auto simp: merge_main_inv_def merge_gen_inv_def fanIn_eq split: option.splits)
next
  case m_closer
  with merge_invD(3)[OF inv, of j] show ?thesis
    by (auto simp: merge_gen_inv_def split: option.splits)
next
  case (m_gen_to_fwd k v rest)
  with merge_invD(3)[OF inv, of j] show ?thesis
    by (auto simp: merge_gen_inv_def split: option.splits)
next
  case (m_gen_close k)
  with merge_invD(3)[OF inv, of j] show ?thesis
    by (auto simp: merge_gen_inv_def split: option.splits)
next
  case (m_fwd_end k c)
  with merge_invD(3)[OF inv, of j] show ?thesis
    by (auto simp: merge_gen_inv_def split: option.splits)
next
  case (m_fwd_done k)
  with merge_invD(3)[OF inv, of j] show ?thesis
    by (auto simp: merge_gen_inv_def split: option.splits)
next
  case (m_fwd_to_main k c v)
  with merge_invD(3)[OF inv, of j] show ?thesis
    by (auto simp: merge_gen_inv_def split: option.splits)
next
  case m_wait
  with merge_invD(3)[OF inv, of j] show ?thesis
    by (auto simp: merge_gen_inv_def split: option.splits)
next
  case m_close
  with merge_invD(3)[OF inv, of j] show ?thesis
    by (auto simp: merge_gen_inv_def split: option.splits)
next
  case (m_main_end c)
  with merge_invD(2)[OF inv] merge_invD(3)[OF inv, of j] show ?thesis
    by (auto simp: merge_main_inv_def merge_gen_inv_def split: option.splits)
next
  case (m_main_print c v)
  with merge_invD(3)[OF inv, of j] show ?thesis
    by (auto simp: merge_gen_inv_def split: option.splits)
qed

lemma fwd_ok_mono:
  "fwd_ok c a out st \<Longrightarrow> vals a' = vals a \<Longrightarrow> (closed a \<longrightarrow> closed a') \<Longrightarrow> fwd_ok c a' out st"
  by (cases st) auto

lemma merge_main_started:
  assumes "merge_inv xss s"
  shows "fwds_started (length xss) (gors s GMain) \<le> length xss"
    "gens_started (length xss) (gors s GMain) \<le> length xss"
    "0 < fwds_started (length xss) (gors s GMain) \<or> 0 < pending_add (gors s GMain)
       \<or> closer_started (gors s GMain) \<Longrightarrow>
     gens_started (length xss) (gors s GMain) = length xss"
proof -
  from merge_invD(2)[OF assms] obtain m where m: "gors s GMain = Some m"
    "merge_main_ok xss (printed s) (chans s Merged) m"
    by (auto simp: merge_main_inv_def split: option.splits)
  from merge_main_okD[OF m(2)] m(1)
  show "fwds_started (length xss) (gors s GMain) \<le> length xss"
    "gens_started (length xss) (gors s GMain) \<le> length xss"
    "0 < fwds_started (length xss) (gors s GMain) \<or> 0 < pending_add (gors s GMain)
       \<or> closer_started (gors s GMain) \<Longrightarrow>
     gens_started (length xss) (gors s GMain) = length xss"
    by auto
qed

lemma merge_tr_fwd:
  assumes inv: "merge_inv xss s" and tr: "merge_tr s s'"
  shows "fin_fwd Src (length xss) s' j"
  using tr
proof (cases rule: merge_tr.cases)
  case (m_gen k xs rest)
  with merge_invD(2)[OF inv] merge_invD(4)[OF inv, of j] show ?thesis
    by (auto simp: merge_main_inv_def fin_fwd_def merge_next_drop split: option.splits)
next
  case (m_add j' c cs)
  with merge_invD(4)[OF inv, of j] show ?thesis
    by (auto simp: fin_fwd_def split: option.splits)
next
  case (m_go j' c cs)
  with merge_invD(2)[OF inv] merge_invD(4)[OF inv, of j] merge_invD(4)[OF inv, of j']
  show ?thesis
    by (auto simp: merge_main_inv_def fin_fwd_def fanIn_eq vals_Nil split: option.splits)
next
  case m_closer
  with merge_invD(4)[OF inv, of j] show ?thesis
    by (auto simp: fin_fwd_def split: option.splits)
next
  case (m_gen_to_fwd k v rest)
  with merge_invD(4)[OF inv, of j] show ?thesis
    by (auto simp: fin_fwd_def split: option.splits)
next
  case (m_gen_close k)
  with merge_invD(4)[OF inv, of j] show ?thesis
    by (auto simp: fin_fwd_def split: option.splits elim!: fwd_ok_mono)
next
  case (m_fwd_end k c)
  with merge_invD(4)[OF inv, of j] show ?thesis
    by (auto simp: fin_fwd_def split: option.splits)
next
  case (m_fwd_done k)
  with merge_invD(4)[OF inv, of j] show ?thesis
    by (auto simp: fin_fwd_def split: option.splits)
next
  case (m_fwd_to_main k c v)
  with merge_invD(4)[OF inv, of j] merge_invD(4)[OF inv, of k] show ?thesis
    by (auto simp: fin_fwd_def split: option.splits)
next
  case m_wait
  with merge_invD(4)[OF inv, of j] show ?thesis
    by (auto simp: fin_fwd_def split: option.splits)
next
  case m_close
  with merge_invD(4)[OF inv, of j] show ?thesis
    by (auto simp: fin_fwd_def split: option.splits)
next
  case (m_main_end c)
  with merge_invD(2)[OF inv] merge_invD(4)[OF inv, of j] show ?thesis
    by (auto simp: merge_main_inv_def fin_fwd_def split: option.splits)
next
  case (m_main_print c v)
  with merge_invD(4)[OF inv, of j] show ?thesis
    by (auto simp: fin_fwd_def split: option.splits)
qed

lemma merge_tr_wg:
  assumes inv: "merge_inv xss s" and tr: "merge_tr s s'"
  shows "fin_wg (length xss) s'"
  using tr
proof (cases rule: merge_tr.cases)
  case (m_gen k xs rest)
  with merge_invD(2)[OF inv] merge_invD(5)[OF inv] show ?thesis
    by (auto simp: merge_main_inv_def fin_wg_def merge_next_drop)
next
  case (m_add j c cs)
  with merge_invD(5)[OF inv] show ?thesis
    by (auto simp: fin_wg_def)
next
  case (m_go j c cs)
  with merge_invD(2)[OF inv] have j: "j < length xss" "cs = map Src [Suc j..<length xss]"
    by (auto simp: merge_main_inv_def)
  from m_go j merge_invD(5)[OF inv]
    sum_member_le[OF j(1), of "\<lambda>_. fwd_active" "\<lambda>j. gors s (GFwd j)"]
  show ?thesis
    by (auto simp: fin_wg_def fanIn_eq fwd_sum_upd1)
next
  case m_closer
  with merge_invD(5)[OF inv] show ?thesis
    by (auto simp: fin_wg_def)
next
  case (m_gen_to_fwd k v rest)
  from merge_fwd_lt[OF inv m_gen_to_fwd(2)] have k: "k < length xss" .
  from m_gen_to_fwd k merge_invD(5)[OF inv]
    sum_member_le[OF k, of "\<lambda>_. fwd_active" "\<lambda>j. gors s (GFwd j)"]
  show ?thesis
    by (auto simp: fin_wg_def fwd_sum_upd1)
next
  case (m_gen_close k)
  with merge_invD(5)[OF inv] show ?thesis
    by (auto simp: fin_wg_def)
next
  case (m_fwd_end k c)
  from merge_fwd_lt[OF inv m_fwd_end(1)] have k: "k < length xss" .
  from m_fwd_end k merge_invD(5)[OF inv]
    sum_member_le[OF k, of "\<lambda>_. fwd_active" "\<lambda>j. gors s (GFwd j)"]
  show ?thesis
    by (auto simp: fin_wg_def fwd_sum_upd1)
next
  case (m_fwd_done k)
  from merge_fwd_lt[OF inv m_fwd_done(1)] have k: "k < length xss" .
  from m_fwd_done k merge_invD(5)[OF inv]
    sum_member_le[OF k, of "\<lambda>_. fwd_active" "\<lambda>j. gors s (GFwd j)"]
  show ?thesis
    by (auto simp: fin_wg_def fwd_sum_upd1)
next
  case (m_fwd_to_main k c v)
  from merge_fwd_lt[OF inv m_fwd_to_main(1)] have k: "k < length xss" .
  from m_fwd_to_main k merge_invD(5)[OF inv]
    sum_member_le[OF k, of "\<lambda>_. fwd_active" "\<lambda>j. gors s (GFwd j)"]
  show ?thesis
    by (auto simp: fin_wg_def fwd_sum_upd1)
next
  case m_wait
  with merge_invD(5)[OF inv] show ?thesis
    by (auto simp: fin_wg_def)
next
  case m_close
  with merge_invD(5)[OF inv] show ?thesis
    by (auto simp: fin_wg_def)
next
  case (m_main_end c)
  with merge_invD(5)[OF inv] show ?thesis
    by (auto simp: fin_wg_def)
next
  case (m_main_print c v)
  with merge_invD(5)[OF inv] show ?thesis
    by (auto simp: fin_wg_def)
qed

lemma closer_ok_started: "closer_ok b w ch (Some st) \<Longrightarrow> b"
  by (cases st) auto

lemma closer_ok_wg: "closer_ok b w ch st \<Longrightarrow> w \<noteq> 0 \<Longrightarrow> closer_ok b w' ch st"
proof (cases st)
  case (Some a)
  assume "closer_ok b w ch st" "w \<noteq> 0"
  with Some show ?thesis by (cases a) auto
qed simp

lemma closer_ok_sent:
  "closer_ok b w ch st \<Longrightarrow> closed ch' = closed ch \<Longrightarrow> closers ch' = closers ch \<Longrightarrow>
   closer_ok b w ch' st"
proof (cases st)
  case (Some a)
  assume "closer_ok b w ch st" "closed ch' = closed ch" "closers ch' = closers ch"
  with Some show ?thesis by (cases a) auto
qed simp

lemma merge_tr_closer:
  assumes inv: "merge_inv xss s" and tr: "merge_tr s s'"
  shows "fin_closer s'"
  using tr
proof (cases rule: merge_tr.cases)
  case (m_gen k xs rest)
  with merge_invD(2)[OF inv] merge_invD(6)[OF inv] show ?thesis
    by (auto simp: merge_main_inv_def fin_closer_def merge_next_drop)
next
  case (m_add j c cs)
  with merge_invD(6)[OF inv] show ?thesis
    by (cases "gors s GCloser") (auto simp: fin_closer_def dest: closer_ok_started)
next
  case (m_go j c cs)
  with merge_invD(2)[OF inv] merge_invD(6)[OF inv] show ?thesis
    by (auto simp: merge_main_inv_def fin_closer_def fanIn_eq)
next
  case m_closer
  with merge_invD(6)[OF inv] show ?thesis
    by (auto simp: fin_closer_def)
next
  case (m_gen_to_fwd k v rest)
  with merge_invD(6)[OF inv] show ?thesis
    by (auto simp: fin_closer_def)
next
  case (m_gen_close k)
  with merge_invD(6)[OF inv] show ?thesis
    by (auto simp: fin_closer_def)
next
  case (m_fwd_end k c)
  with merge_invD(6)[OF inv] show ?thesis
    by (auto simp: fin_closer_def)
next
  case (m_fwd_done k)
  with merge_invD(6)[OF inv] show ?thesis
    by (auto simp: fin_closer_def elim!: closer_ok_wg)
next
  case (m_fwd_to_main k c v)
  with merge_invD(6)[OF inv] show ?thesis
    by (auto simp: fin_closer_def elim!: closer_ok_sent)
next
  case m_wait
  with merge_invD(6)[OF inv] show ?thesis
    by (auto simp: fin_closer_def)
next
  case m_close
  with merge_invD(6)[OF inv] show ?thesis
    by (auto simp: fin_closer_def)
next
  case (m_main_end c)
  with merge_invD(2)[OF inv] merge_invD(6)[OF inv] show ?thesis
    by (auto simp: merge_main_inv_def fin_closer_def)
next
  case (m_main_print c v)
  with merge_invD(6)[OF inv] show ?thesis
    by (auto simp: fin_closer_def)
qed

lemma merge_tr_inv:
  assumes "merge_inv xss s" "merge_tr s s'"
  shows "merge_inv xss s'"
  unfolding merge_inv_def
  using merge_tr_base[OF assms] merge_tr_main[OF assms] merge_tr_gen[OF assms]
    merge_tr_fwd[OF assms] merge_tr_wg[OF assms] merge_tr_closer[OF assms]
    merge_tr_senders[OF assms] merge_tr_src[OF assms]
  by blast

lemma merge_step_inv:
  assumes "merge_inv xss s" "step s l = Some s'"
  shows "merge_inv xss s'"
  using assms merge_step_tr merge_tr_inv by blast

lemma merge_reach:
  assumes "exec ls (merger xss) = Some s"
  shows "merge_inv xss s"
  using assms merge_inv_init merge_step_inv by (rule exec_invariant)

lemma sum_pos_member:
  fixes f :: "nat \<Rightarrow> nat"
  assumes "(\<Sum>k<N. f k) \<noteq> 0"
  obtains k where "k < N" "f k \<noteq> 0"
  using assms by (auto simp: sum_eq_0_iff)

lemma fwd_active_cases:
  assumes "fwd_active st \<noteq> 0"
  obtains c where "st = Some (fwd_range c)" | c v where "st = Some (fwd_send c v)"
    | "st = Some fwd_done"
proof (cases st)
  case None
  with assms show ?thesis by simp
next
  case (Some a)
  with assms that show ?thesis by (cases a) auto
qed

lemma merge_progress:
  assumes inv: "merge_inv xss s" and al: "alive s"
  shows "\<exists>l s'. step s l = Some s'"
proof -
  from merge_invD(2)[OF inv] obtain m where m: "gors s GMain = Some m"
    by (auto simp: merge_main_inv_def split: option.splits)
  from inv m show ?thesis
  proof (cases rule: merge_who_cases)
    case (main_gen k)
    with merge_invD(3)[OF inv, of k] m have "gors s (GGen k) = None"
      by (auto simp: merge_gen_inv_def split: option.splits)
    with m main_gen show ?thesis by (auto intro: can_go[OF al])
  next
    case (main_add j)
    with m show ?thesis by (auto intro: can_add[OF al])
  next
    case (main_go j)
    with merge_invD(4)[OF inv, of j] m have "gors s (GFwd j) = None"
      by (auto simp: fin_fwd_def split: option.splits)
    with m main_go show ?thesis by (auto intro: can_go[OF al])
  next
    case main_closer
    with merge_invD(6)[OF inv] m have "gors s GCloser = None"
      by (cases "gors s GCloser") (auto simp: fin_closer_def dest: closer_ok_started)
    with m main_closer show ?thesis by (auto intro: can_go[OF al])
  next
    case (main_print v)
    with m show ?thesis by (auto intro: can_print[OF al])
  next
    case main_exit
    with m al show ?thesis by (simp add: alive_def)
  next
    case main_range
    with m have mr: "gors s GMain = Some (consume_range Merged)" by simp
    with merge_invD(6)[OF inv] obtain cst where c: "gors s GCloser = Some cst"
      "closer_ok True (wg s) (chans s Merged) (Some cst)"
      by (cases "gors s GCloser") (auto simp: fin_closer_def)
    from closer_okD[OF c(2)] show ?thesis
    proof (elim disjE conjE)
      assume "cst = Exited" "closed (chans s Merged)"
      with mr show ?thesis by (auto intro: can_recv_closed[OF al])
    next
      assume "cst = closer_close"
      with c show ?thesis by (auto intro: can_close[OF al])
    next
      assume cw: "cst = closer_wait"
      show ?thesis
      proof (cases "wg s = 0")
        case True
        with c cw show ?thesis by (auto intro: can_wait[OF al])
      next
        case False
        with merge_invD(5)[OF inv] mr
        have "(\<Sum>k<length xss. fwd_active (gors s (GFwd k))) \<noteq> 0"
          by (simp add: fin_wg_def)
        then obtain k where k: "k < length xss" "fwd_active (gors s (GFwd k)) \<noteq> 0"
          by (rule sum_pos_member)
        from k(2) show ?thesis
        proof (cases rule: fwd_active_cases)
          case 3
          then show ?thesis by (auto intro: can_done[OF al])
        next
          case (2 c v)
          with mr merge_unbuffered[OF inv, of Merged] show ?thesis
            by (auto intro!: can_sync[OF al 2 _ mr])
        next
          case (1 c)
          with merge_invD(4)[OF inv, of k] have c: "c = Src k"
            by (simp add: fin_fwd_def)
          from merge_main_started(3)[OF inv] mr
          have "gens_started (length xss) (gors s GMain) = length xss" by simp
          with merge_invD(3)[OF inv, of k] k(1) obtain gst where g: "gors s (GGen k) = Some gst"
            "merge_gen_ok (xss ! k) (Src k) (chans s (Src k)) gst"
            by (auto simp: merge_gen_inv_def split: option.splits)
          from merge_gen_okD[OF g(2)] show ?thesis
          proof (elim disjE exE conjE)
            fix rest assume r: "gst = generator_loop rest (Src k)"
            show ?thesis
            proof (cases rest)
              case Nil
              with r g show ?thesis by (auto intro: can_close[OF al])
            next
              case (Cons v vs)
              with r g 1 c merge_unbuffered[OF inv, of "Src k"] show ?thesis
                by (auto intro!: can_sync[OF al g(1) _ 1])
            qed
          next
            assume "closed (chans s (Src k))"
            with 1 c show ?thesis by (auto intro: can_recv_closed[OF al])
          qed
        qed
      qed
    qed
  qed auto
qed

lemmas gen_sum_upd1 = sum_upd1_eq[where F = "\<lambda>_. generator_mu"]

lemmas fwdmu_sum_upd1 = sum_upd1_eq[where F = "\<lambda>_. fwd_mu"]

lemma merge_gen_lt:
  assumes "merge_inv xss s" "gors s (GGen k) = Some st"
  shows "k < length xss"
  using merge_invD(3)[OF assms(1), of k] merge_main_started(2)[OF assms(1)] assms(2)
  by (simp add: merge_gen_inv_def)

lemma merge_tr_mu:
  assumes inv: "merge_inv xss s" and tr: "merge_tr s s'"
  shows "Suc (merge_mu (length xss) s') = merge_mu (length xss) s"
  using tr
proof (cases rule: merge_tr.cases)
  case (m_gen k xs rest)
  with merge_invD(2)[OF inv] have k: "k < length xss" "rest = drop (Suc k) xss"
    by (auto simp: merge_main_inv_def)
  from m_gen k sum_member_le[OF k(1), of "\<lambda>_. generator_mu" "\<lambda>j. gors s (GGen j)"]
  show ?thesis
    by (auto simp: merge_mu_def merge_next_drop gen_sum_upd1 drop_next[of "Suc k" xss])
next
  case (m_add j c cs)
  then show ?thesis by (auto simp: merge_mu_def)
next
  case (m_go j c cs)
  with merge_invD(2)[OF inv] have j: "j < length xss" "cs = map Src [Suc j..<length xss]"
    by (auto simp: merge_main_inv_def)
  from m_go j sum_member_le[OF j(1), of "\<lambda>_. fwd_mu" "\<lambda>j. gors s (GFwd j)"]
  show ?thesis
    by (auto simp: merge_mu_def fanIn_eq fwdmu_sum_upd1)
next
  case m_closer
  then show ?thesis by (auto simp: merge_mu_def)
next
  case (m_gen_to_fwd k v rest)
  from merge_fwd_lt[OF inv m_gen_to_fwd(2)] have k: "k < length xss" .
  from m_gen_to_fwd k sum_member_le[OF k, of "\<lambda>_. fwd_mu" "\<lambda>j. gors s (GFwd j)"]
    sum_member_le[OF k, of "\<lambda>_. generator_mu" "\<lambda>j. gors s (GGen j)"]
  show ?thesis
    by (auto simp: merge_mu_def fwdmu_sum_upd1 gen_sum_upd1)
next
  case (m_gen_close k)
  from merge_gen_lt[OF inv m_gen_close(1)] have k: "k < length xss" .
  from m_gen_close k sum_member_le[OF k, of "\<lambda>_. generator_mu" "\<lambda>j. gors s (GGen j)"]
  show ?thesis
    by (auto simp: merge_mu_def gen_sum_upd1)
next
  case (m_fwd_end k c)
  from merge_fwd_lt[OF inv m_fwd_end(1)] have k: "k < length xss" .
  from m_fwd_end k sum_member_le[OF k, of "\<lambda>_. fwd_mu" "\<lambda>j. gors s (GFwd j)"]
  show ?thesis
    by (auto simp: merge_mu_def fwdmu_sum_upd1)
next
  case (m_fwd_done k)
  from merge_fwd_lt[OF inv m_fwd_done(1)] have k: "k < length xss" .
  from m_fwd_done k sum_member_le[OF k, of "\<lambda>_. fwd_mu" "\<lambda>j. gors s (GFwd j)"]
  show ?thesis
    by (auto simp: merge_mu_def fwdmu_sum_upd1)
next
  case (m_fwd_to_main k c v)
  from merge_fwd_lt[OF inv m_fwd_to_main(1)] have k: "k < length xss" .
  from m_fwd_to_main k sum_member_le[OF k, of "\<lambda>_. fwd_mu" "\<lambda>j. gors s (GFwd j)"]
  show ?thesis
    by (auto simp: merge_mu_def fwdmu_sum_upd1)
next
  case m_wait
  then show ?thesis by (auto simp: merge_mu_def)
next
  case m_close
  then show ?thesis by (auto simp: merge_mu_def)
next
  case (m_main_end c)
  with merge_invD(2)[OF inv] show ?thesis
    by (auto simp: merge_mu_def merge_main_inv_def)
next
  case (m_main_print c v)
  then show ?thesis by (auto simp: merge_mu_def)
qed

lemma merge_step_mu:
  assumes "merge_inv xss s" "step s l = Some s'"
  shows "merge_inv xss s' \<and> Suc (merge_mu (length xss) s') = merge_mu (length xss) s"
  using merge_step_inv[OF assms] merge_tr_mu[OF assms(1) merge_step_tr[OF assms]] by simp

lemma merge_mu_init:
  "merge_mu (length xss) (merger xss) = 3 * length (concat xss) + 6 * length xss + 4"
proof (cases xss)
  case Nil
  then show ?thesis
    using merge_next_drop[of 0 xss] by (simp add: merge_mu_def merger_def boot_def)
next
  case (Cons xs rest)
  then show ?thesis
    using merge_next_drop[of 0 xss] by (simp add: merge_mu_def merger_def boot_def)
qed

lemma merge_run_length:
  assumes "exec ls (merger xss) = Some s"
  shows "length ls + merge_mu (length xss) s = 3 * length (concat xss) + 6 * length xss + 4"
  using exec_count[of ls "merger xss" s "merge_inv xss" "merge_mu (length xss)",
      OF assms merge_inv_init merge_step_mu] merge_mu_init[of xss]
  by simp

lemma merge_stuck_exited:
  assumes inv: "merge_inv xss s" and st: "stuck s"
  shows "gors s GMain = Some Exited" "crashed s = None"
proof -
  from merge_invD(1)[OF inv] show c: "crashed s = None" by (simp add: merge_base_def)
  from merge_progress[OF inv] st have "\<not> alive s" by (auto simp: stuck_def)
  with c show "gors s GMain = Some Exited" by (simp add: alive_def)
qed

lemma merge_can_finish:
  assumes "exec ls (merger xss) = Some s"
  shows "\<exists>ms t. exec ms s = Some t \<and> stuck t"
proof -
  have "\<exists>ms t. exec ms s = Some t \<and> \<not> alive t"
  proof (rule run_to_end[where I = "merge_inv xss" and m = "merge_mu (length xss)"])
    show "merge_inv xss s" by (rule merge_reach[OF assms])
  qed (auto intro: merge_progress dest: merge_step_mu)
  with not_alive_stuck show ?thesis by blast
qed

text \<open>When the output is closed, every forwarder has returned and every input is closed.\<close>

lemma merge_closed_all_done:
  assumes inv: "merge_inv xss s" and c: "closed (chans s Merged)" and k: "k < length xss"
  shows "gors s (GFwd k) = Some Exited" "closed (chans s (Src k))"
    "proj (GFwd k) (sent (chans s Merged)) = xss ! k" "gors s (GGen k) = Some Exited"
    "wg s = 0" "gors s GCloser = Some Exited"
proof -
  from merge_invD(6)[OF inv] c obtain cst where cst: "gors s GCloser = Some cst"
    "closer_ok (closer_started (gors s GMain)) (wg s) (chans s Merged) (Some cst)"
    by (cases "gors s GCloser") (auto simp: fin_closer_def)
  from closer_okD[OF cst(2)] c cst(1) show w: "wg s = 0" and "gors s GCloser = Some Exited"
    by auto
  from closer_ok_started[OF cst(2)] have cs: "closer_started (gors s GMain)" .
  then have fs: "fwds_started (length xss) (gors s GMain) = length xss"
    by (cases "gors s GMain"; cases "the (gors s GMain)") auto
  with merge_invD(4)[OF inv, of k] k obtain st where st: "gors s (GFwd k) = Some st"
    "fwd_ok (Src k) (chans s (Src k)) (proj (GFwd k) (sent (chans s Merged))) st"
    by (auto simp: fin_fwd_def split: option.splits)
  from merge_open_while_active[OF inv st(1)] c show ex: "gors s (GFwd k) = Some Exited"
    using st(1) by auto
  with st have pv: "proj (GFwd k) (sent (chans s Merged)) = vals (chans s (Src k))" by auto
  from ex st show cl: "closed (chans s (Src k))" by auto
  from merge_invD(3)[OF inv, of k] cl obtain gst where g: "gors s (GGen k) = Some gst"
    "merge_gen_ok (xss ! k) (Src k) (chans s (Src k)) gst"
    by (auto simp: merge_gen_inv_def split: option.splits)
  from merge_gen_okD[OF g(2)] cl g show "gors s (GGen k) = Some Exited"
    and "proj (GFwd k) (sent (chans s Merged)) = xss ! k" using pv by auto
qed

lemma merge_lane_prefix:
  assumes inv: "merge_inv xss s" and k: "k < length xss"
  shows "prefix (proj (GFwd k) (sent (chans s Merged))) (vals (chans s (Src k)))"
    "prefix (vals (chans s (Src k))) (xss ! k)"
proof -
  show "prefix (proj (GFwd k) (sent (chans s Merged))) (vals (chans s (Src k)))"
  proof (cases "gors s (GFwd k)")
    case None
    with merge_invD(4)[OF inv, of k] show ?thesis by (simp add: fin_fwd_def)
  next
    case (Some st)
    with merge_invD(4)[OF inv, of k]
    have ok: "fwd_ok (Src k) (chans s (Src k)) (proj (GFwd k) (sent (chans s Merged))) st"
      by (simp add: fin_fwd_def)
    from fwd_okD[OF ok] ok show ?thesis by (auto simp: prefix_def)
  qed
  show "prefix (vals (chans s (Src k))) (xss ! k)"
  proof (cases "gors s (GGen k)")
    case None
    with merge_invD(3)[OF inv, of k] show ?thesis by (simp add: merge_gen_inv_def vals_Nil)
  next
    case (Some st)
    with merge_invD(3)[OF inv, of k]
    have ok: "merge_gen_ok (xss ! k) (Src k) (chans s (Src k)) st"
      by (simp add: merge_gen_inv_def)
    from merge_gen_okD[OF ok] ok show ?thesis by (auto simp: prefix_def) metis
  qed
qed

text \<open>A sequence sent by the forwarders is, as a multiset, the sum of what each has sent.\<close>

lemma mset_by_sender:
  assumes "\<forall>p \<in> set l. \<exists>k<N. fst p = GFwd k"
  shows "mset (map snd l) = (\<Sum>k<N. mset (proj (GFwd k) l))"
  using assms
proof (induction l rule: rev_induct)
  case Nil
  then show ?case by simp
next
  case (snoc p l)
  obtain g v where p: "p = (g, v)" by (cases p)
  from snoc.prems p obtain k where k: "k < N" "g = GFwd k" by auto
  have "(\<Sum>j<N. mset (proj (GFwd j) (l @ [p]))) =
        (\<Sum>j<N. mset (proj (GFwd j) l) + (if j = k then {#v#} else {#}))"
    by (rule sum.cong) (auto simp: p k)
  also have "\<dots> = (\<Sum>j<N. mset (proj (GFwd j) l)) + (\<Sum>j<N. if j = k then {#v#} else {#})"
    by (simp add: sum.distrib)
  also have "(\<Sum>j<N. if j = k then {#v#} else {#}) = {#v#}"
    using k(1) by simp
  finally show ?case using snoc p by simp
qed

lemma mset_concat_nth: "mset (concat xss) = (\<Sum>k<length xss. mset (xss ! k))"
proof (induction xss rule: rev_induct)
  case Nil
  then show ?case by simp
next
  case (snoc xs xss)
  have "(\<Sum>k<length xss. mset ((xss @ [xs]) ! k)) = (\<Sum>k<length xss. mset (xss ! k))"
    by (rule sum.cong) (auto simp: nth_append)
  with snoc show ?case by simp
qed

lemma sum_subset_mset:
  fixes f g :: "nat \<Rightarrow> 'a multiset"
  assumes "\<And>k. k < N \<Longrightarrow> f k \<subseteq># g k"
  shows "(\<Sum>k<N. f k) \<subseteq># (\<Sum>k<N. g k)"
  using assms
proof (induction N)
  case 0
  then show ?case by simp
next
  case (Suc N)
  then have "(\<Sum>k<N. f k) \<subseteq># (\<Sum>k<N. g k)" "f N \<subseteq># g N" by simp_all
  then show ?case by (simp add: subset_mset.add_mono)
qed

lemma merge_mset:
  assumes inv: "merge_inv xss s"
  shows "mset (carried s Merged) = (\<Sum>k<length xss. mset (proj (GFwd k) (sent (chans s Merged))))"
    "mset (carried s Merged) \<subseteq># mset (concat xss)"
    "closed (chans s Merged) \<Longrightarrow> mset (carried s Merged) = mset (concat xss)"
proof -
  from merge_invD(7)[OF inv]
  show 1: "mset (carried s Merged) =
      (\<Sum>k<length xss. mset (proj (GFwd k) (sent (chans s Merged))))"
    unfolding carried_def vals_def fin_senders_def by (rule mset_by_sender)
  have "(\<Sum>k<length xss. mset (proj (GFwd k) (sent (chans s Merged)))) \<subseteq>#
        (\<Sum>k<length xss. mset (xss ! k))"
  proof (rule sum_subset_mset)
    fix k assume k: "k < length xss"
    from merge_lane_prefix[OF inv k]
    have "prefix (proj (GFwd k) (sent (chans s Merged))) (xss ! k)"
      by (rule prefix_order.trans)
    then show "mset (proj (GFwd k) (sent (chans s Merged))) \<subseteq># mset (xss ! k)"
      by (auto simp: prefix_def)
  qed
  with 1 show "mset (carried s Merged) \<subseteq># mset (concat xss)"
    by (simp add: mset_concat_nth)
  assume c: "closed (chans s Merged)"
  have "(\<Sum>k<length xss. mset (proj (GFwd k) (sent (chans s Merged)))) =
        (\<Sum>k<length xss. mset (xss ! k))"
    by (rule sum.cong) (use merge_closed_all_done(3)[OF inv c] in auto)
  with 1 show "mset (carried s Merged) = mset (concat xss)"
    by (simp add: mset_concat_nth)
qed

lemma merge_finished:
  assumes inv: "merge_inv xss s" and ex: "gors s GMain = Some Exited"
  shows "printed s = carried s Merged" "closed (chans s Merged)"
  using merge_invD(2)[OF inv] ex by (simp_all add: merge_main_inv_def carried_def)

lemma merge_printed_prefix:
  assumes inv: "merge_inv xss s"
  shows "prefix (printed s) (carried s Merged)"
proof -
  from merge_invD(2)[OF inv] obtain m where m: "gors s GMain = Some m"
    "merge_main_ok xss (printed s) (chans s Merged) m"
    by (auto simp: merge_main_inv_def split: option.splits)
  from merge_main_okD[OF m(2)] m(2) show ?thesis by (auto simp: carried_def prefix_def vals_Nil)
qed

subsection \<open>The worker pool\<close>

lemma pool_invD:
  assumes "pool_inv J W s"
  shows "pool_base J s" "pool_main_inv J W s" "pool_worker_inv W s i" "pool_wg W s"
    "pool_count W s" "pool_chan_inv W s"
  using assms by (simp_all add: pool_inv_def)

lemma pool_main_obtain:
  assumes "pool_inv J W s"
  obtains m where "gors s GMain = Some m"
    "pool_main_ok J W (chans s Jobs) (chans s Results) (printed s) (wg s) m"
  using pool_invD(2)[OF assms] by (auto simp: pool_main_inv_def split: option.splits)

lemma pool_main_okD:
  "pool_main_ok J W jobs res pr w m \<Longrightarrow>
     (\<exists>i. 1 \<le> i \<and> i \<le> W \<and> m = pool_add i W J) \<or> (\<exists>i. 1 \<le> i \<and> i \<le> W \<and> m = pool_go i W J) \<or>
     (\<exists>j. 1 \<le> j \<and> j \<le> J \<and> m = pool_send j J) \<or> m = pool_close_jobs \<or> m = pool_wait \<or>
     m = pool_close_results \<or> m = consume_range Results \<or> (\<exists>v. m = consume_print Results v) \<or>
     m = Exited"
  by (cases m) auto

lemma worker_okD:
  "worker_ok i st \<Longrightarrow>
     st = worker_range i \<or> (\<exists>job. st = worker_send i job) \<or> st = worker_done i \<or> st = Exited"
  by (cases st) auto

lemma pool_worker_bounds:
  assumes inv: "pool_inv J W s" and w: "gors s (GWorker i) = Some st"
  shows "1 \<le> i" "i \<le> W" "i < Suc W" "worker_ok i st"
proof -
  from pool_main_obtain[OF inv] obtain m where m: "gors s GMain = Some m"
    "pool_main_ok J W (chans s Jobs) (chans s Results) (printed s) (wg s) m" .
  from pool_main_okD[OF m(2)] m(1) have "workers_started W (gors s GMain) \<le> Suc W" by auto
  with pool_invD(3)[OF inv, of i] w show "1 \<le> i" "i \<le> W" "i < Suc W" "worker_ok i st"
    by (auto simp: pool_worker_inv_def)
qed

text \<open>A worker that has not returned keeps the counter above zero and the results open.\<close>

lemma pool_open_while_active:
  assumes inv: "pool_inv J W s" and w: "gors s (GWorker i) = Some st" "st \<noteq> Exited"
  shows "wg s \<noteq> 0" "\<not> closed (chans s Results)"
proof -
  note b = pool_worker_bounds[OF inv w(1)]
  from worker_okD[OF b(4)] w have a: "worker_active (gors s (GWorker i)) = 1" by auto
  have "worker_active (gors s (GWorker i)) \<le> (\<Sum>j<Suc W. worker_active (gors s (GWorker j)))"
    using sum_member_le[OF b(3), of "\<lambda>_. worker_active" "\<lambda>j. gors s (GWorker j)"] by simp
  with a pool_invD(4)[OF inv] have "0 < wg s" unfolding pool_wg_def by linarith
  then show w0: "wg s \<noteq> 0" by simp
  from pool_main_obtain[OF inv] obtain m where m: "gors s GMain = Some m"
    "pool_main_ok J W (chans s Jobs) (chans s Results) (printed s) (wg s) m" .
  from pool_main_okD[OF m(2)] m(2) w0 show "\<not> closed (chans s Results)" by auto
qed

lemma pool_lengths:
  assumes inv: "pool_inv J W s"
  shows "length (vals (chans s Jobs)) \<le> J"
    "length (buf (chans s Results)) \<le> length (vals (chans s Results))"
proof -
  from pool_main_obtain[OF inv] obtain m where m: "gors s GMain = Some m"
    "pool_main_ok J W (chans s Jobs) (chans s Results) (printed s) (wg s) m" .
  from pool_main_okD[OF m(2)] m(2) show "length (vals (chans s Jobs)) \<le> J"
    by (auto simp: all_jobs_def vals_Nil)
  from pool_main_okD[OF m(2)] m(2)
  show "length (buf (chans s Results)) \<le> length (vals (chans s Results))"
    by (auto simp: vals_Nil)
qed

text \<open>A worker with a result in hand finds room in the results channel.\<close>

lemma pool_result_room:
  assumes inv: "pool_inv J W s" and w: "gors s (GWorker i) = Some (worker_send i' job)"
  shows "length (buf (chans s Results)) < J"
proof -
  note b = pool_worker_bounds[OF inv w]
  have "worker_holding (gors s (GWorker i)) \<le> (\<Sum>j<Suc W. worker_holding (gors s (GWorker j)))"
    using sum_member_le[OF b(3), of "\<lambda>_. worker_holding" "\<lambda>j. gors s (GWorker j)"] by simp
  with w have "1 \<le> (\<Sum>j<Suc W. worker_holding (gors s (GWorker j)))" by simp
  with pool_invD(5)[OF inv] pool_lengths[OF inv] show ?thesis
    unfolding pool_count_def by linarith
qed

lemma pool_job_room:
  assumes inv: "pool_inv J W s" and m: "gors s GMain = Some (pool_send j J')"
  shows "length (buf (chans s Jobs)) < J" "\<not> closed (chans s Jobs)"
proof -
  from pool_invD(2)[OF inv] m have "length (vals (chans s Jobs)) < J" "\<not> closed (chans s Jobs)"
    by (auto simp: pool_main_inv_def)
  with pool_invD(5)[OF inv] show "length (buf (chans s Jobs)) < J" "\<not> closed (chans s Jobs)"
    unfolding pool_count_def by linarith+
qed

lemma pool_who_cases [consumes 2, case_names main_add main_go main_send main_close_jobs
    main_wait main_close_results main_range main_print main_exit
    w_range w_send w_done w_exit]:
  assumes "pool_inv J W s" "gors s g = Some st"
  obtains
    (main_add) i where "g = GMain" "st = pool_add i W J"
  | (main_go) i where "g = GMain" "st = pool_go i W J"
  | (main_send) j where "g = GMain" "st = pool_send j J" "1 \<le> j" "j \<le> J"
      "\<not> closed (chans s Jobs)" "length (buf (chans s Jobs)) < J"
  | (main_close_jobs) "g = GMain" "st = pool_close_jobs" "\<not> closed (chans s Jobs)"
  | (main_wait) "g = GMain" "st = pool_wait"
  | (main_close_results) "g = GMain" "st = pool_close_results" "\<not> closed (chans s Results)"
  | (main_range) "g = GMain" "st = consume_range Results" "closed (chans s Results)"
  | (main_print) v where "g = GMain" "st = consume_print Results v"
  | (main_exit) "g = GMain" "st = Exited"
  | (w_range) i where "g = GWorker i" "st = worker_range i"
  | (w_send) i job where "g = GWorker i" "st = worker_send i job"
      "\<not> closed (chans s Results)" "length (buf (chans s Results)) < J"
  | (w_done) i where "g = GWorker i" "st = worker_done i" "wg s \<noteq> 0"
  | (w_exit) i where "g = GWorker i" "st = Exited"
proof (cases g)
  case GMain
  with assms pool_invD(2)[OF assms(1)]
  have ok: "pool_main_ok J W (chans s Jobs) (chans s Results) (printed s) (wg s) st"
    by (simp add: pool_main_inv_def)
  from pool_main_okD[OF ok] show ?thesis
  proof (elim disjE exE conjE)
    fix j assume j: "1 \<le> j" "j \<le> J" "st = pool_send j J"
    with pool_job_room[OF assms(1), of j J] assms(2) GMain show ?thesis
      by (auto intro: main_send)
  qed (use ok GMain in \<open>auto intro: main_add main_go main_close_jobs main_wait
         main_close_results main_range main_print main_exit\<close>)
next
  case (GWorker i)
  note b = pool_worker_bounds[OF assms(1) assms(2)[unfolded GWorker]]
  from worker_okD[OF b(4)] show ?thesis
  proof (elim disjE exE)
    fix job assume "st = worker_send i job"
    with pool_open_while_active[OF assms(1), of i st] pool_result_room[OF assms(1), of i i job]
      assms(2) GWorker show ?thesis by (auto intro: w_send)
  next
    assume "st = worker_done i"
    with pool_open_while_active[OF assms(1), of i st] assms(2) GWorker show ?thesis
      by (auto intro: w_done)
  qed (use GWorker in \<open>auto intro: w_range w_exit\<close>)
qed (use assms pool_invD(1)[OF assms(1)] in \<open>auto simp: pool_base_def\<close>)

lemma pool_caps:
  assumes "pool_inv J W s"
  shows "cap (chans s Jobs) = J" "cap (chans s Results) = J"
  using pool_invD(1)[OF assms] by (simp_all add: pool_base_def)

lemma pool_step_tr:
  assumes inv: "pool_inv J W s" and st: "step s l = Some s'"
  shows "pool_tr s s'"
  using st
proof (cases rule: step_cases)
  case (send g st c v k)
  from inv send(2) show ?thesis
    by (cases rule: pool_who_cases) (use send in \<open>auto intro: pool_tr.intros\<close>)
next
  case (send_closed g st c v k)
  from inv send_closed(2) show ?thesis
    by (cases rule: pool_who_cases) (use send_closed in auto)
next
  case (recv g st c k v vs)
  from inv recv(2) show ?thesis
    by (cases rule: pool_who_cases) (use recv in \<open>auto intro: pool_tr.intros\<close>)
next
  case (recv_closed g st c k)
  from inv recv_closed(2) show ?thesis
    by (cases rule: pool_who_cases) (use recv_closed in \<open>auto intro: pool_tr.intros\<close>)
next
  case (close g st c k)
  from inv close(2) show ?thesis
    by (cases rule: pool_who_cases) (use close in \<open>auto intro: pool_tr.intros\<close>)
next
  case (close_closed g st c k)
  from inv close_closed(2) show ?thesis
    by (cases rule: pool_who_cases) (use close_closed in auto)
next
  case (wg_add g st k)
  from inv wg_add(2) show ?thesis
    by (cases rule: pool_who_cases) (use wg_add in \<open>auto intro: pool_tr.intros\<close>)
next
  case (wg_done g st k)
  from inv wg_done(2) show ?thesis
    by (cases rule: pool_who_cases) (use wg_done in \<open>auto intro: pool_tr.intros\<close>)
next
  case (wg_neg g st k)
  from inv wg_neg(2) show ?thesis
    by (cases rule: pool_who_cases) (use wg_neg in auto)
next
  case (wg_wait g st k)
  from inv wg_wait(2) show ?thesis
    by (cases rule: pool_who_cases) (use wg_wait in \<open>auto intro: pool_tr.intros\<close>)
next
  case (spawn g st g' st' k)
  from inv spawn(2) show ?thesis
    by (cases rule: pool_who_cases) (use spawn in \<open>auto intro: pool_tr.intros\<close>)
next
  case (println g st v k)
  from inv println(2) show ?thesis
    by (cases rule: pool_who_cases) (use println in \<open>auto intro: pool_tr.intros\<close>)
next
  case (failure g st f k)
  from inv failure(2) show ?thesis
    by (cases rule: pool_who_cases) (use failure in auto)
next
  case (sync g h sg sh c v kg kh)
  from inv sync(2) show ?thesis
  proof (cases rule: pool_who_cases)
    case (main_send j)
    with sync pool_caps[OF inv] show ?thesis by auto
  next
    case (w_send i job)
    with sync pool_caps[OF inv] show ?thesis by auto
  qed (use sync in auto)
qed

lemmas pool_active_upd = sum_upd1_eq[where F = "\<lambda>_. worker_active"]

lemmas pool_holding_upd = sum_upd1_eq[where F = "\<lambda>_. worker_holding"]

lemma pool_jobs_eq:
  "j \<le> J \<Longrightarrow> pool_jobs j J = pool_send j J"
  "\<not> j \<le> J \<Longrightarrow> pool_jobs j J = pool_close_jobs"
  by (simp_all add: pool_jobs_def)

lemma pool_workers_eq:
  "i \<le> W \<Longrightarrow> pool_workers i W J = pool_add i W J"
  "\<not> i \<le> W \<Longrightarrow> pool_workers i W J = pool_jobs 1 J"
  by (simp_all add: pool_workers_def)

lemma sum_all_zero:
  fixes f :: "nat \<Rightarrow> nat"
  shows "(\<And>i. i < N \<Longrightarrow> f i = 0) \<Longrightarrow> (\<Sum>i<N. f i) = 0"
  by simp

lemma pool_inv_init: "pool_inv J W (pool J W)"
  unfolding pool_inv_def
proof (intro conjI allI)
  show "pool_base J (pool J W)"
    by (simp add: pool_base_def pool_def boot_def new_chan_def)
  show "pool_main_inv J W (pool J W)"
    by (cases "1 \<le> W"; cases "1 \<le> J")
       (simp_all add: pool_main_inv_def pool_def boot_def new_chan_def pool_workers_def
          pool_jobs_def all_jobs_def vals_def)
  show "pool_worker_inv W (pool J W) i" for i
    by (cases "1 \<le> W")
       (auto simp: pool_worker_inv_def pool_def boot_def new_chan_def pool_workers_def
          pool_jobs_def)
  show "pool_wg W (pool J W)"
    by (simp add: pool_wg_def pool_def boot_def new_chan_def pool_workers_def pool_jobs_def)
  show "pool_count W (pool J W)"
    by (simp add: pool_count_def pool_def boot_def new_chan_def vals_def)
  show "pool_chan_inv W (pool J W)"
    by (simp add: pool_chan_inv_def pool_def boot_def new_chan_def)
qed

lemma pool_tr_base:
  assumes inv: "pool_inv J W s" and tr: "pool_tr s s'"
  shows "pool_base J s'"
  using tr pool_invD(1)[OF inv]
  by (cases rule: pool_tr.cases) (auto simp: pool_base_def)

lemma pool_tr_chan:
  assumes inv: "pool_inv J W s" and tr: "pool_tr s s'"
  shows "pool_chan_inv W s'"
  using tr
proof (cases rule: pool_tr.cases)
  case (w_send i job)
  from pool_worker_bounds[OF inv w_send(1)] w_send pool_invD(6)[OF inv] show ?thesis
    by (auto simp: pool_chan_inv_def)
qed (use pool_invD(6)[OF inv] in \<open>auto simp: pool_chan_inv_def\<close>)

lemma pool_no_holding_before_jobs:
  assumes inv: "pool_inv J W s" and w: "gors s (GWorker i) = Some (worker_send i' job)"
  shows "sent (chans s Jobs) \<noteq> []"
proof
  assume "sent (chans s Jobs) = []"
  then have "length (vals (chans s Jobs)) = 0" by (simp add: vals_def)
  with pool_invD(5)[OF inv] have z: "(\<Sum>j<Suc W. worker_holding (gors s (GWorker j))) = 0"
    unfolding pool_count_def by linarith
  note b = pool_worker_bounds[OF inv w]
  from sum_member_le[OF b(3), of "\<lambda>_. worker_holding" "\<lambda>j. gors s (GWorker j)"] z w
  show False by simp
qed

lemma vals_buffered_send [simp]:
  "vals (ch\<lparr>buf := bs, sent := sent ch @ [(g, v)]\<rparr>) = vals ch @ [v]"
  by (simp add: vals_def)

lemma pool_tr_main:
  assumes inv: "pool_inv J W s" and tr: "pool_tr s s'"
  shows "pool_main_inv J W s'"
  using tr
proof (cases rule: pool_tr.cases)
  case (p_add i W' J')
  with pool_invD(2)[OF inv] show ?thesis by (auto simp: pool_main_inv_def)
next
  case (p_go i W' J')
  with pool_invD(2)[OF inv] show ?thesis
    by (auto simp: pool_main_inv_def pool_workers_def pool_jobs_def all_jobs_def vals_Nil)
next
  case (p_send j J')
  with pool_invD(2)[OF inv] have j: "J' = J" "1 \<le> j" "j \<le> J"
    "vals (chans s Jobs) = map of_nat [1..<j]" "\<not> closed (chans s Results)" "printed s = []"
    "vals (chans s Results) = buf (chans s Results)"
    by (auto simp: pool_main_inv_def)
  show ?thesis
  proof (cases "Suc j \<le> J")
    case True
    with p_send j show ?thesis by (auto simp: pool_main_inv_def pool_jobs_def)
  next
    case False
    with j have "j = J" by simp
    with p_send j False show ?thesis by (auto simp: pool_main_inv_def pool_jobs_def all_jobs_def)
  qed
next
  case p_close_jobs
  with pool_invD(2)[OF inv] show ?thesis by (auto simp: pool_main_inv_def)
next
  case p_wait
  with pool_invD(2)[OF inv] show ?thesis by (auto simp: pool_main_inv_def)
next
  case p_close_results
  with pool_invD(2)[OF inv] show ?thesis by (auto simp: pool_main_inv_def)
next
  case (p_recv v vs)
  with pool_invD(2)[OF inv] show ?thesis by (auto simp: pool_main_inv_def)
next
  case p_end
  with pool_invD(2)[OF inv] show ?thesis by (auto simp: pool_main_inv_def)
next
  case (p_print c v)
  with pool_invD(2)[OF inv] show ?thesis by (auto simp: pool_main_inv_def)
next
  case (w_recv i v vs)
  from pool_main_obtain[OF inv] obtain m where m: "gors s GMain = Some m"
    "pool_main_ok J W (chans s Jobs) (chans s Results) (printed s) (wg s) m" .
  from pool_main_okD[OF m(2)] m w_recv show ?thesis
    by (auto simp: pool_main_inv_def)
next
  case (w_end i)
  from pool_main_obtain[OF inv] obtain m where m: "gors s GMain = Some m"
    "pool_main_ok J W (chans s Jobs) (chans s Results) (printed s) (wg s) m" .
  with w_end show ?thesis by (auto simp: pool_main_inv_def)
next
  case (w_send i job)
  from pool_main_obtain[OF inv] obtain m where m: "gors s GMain = Some m"
    "pool_main_ok J W (chans s Jobs) (chans s Results) (printed s) (wg s) m" .
  from pool_main_okD[OF m(2)] m w_send pool_no_holding_before_jobs[OF inv w_send(1)]
  show ?thesis
    by (auto simp: pool_main_inv_def)
next
  case (w_done i)
  from pool_main_obtain[OF inv] obtain m where m: "gors s GMain = Some m"
    "pool_main_ok J W (chans s Jobs) (chans s Results) (printed s) (wg s) m" .
  from pool_main_okD[OF m(2)] m w_done show ?thesis
    by (auto simp: pool_main_inv_def)
qed

lemma pool_started_all:
  "workers_started W (Some (pool_jobs j J)) = Suc W"
  "workers_started W (Some pool_wait) = Suc W"
  by (simp_all add: pool_jobs_def)

lemma pool_tr_worker:
  assumes inv: "pool_inv J W s" and tr: "pool_tr s s'"
  shows "pool_worker_inv W s' k"
  using tr
proof (cases rule: pool_tr.cases)
  case (p_add i W' J')
  with pool_invD(3)[OF inv, of k] show ?thesis by (auto simp: pool_worker_inv_def split: option.splits)
next
  case (p_go i W' J')
  with pool_invD(2)[OF inv] have i: "1 \<le> i" "i \<le> W" "W' = W" by (auto simp: pool_main_inv_def)
  have st: "workers_started W (Some (pool_workers (Suc i) W J')) = Suc i"
    using i by (auto simp: pool_workers_def pool_jobs_def)
  from p_go i pool_invD(3)[OF inv, of k] show ?thesis
    unfolding pool_worker_inv_def by (auto simp: st split: option.splits)
next
  case (p_send j J')
  with pool_invD(3)[OF inv, of k] show ?thesis
    by (auto simp: pool_worker_inv_def pool_started_all split: option.splits)
next
  case p_close_jobs
  with pool_invD(3)[OF inv, of k] show ?thesis by (auto simp: pool_worker_inv_def split: option.splits)
next
  case p_wait
  with pool_invD(3)[OF inv, of k] show ?thesis by (auto simp: pool_worker_inv_def split: option.splits)
next
  case p_close_results
  with pool_invD(3)[OF inv, of k] show ?thesis by (auto simp: pool_worker_inv_def split: option.splits)
next
  case (p_recv v vs)
  with pool_invD(3)[OF inv, of k] show ?thesis by (auto simp: pool_worker_inv_def split: option.splits)
next
  case p_end
  with pool_invD(3)[OF inv, of k] show ?thesis by (auto simp: pool_worker_inv_def split: option.splits)
next
  case (p_print c v)
  with pool_invD(3)[OF inv, of k] show ?thesis by (auto simp: pool_worker_inv_def split: option.splits)
next
  case (w_recv i v vs)
  with pool_invD(3)[OF inv, of k] show ?thesis by (auto simp: pool_worker_inv_def split: option.splits)
next
  case (w_end i)
  with pool_invD(3)[OF inv, of k] show ?thesis by (auto simp: pool_worker_inv_def split: option.splits)
next
  case (w_send i job)
  with pool_invD(3)[OF inv, of k] show ?thesis by (auto simp: pool_worker_inv_def split: option.splits)
next
  case (w_done i)
  with pool_invD(3)[OF inv, of k] show ?thesis by (auto simp: pool_worker_inv_def split: option.splits)
qed

lemma pool_pending_next:
  "pool_pending (Some (pool_jobs j J)) = 0"
  "i \<le> W \<Longrightarrow> pool_pending (Some (pool_workers (Suc i) W J)) = 0"
  by (simp_all add: pool_jobs_def pool_workers_def)

lemma pool_tr_wg:
  assumes inv: "pool_inv J W s" and tr: "pool_tr s s'"
  shows "pool_wg W s'"
  using tr
proof (cases rule: pool_tr.cases)
  case (p_add i W' J')
  with pool_invD(4)[OF inv] show ?thesis by (auto simp del: sum.lessThan_Suc simp: pool_wg_def)
next
  case (p_go i W' J')
  with pool_invD(2)[OF inv] have i: "1 \<le> i" "i \<le> W" "W' = W" "i < Suc W"
    by (auto simp: pool_main_inv_def)
  from p_go i pool_invD(4)[OF inv]
    sum_member_le[OF i(4), of "\<lambda>_. worker_active" "\<lambda>j. gors s (GWorker j)"]
  show ?thesis
    by (auto simp del: sum.lessThan_Suc simp: pool_wg_def pool_active_upd pool_pending_next)
next
  case (p_send j J')
  with pool_invD(4)[OF inv] show ?thesis by (auto simp del: sum.lessThan_Suc simp: pool_wg_def pool_pending_next)
next
  case p_close_jobs
  with pool_invD(4)[OF inv] show ?thesis by (auto simp del: sum.lessThan_Suc simp: pool_wg_def)
next
  case p_wait
  with pool_invD(4)[OF inv] show ?thesis by (auto simp del: sum.lessThan_Suc simp: pool_wg_def)
next
  case p_close_results
  with pool_invD(4)[OF inv] show ?thesis by (auto simp del: sum.lessThan_Suc simp: pool_wg_def)
next
  case (p_recv v vs)
  with pool_invD(4)[OF inv] show ?thesis by (auto simp del: sum.lessThan_Suc simp: pool_wg_def)
next
  case p_end
  with pool_invD(4)[OF inv] show ?thesis by (auto simp del: sum.lessThan_Suc simp: pool_wg_def)
next
  case (p_print c v)
  with pool_invD(2)[OF inv] pool_invD(4)[OF inv] show ?thesis
    by (auto simp del: sum.lessThan_Suc simp: pool_wg_def pool_main_inv_def)
next
  case (w_recv i v vs)
  note b = pool_worker_bounds[OF inv w_recv(1)]
  from w_recv b pool_invD(4)[OF inv]
    sum_member_le[OF b(3), of "\<lambda>_. worker_active" "\<lambda>j. gors s (GWorker j)"]
  show ?thesis by (auto simp del: sum.lessThan_Suc simp: pool_wg_def pool_active_upd)
next
  case (w_end i)
  note b = pool_worker_bounds[OF inv w_end(1)]
  from w_end b pool_invD(4)[OF inv]
    sum_member_le[OF b(3), of "\<lambda>_. worker_active" "\<lambda>j. gors s (GWorker j)"]
  show ?thesis by (auto simp del: sum.lessThan_Suc simp: pool_wg_def pool_active_upd)
next
  case (w_send i job)
  note b = pool_worker_bounds[OF inv w_send(1)]
  from w_send b pool_invD(4)[OF inv]
    sum_member_le[OF b(3), of "\<lambda>_. worker_active" "\<lambda>j. gors s (GWorker j)"]
  show ?thesis by (auto simp del: sum.lessThan_Suc simp: pool_wg_def pool_active_upd)
next
  case (w_done i)
  note b = pool_worker_bounds[OF inv w_done(1)]
  from w_done b pool_invD(4)[OF inv]
    sum_member_le[OF b(3), of "\<lambda>_. worker_active" "\<lambda>j. gors s (GWorker j)"]
  show ?thesis by (auto simp del: sum.lessThan_Suc simp: pool_wg_def pool_active_upd)
qed

lemma pool_tr_count:
  assumes inv: "pool_inv J W s" and tr: "pool_tr s s'"
  shows "pool_count W s'"
  using tr
proof (cases rule: pool_tr.cases)
  case (p_add i W' J')
  with pool_invD(5)[OF inv] show ?thesis by (auto simp del: sum.lessThan_Suc simp: pool_count_def)
next
  case (p_go i W' J')
  with pool_invD(2)[OF inv] have i: "1 \<le> i" "i \<le> W" "W' = W" "i < Suc W"
    by (auto simp: pool_main_inv_def)
  from p_go i pool_invD(5)[OF inv]
    sum_member_le[OF i(4), of "\<lambda>_. worker_holding" "\<lambda>j. gors s (GWorker j)"]
  show ?thesis
    by (auto simp del: sum.lessThan_Suc simp: pool_count_def pool_holding_upd)
next
  case (p_send j J')
  with pool_invD(5)[OF inv] show ?thesis by (auto simp del: sum.lessThan_Suc simp: pool_count_def)
next
  case p_close_jobs
  with pool_invD(5)[OF inv] show ?thesis by (auto simp del: sum.lessThan_Suc simp: pool_count_def)
next
  case p_wait
  with pool_invD(5)[OF inv] show ?thesis by (auto simp del: sum.lessThan_Suc simp: pool_count_def)
next
  case p_close_results
  with pool_invD(5)[OF inv] show ?thesis by (auto simp del: sum.lessThan_Suc simp: pool_count_def)
next
  case (p_recv v vs)
  with pool_invD(5)[OF inv] show ?thesis by (auto simp del: sum.lessThan_Suc simp: pool_count_def)
next
  case p_end
  with pool_invD(5)[OF inv] show ?thesis by (auto simp del: sum.lessThan_Suc simp: pool_count_def)
next
  case (p_print c v)
  with pool_invD(5)[OF inv] show ?thesis by (auto simp del: sum.lessThan_Suc simp: pool_count_def)
next
  case (w_recv i v vs)
  note b = pool_worker_bounds[OF inv w_recv(1)]
  from w_recv b pool_invD(5)[OF inv]
    sum_member_le[OF b(3), of "\<lambda>_. worker_holding" "\<lambda>j. gors s (GWorker j)"]
  show ?thesis by (auto simp del: sum.lessThan_Suc simp: pool_count_def pool_holding_upd)
next
  case (w_end i)
  note b = pool_worker_bounds[OF inv w_end(1)]
  from w_end b pool_invD(5)[OF inv]
    sum_member_le[OF b(3), of "\<lambda>_. worker_holding" "\<lambda>j. gors s (GWorker j)"]
  show ?thesis by (auto simp del: sum.lessThan_Suc simp: pool_count_def pool_holding_upd)
next
  case (w_send i job)
  note b = pool_worker_bounds[OF inv w_send(1)]
  from w_send b pool_invD(5)[OF inv]
    sum_member_le[OF b(3), of "\<lambda>_. worker_holding" "\<lambda>j. gors s (GWorker j)"]
  show ?thesis by (auto simp del: sum.lessThan_Suc simp: pool_count_def pool_holding_upd)
next
  case (w_done i)
  note b = pool_worker_bounds[OF inv w_done(1)]
  from w_done b pool_invD(5)[OF inv]
    sum_member_le[OF b(3), of "\<lambda>_. worker_holding" "\<lambda>j. gors s (GWorker j)"]
  show ?thesis by (auto simp del: sum.lessThan_Suc simp: pool_count_def pool_holding_upd)
qed

lemma pool_tr_inv:
  assumes inv: "pool_inv J W s" and tr: "pool_tr s s'"
  shows "pool_inv J W s'"
  unfolding pool_inv_def
  using pool_tr_base[OF inv tr] pool_tr_main[OF inv tr] pool_tr_worker[OF inv tr]
    pool_tr_wg[OF inv tr] pool_tr_count[OF inv tr] pool_tr_chan[OF inv tr]
  by blast

lemma pool_step_inv:
  assumes "pool_inv J W s" "step s l = Some s'"
  shows "pool_inv J W s'"
  using pool_tr_inv[OF assms(1) pool_step_tr[OF assms]] .

lemma pool_reach:
  assumes "exec ls (pool J W) = Some s"
  shows "pool_inv J W s"
  using assms pool_inv_init pool_step_inv by (rule exec_invariant)

lemma worker_active_cases:
  assumes "worker_active st \<noteq> 0"
  obtains i where "st = Some (worker_range i)" | i job where "st = Some (worker_send i job)"
    | i where "st = Some (worker_done i)"
proof (cases st)
  case None
  with assms show ?thesis by simp
next
  case (Some a)
  with assms that show ?thesis by (cases a) auto
qed

lemma pool_progress:
  assumes inv: "pool_inv J W s" and al: "alive s"
  shows "\<exists>l s'. step s l = Some s'"
proof -
  from pool_main_obtain[OF inv] obtain m where m: "gors s GMain = Some m"
    "pool_main_ok J W (chans s Jobs) (chans s Results) (printed s) (wg s) m" .
  from inv m(1) show ?thesis
  proof (cases rule: pool_who_cases)
    case (main_add i)
    with m show ?thesis by (auto intro: can_add[OF al])
  next
    case (main_go i)
    with pool_invD(3)[OF inv, of i] m have "gors s (GWorker i) = None"
      by (auto simp: pool_worker_inv_def split: option.splits)
    with m main_go show ?thesis by (auto intro: can_go[OF al])
  next
    case (main_send j)
    with m pool_caps[OF inv] show ?thesis by (auto intro: can_send_buf[OF al])
  next
    case main_close_jobs
    with m show ?thesis by (auto intro: can_close[OF al])
  next
    case main_close_results
    with m show ?thesis by (auto intro: can_close[OF al])
  next
    case main_range
    with m show ?thesis by (auto intro: can_recv_closed[OF al])
  next
    case (main_print v)
    with m show ?thesis by (auto intro: can_print[OF al])
  next
    case main_exit
    with m al show ?thesis by (simp add: alive_def)
  next
    case main_wait
    with m have mw: "gors s GMain = Some pool_wait" and cj: "closed (chans s Jobs)" by auto
    show ?thesis
    proof (cases "wg s = 0")
      case True
      with mw show ?thesis by (auto intro: can_wait[OF al])
    next
      case False
      with pool_invD(4)[OF inv] mw
      have "(\<Sum>i<Suc W. worker_active (gors s (GWorker i))) \<noteq> 0"
        by (simp add: pool_wg_def del: sum.lessThan_Suc)
      then obtain i where i: "i < Suc W" "worker_active (gors s (GWorker i)) \<noteq> 0"
        by (rule sum_pos_member)
      from i(2) show ?thesis
      proof (cases rule: worker_active_cases)
        case (1 i')
        with cj show ?thesis by (auto intro: can_recv_closed[OF al])
      next
        case (2 i' job)
        from pool_result_room[OF inv 2] pool_caps[OF inv] 2 show ?thesis
          by (auto intro: can_send_buf[OF al])
      next
        case (3 i')
        then show ?thesis by (auto intro: can_done[OF al])
      qed
    qed
  qed (use m in auto)
qed

lemmas pool_mu_upd = sum_upd1_eq[where F = "\<lambda>_. worker_mu"]

lemma pool_tr_mu:
  assumes inv: "pool_inv J W s" and tr: "pool_tr s s'"
  shows "Suc (pool_mu W s') = pool_mu W s"
  using tr
proof (cases rule: pool_tr.cases)
  case (p_add i W' J')
  with pool_invD(2)[OF inv] show ?thesis
    by (auto simp del: sum.lessThan_Suc simp: pool_mu_def pool_main_inv_def)
next
  case (p_go i W' J')
  with pool_invD(2)[OF inv] have i: "1 \<le> i" "i \<le> W" "W' = W" "J' = J" "i < Suc W"
    "buf (chans s Jobs) = []" "buf (chans s Results) = []"
    by (auto simp: pool_main_inv_def)
  have nx: "Suc (Suc (Suc (pool_main_mu (Some (pool_workers (Suc i) W J))))) =
      pool_main_mu (Some (pool_go i W J))"
    using i(1,2) by (auto simp: pool_workers_def pool_jobs_def Suc_diff_le)
  from p_go i sum_member_le[OF i(5), of "\<lambda>_. worker_mu" "\<lambda>j. gors s (GWorker j)"]
  show ?thesis
    using nx by (auto simp del: sum.lessThan_Suc pool_main_mu.simps simp: pool_mu_def pool_mu_upd)
next
  case (p_send j J')
  with pool_invD(2)[OF inv] have j: "1 \<le> j" "j \<le> J" "J' = J" by (auto simp: pool_main_inv_def)
  have nx: "pool_main_mu (Some (pool_jobs (Suc j) J)) + 5 = pool_main_mu (Some (pool_send j J))"
    using j(1,2) by (auto simp: pool_jobs_def Suc_diff_le)
  from p_send j show ?thesis
    using nx by (auto simp del: sum.lessThan_Suc pool_main_mu.simps simp: pool_mu_def)
next
  case p_close_jobs
  then show ?thesis by (auto simp del: sum.lessThan_Suc simp: pool_mu_def)
next
  case p_wait
  then show ?thesis by (auto simp del: sum.lessThan_Suc simp: pool_mu_def)
next
  case p_close_results
  then show ?thesis by (auto simp del: sum.lessThan_Suc simp: pool_mu_def)
next
  case (p_recv v vs)
  then show ?thesis by (auto simp del: sum.lessThan_Suc simp: pool_mu_def)
next
  case p_end
  then show ?thesis by (auto simp del: sum.lessThan_Suc simp: pool_mu_def)
next
  case (p_print c v)
  then show ?thesis by (auto simp del: sum.lessThan_Suc simp: pool_mu_def)
next
  case (w_recv i v vs)
  note b = pool_worker_bounds[OF inv w_recv(1)]
  from w_recv b sum_member_le[OF b(3), of "\<lambda>_. worker_mu" "\<lambda>j. gors s (GWorker j)"]
  show ?thesis by (auto simp del: sum.lessThan_Suc simp: pool_mu_def pool_mu_upd)
next
  case (w_end i)
  note b = pool_worker_bounds[OF inv w_end(1)]
  from w_end b sum_member_le[OF b(3), of "\<lambda>_. worker_mu" "\<lambda>j. gors s (GWorker j)"]
  show ?thesis by (auto simp del: sum.lessThan_Suc simp: pool_mu_def pool_mu_upd)
next
  case (w_send i job)
  note b = pool_worker_bounds[OF inv w_send(1)]
  from w_send b sum_member_le[OF b(3), of "\<lambda>_. worker_mu" "\<lambda>j. gors s (GWorker j)"]
  show ?thesis by (auto simp del: sum.lessThan_Suc simp: pool_mu_def pool_mu_upd)
next
  case (w_done i)
  note b = pool_worker_bounds[OF inv w_done(1)]
  from w_done b sum_member_le[OF b(3), of "\<lambda>_. worker_mu" "\<lambda>j. gors s (GWorker j)"]
  show ?thesis by (auto simp del: sum.lessThan_Suc simp: pool_mu_def pool_mu_upd)
qed

lemma pool_step_mu:
  assumes "pool_inv J W s" "step s l = Some s'"
  shows "pool_inv J W s' \<and> Suc (pool_mu W s') = pool_mu W s"
  using pool_step_inv[OF assms] pool_tr_mu[OF assms(1) pool_step_tr[OF assms]] by simp



lemma pool_stuck_exited:
  assumes inv: "pool_inv J W s" and st: "stuck s"
  shows "gors s GMain = Some Exited" "crashed s = None"
proof -
  from pool_invD(1)[OF inv] show c: "crashed s = None" by (simp add: pool_base_def)
  from pool_progress[OF inv] st have "\<not> alive s" by (auto simp: stuck_def)
  with c show "gors s GMain = Some Exited" by (simp add: alive_def)
qed

lemma pool_can_finish:
  assumes "exec ls (pool J W) = Some s"
  shows "\<exists>ms t. exec ms s = Some t \<and> stuck t"
proof -
  have "\<exists>ms t. exec ms s = Some t \<and> \<not> alive t"
  proof (rule run_to_end[where I = "pool_inv J W" and m = "pool_mu W"])
    show "pool_inv J W s" by (rule pool_reach[OF assms])
  qed (auto intro: pool_progress dest: pool_step_mu)
  with not_alive_stuck show ?thesis by blast
qed

subsection \<open>The fan-out, fan-in program\<close>

lemma fan_invD:
  assumes "fan_inv nums N s"
  shows "fan_base N s" "fan_main_inv nums N s" "fan_gen_inv nums s" "fan_dist_inv N s"
    "fan_lane_inv N s k" "fan_stage_inv N s k" "fin_fwd WOut N s k" "fin_wg N s"
    "fin_closer s" "fin_senders N s" "fan_chan_inv s k"
  using assms by (simp_all add: fan_inv_def)

lemma fan_main_okD:
  "fan_main_ok nums N pr ch m \<Longrightarrow>
     m = fan_main nums N \<or> (\<exists>i. i < N \<and> m = fan_worker i N) \<or> m = fan_dist N \<or>
     (\<exists>j. j < N \<and> m = fanIn_add j (WOut j) (map WOut [Suc j..<N])) \<or>
     (\<exists>j. j < N \<and> m = fanIn_go j (WOut j) (map WOut [Suc j..<N])) \<or>
     m = fanIn_closer \<or> m = consume_range Merged \<or> (\<exists>v. m = consume_print Merged v) \<or>
     m = Exited"
  by (cases m) auto

lemma dist_okD:
  "dist_ok N inp st \<Longrightarrow>
     (\<exists>i. st = dist_range N i) \<or> (\<exists>i n. st = dist_send N i n) \<or>
     (\<exists>j. j < N \<and> st = dist_close N j) \<or> st = Exited"
  by (cases st) auto

lemma fan_stage_okD:
  "fan_stage_ok k a b st \<Longrightarrow>
     (st = stage_range fan_square (Lane k) (WOut k) \<and> \<not> closed b) \<or>
     (\<exists>n. st = stage_send fan_square (Lane k) (WOut k) n \<and> \<not> closed b) \<or>
     (st = stage_close fan_square (Lane k) (WOut k) \<and> \<not> closed b \<and> closed a) \<or>
     (st = Exited \<and> closed b \<and> closed a)"
  by (cases st) auto

lemma fan_main_obtain:
  assumes "fan_inv nums N s"
  obtains m where "gors s GMain = Some m"
    "fan_main_ok nums N (printed s) (chans s Merged) m"
  using fan_invD(2)[OF assms] by (auto simp: fan_main_inv_def split: option.splits)

lemma fan_pos: "fan_inv nums N s \<Longrightarrow> 0 < N"
  by (simp add: fan_inv_def fan_base_def)

lemma fan_main_started:
  assumes "fan_inv nums N s"
  shows "fwds_started N (gors s GMain) \<le> N" "stages_started N (gors s GMain) \<le> N"
    "dist_started (gors s GMain) \<Longrightarrow> stages_started N (gors s GMain) = N"
    "0 < fwds_started N (gors s GMain) \<or> 0 < pending_add (gors s GMain)
       \<or> closer_started (gors s GMain) \<Longrightarrow> dist_started (gors s GMain)"
    "0 < stages_started N (gors s GMain) \<Longrightarrow> fan_gen_started (gors s GMain)"
proof -
  from fan_main_obtain[OF assms] obtain m where m: "gors s GMain = Some m"
    "fan_main_ok nums N (printed s) (chans s Merged) m" .
  from fan_main_okD[OF m(2)] m(1) fan_pos[OF assms]
  show "fwds_started N (gors s GMain) \<le> N" "stages_started N (gors s GMain) \<le> N"
    "dist_started (gors s GMain) \<Longrightarrow> stages_started N (gors s GMain) = N"
    "0 < fwds_started N (gors s GMain) \<or> 0 < pending_add (gors s GMain)
       \<or> closer_started (gors s GMain) \<Longrightarrow> dist_started (gors s GMain)"
    "0 < stages_started N (gors s GMain) \<Longrightarrow> fan_gen_started (gors s GMain)"
    by auto
qed

lemma fan_fwd_lt:
  assumes "fan_inv nums N s" "gors s (GFwd k) = Some st"
  shows "k < N"
  using fan_invD(7)[OF assms(1), of k] fan_main_started(1)[OF assms(1)] assms(2)
  by (simp add: fin_fwd_def)

lemma fan_stage_lt:
  assumes "fan_inv nums N s" "gors s (GStage k) = Some st"
  shows "k < N"
  using fan_invD(6)[OF assms(1), of k] fan_main_started(2)[OF assms(1)] assms(2)
  by (simp add: fan_stage_inv_def)

lemma fan_open_while_active:
  assumes inv: "fan_inv nums N s" and "gors s (GFwd k) = Some st" "st \<noteq> Exited"
  shows "\<not> closed (chans s Merged)" "wg s \<noteq> 0"
proof -
  from fan_invD(7)[OF inv, of k] assms(2)
  have ok: "fwd_ok (WOut k) (chans s (WOut k)) (proj (GFwd k) (sent (chans s Merged))) st"
    by (simp add: fin_fwd_def)
  from fwd_okD[OF ok] assms(2,3) have "fwd_active (gors s (GFwd k)) = 1" by auto
  from fwd_active_wg[OF fan_invD(8)[OF inv] fan_fwd_lt[OF inv assms(2)] this]
  show w: "wg s \<noteq> 0" .
  from fan_invD(9)[OF inv] w show "\<not> closed (chans s Merged)"
    by (cases "gors s GCloser") (auto simp: fin_closer_def dest!: closer_okD)
qed

lemma fan_lanes_open:
  assumes inv: "fan_inv nums N s" and d: "gors s GDist = Some (dist_send N' i n)"
  shows "\<not> closed (chans s (Lane k))"
  using fan_invD(5)[OF inv, of k] d by (simp add: fan_lane_inv_def)

lemma fan_next_lane_open:
  assumes inv: "fan_inv nums N s" and d: "gors s GDist = Some (dist_close N' j)"
  shows "\<not> closed (chans s (Lane j))"
  using fan_invD(5)[OF inv, of j] d by (simp add: fan_lane_inv_def)

lemma fan_who_cases [consumes 2, case_names main_start main_worker main_dist main_add main_go
    main_closer main_range main_print main_exit gen gen_exit dist_range dist_send dist_close
    dist_exit stage_range stage_send stage_close stage_exit fwd_range fwd_send fwd_done fwd_exit
    closer_wait closer_close closer_exit]:
  assumes "fan_inv nums N s" "gors s g = Some st"
  obtains
    (main_start) "g = GMain" "st = fan_main nums N"
  | (main_worker) i where "g = GMain" "i < N" "st = fan_worker i N"
  | (main_dist) "g = GMain" "st = fan_dist N"
  | (main_add) j where "g = GMain" "j < N" "st = fanIn_add j (WOut j) (map WOut [Suc j..<N])"
  | (main_go) j where "g = GMain" "j < N" "st = fanIn_go j (WOut j) (map WOut [Suc j..<N])"
  | (main_closer) "g = GMain" "st = fanIn_closer"
  | (main_range) "g = GMain" "st = consume_range Merged"
  | (main_print) v where "g = GMain" "st = consume_print Merged v"
  | (main_exit) "g = GMain" "st = Exited"
  | (gen) rest where "g = GGen 0" "st = generator_loop rest Input" "\<not> closed (chans s Input)"
  | (gen_exit) "g = GGen 0" "st = Exited"
  | (dist_range) i where "g = GDist" "st = dist_range N i"
  | (dist_send) i n where "g = GDist" "st = dist_send N i n" "0 < N"
      "\<not> closed (chans s (Lane (i mod N)))"
  | (dist_close) j where "g = GDist" "st = dist_close N j" "j < N"
      "\<not> closed (chans s (Lane j))"
  | (dist_exit) "g = GDist" "st = Exited"
  | (stage_range) k where "g = GStage k" "st = stage_range fan_square (Lane k) (WOut k)"
  | (stage_send) k n where "g = GStage k" "st = stage_send fan_square (Lane k) (WOut k) n"
      "\<not> closed (chans s (WOut k))"
  | (stage_close) k where "g = GStage k" "st = stage_close fan_square (Lane k) (WOut k)"
      "\<not> closed (chans s (WOut k))"
  | (stage_exit) k where "g = GStage k" "st = Exited"
  | (fwd_range) k where "g = GFwd k" "st = fwd_range (WOut k)" "\<not> closed (chans s Merged)"
      "wg s \<noteq> 0"
  | (fwd_send) k v where "g = GFwd k" "st = fwd_send (WOut k) v" "\<not> closed (chans s Merged)"
      "wg s \<noteq> 0"
  | (fwd_done) k where "g = GFwd k" "st = fwd_done" "\<not> closed (chans s Merged)" "wg s \<noteq> 0"
  | (fwd_exit) k where "g = GFwd k" "st = Exited"
  | (closer_wait) "g = GCloser" "st = closer_wait" "\<not> closed (chans s Merged)"
  | (closer_close) "g = GCloser" "st = closer_close" "\<not> closed (chans s Merged)"
  | (closer_exit) "g = GCloser" "st = Exited"
proof (cases g)
  case GMain
  with assms fan_invD(2)[OF assms(1)]
  have "fan_main_ok nums N (printed s) (chans s Merged) st"
    by (simp add: fan_main_inv_def)
  from fan_main_okD[OF this] GMain show ?thesis
    using main_start main_worker main_dist main_add main_go main_closer main_range main_print
      main_exit by blast
next
  case (GGen k)
  show ?thesis
  proof (cases k)
    case 0
    with GGen assms fan_invD(3)[OF assms(1)]
    have "merge_gen_ok nums Input (chans s Input) st"
      by (simp add: fan_gen_inv_def)
    from merge_gen_okD[OF this] GGen 0 show ?thesis
      using gen gen_exit by blast
  next
    case (Suc k')
    with GGen assms fan_invD(1)[OF assms(1)] show ?thesis by (simp add: fan_base_def)
  qed
next
  case GDist
  with assms fan_invD(4)[OF assms(1)]
  have "dist_ok N (chans s Input) st"
    by (simp add: fan_dist_inv_def)
  from dist_okD[OF this] show ?thesis
  proof (elim disjE exE conjE)
    fix i n assume "st = dist_send N i n"
    with fan_lanes_open[OF assms(1), of N i n "i mod N"] fan_pos[OF assms(1)] assms(2) GDist
    show ?thesis by (auto intro: dist_send)
  next
    fix j assume "j < N" "st = dist_close N j"
    with fan_next_lane_open[OF assms(1), of N j] assms(2) GDist
    show ?thesis by (auto intro: dist_close)
  qed (use GDist in \<open>auto intro: dist_range dist_exit\<close>)
next
  case (GStage k)
  with assms fan_invD(6)[OF assms(1), of k]
  have "fan_stage_ok k (chans s (Lane k)) (chans s (WOut k)) st"
    by (simp add: fan_stage_inv_def)
  from fan_stage_okD[OF this] GStage show ?thesis
    using stage_range stage_send stage_close stage_exit by blast
next
  case (GFwd k)
  with assms fan_invD(7)[OF assms(1), of k]
  have "fwd_ok (WOut k) (chans s (WOut k)) (proj (GFwd k) (sent (chans s Merged))) st"
    by (simp add: fin_fwd_def)
  from fwd_okD[OF this] GFwd fan_open_while_active[OF assms(1), of k st] assms(2)
  show ?thesis
    using fwd_range fwd_send fwd_done fwd_exit by blast
next
  case GCloser
  with assms fan_invD(9)[OF assms(1)]
  have "closer_ok (closer_started (gors s GMain)) (wg s) (chans s Merged) (Some st)"
    by (simp add: fin_closer_def)
  from closer_okD[OF this] GCloser show ?thesis
    using closer_wait closer_close closer_exit by blast
next
  case (GWorker k)
  with assms fan_invD(1)[OF assms(1)] show ?thesis by (simp add: fan_base_def)
qed

lemma fan_unbuffered: "fan_inv nums N s \<Longrightarrow> cap (chans s c) = 0 \<and> buf (chans s c) = []"
  by (simp add: fan_inv_def fan_base_def)

lemma dist_close_next_simps:
  "k < N \<Longrightarrow> dist_close_next N k = dist_close N k"
  "\<not> k < N \<Longrightarrow> dist_close_next N k = Exited"
  by (simp_all add: dist_close_next_def)

lemma fan_step_tr:
  assumes inv: "fan_inv nums N s" and st: "step s l = Some s'"
  shows "fan_tr s s'"
  using st
proof (cases rule: step_cases)
  case (send g st c v k)
  with fan_unbuffered[OF inv, of c] show ?thesis by simp
next
  case (send_closed g st c v k)
  from inv send_closed(2) show ?thesis
    by (cases rule: fan_who_cases)
       (use send_closed in \<open>auto simp: instr_generator split: list.splits\<close>)
next
  case (recv g st c k v vs)
  with fan_unbuffered[OF inv, of c] show ?thesis by simp
next
  case (recv_closed g st c k)
  from inv recv_closed(2) show ?thesis
    by (cases rule: fan_who_cases)
       (use recv_closed in \<open>auto simp: instr_generator split: list.splits intro: fan_tr.intros\<close>)
next
  case (close g st c k)
  from inv close(2) show ?thesis
    by (cases rule: fan_who_cases)
       (use close in \<open>auto simp: instr_generator split: list.splits intro: fan_tr.intros\<close>)
next
  case (close_closed g st c k)
  from inv close_closed(2) show ?thesis
    by (cases rule: fan_who_cases)
       (use close_closed in \<open>auto simp: instr_generator split: list.splits\<close>)
next
  case (wg_add g st k)
  from inv wg_add(2) show ?thesis
    by (cases rule: fan_who_cases)
       (use wg_add in \<open>auto simp: instr_generator split: list.splits intro: fan_tr.intros\<close>)
next
  case (wg_done g st k)
  from inv wg_done(2) show ?thesis
    by (cases rule: fan_who_cases)
       (use wg_done in \<open>auto simp: instr_generator split: list.splits intro: fan_tr.intros\<close>)
next
  case (wg_neg g st k)
  from inv wg_neg(2) show ?thesis
    by (cases rule: fan_who_cases)
       (use wg_neg in \<open>auto simp: instr_generator split: list.splits\<close>)
next
  case (wg_wait g st k)
  from inv wg_wait(2) show ?thesis
    by (cases rule: fan_who_cases)
       (use wg_wait in \<open>auto simp: instr_generator split: list.splits intro: fan_tr.intros\<close>)
next
  case (spawn g st g' st' k)
  from inv spawn(2) show ?thesis
    by (cases rule: fan_who_cases)
       (use spawn in \<open>auto simp: instr_generator split: list.splits intro: fan_tr.intros\<close>)
next
  case (println g st v k)
  from inv println(2) show ?thesis
    by (cases rule: fan_who_cases)
       (use println in \<open>auto simp: instr_generator split: list.splits intro: fan_tr.intros\<close>)
next
  case (failure g st f k)
  from inv failure(2) show ?thesis
    by (cases rule: fan_who_cases)
       (use failure in \<open>auto simp: instr_generator split: list.splits\<close>)
next
  case (sync g h sg sh c v kg kh)
  from inv sync(2) show ?thesis
  proof (cases rule: fan_who_cases)
    case (gen rest)
    from inv sync(3) show ?thesis
      by (cases rule: fan_who_cases)
         (use sync gen in \<open>auto simp: instr_generator split: list.splits intro: fan_tr.intros\<close>)
  next
    case (dist_send i n)
    from inv sync(3) show ?thesis
      by (cases rule: fan_who_cases)
         (use sync dist_send in \<open>auto simp: instr_generator split: list.splits intro: fan_tr.intros\<close>)
  next
    case (stage_send k n)
    from inv sync(3) show ?thesis
      by (cases rule: fan_who_cases)
         (use sync stage_send in \<open>auto simp: instr_generator split: list.splits intro: fan_tr.intros\<close>)
  next
    case (fwd_send k v)
    from inv sync(3) show ?thesis
      by (cases rule: fan_who_cases)
         (use sync fwd_send in \<open>auto simp: instr_generator split: list.splits intro: fan_tr.intros\<close>)
  qed (use sync in \<open>auto simp: instr_generator split: list.splits\<close>)
qed

lemma deal_append:
  "deal N k i (xs @ ys) = deal N k i xs @ deal N k (i + length xs) ys"
  by (induction xs arbitrary: i) simp_all

lemma deal_snoc:
  "deal N k 0 (xs @ [n]) = deal N k 0 xs @ (if length xs mod N = k then [n] else [])"
  by (simp add: deal_append)

lemma fan_workers_0: "0 < N \<Longrightarrow> fan_workers 0 N = fan_worker 0 N"
  by (simp add: fan_workers_def)

lemma fan_workers_Suc:
  "i < N \<Longrightarrow> fan_workers (Suc i) N = (if Suc i < N then fan_worker (Suc i) N else fan_dist N)"
  by (simp add: fan_workers_def)

lemma fan_fanIn_0:
  "0 < N \<Longrightarrow> fanIn 0 (map WOut [0..<N]) = fanIn_add 0 (WOut 0) (map WOut [Suc 0..<N])"
  using fanIn_0[of WOut N] by simp

lemma fan_inv_init: "0 < N \<Longrightarrow> fan_inv nums N (fan nums N)"
  by (simp add: fan_inv_def fan_base_def fan_main_inv_def fan_gen_inv_def fan_dist_inv_def
      fan_lane_inv_def fan_stage_inv_def fan_chan_inv_def fin_fwd_def fin_wg_def fin_closer_def
      fin_senders_def fan_def boot_def new_chan_def)

lemma fan_tr_base:
  assumes inv: "fan_inv nums N s" and tr: "fan_tr s s'"
  shows "fan_base N s'"
  using tr fan_invD(1)[OF inv]
  by (cases rule: fan_tr.cases) (auto simp: fan_base_def)

lemma fan_tr_chan:
  assumes inv: "fan_inv nums N s" and tr: "fan_tr s s'"
  shows "fan_chan_inv s' j"
  using tr fan_invD(11)[OF inv, of j]
  by (cases rule: fan_tr.cases) (auto simp: fan_chan_inv_def)

lemma fan_tr_senders:
  assumes inv: "fan_inv nums N s" and tr: "fan_tr s s'"
  shows "fin_senders N s'"
  using tr
proof (cases rule: fan_tr.cases)
  case (f_fwd_to_main k c v)
  with fan_invD(10)[OF inv] fan_fwd_lt[OF inv f_fwd_to_main(1)] show ?thesis
    by (auto simp: fin_senders_def)
qed (use fan_invD(10)[OF inv] in \<open>auto simp: fin_senders_def\<close>)

lemma fan_main_ok_mono:
  "fan_main_ok nums N pr ch m \<Longrightarrow> sent ch' = sent ch \<Longrightarrow> (closed ch \<longrightarrow> closed ch') \<Longrightarrow>
   fan_main_ok nums N pr ch' m"
  by (cases m) (auto simp: vals_def)

lemma dist_ok_mono:
  "dist_ok N inp st \<Longrightarrow> vals inp' = vals inp \<Longrightarrow> (closed inp \<longrightarrow> closed inp') \<Longrightarrow>
   dist_ok N inp' st"
  by (cases st) auto

lemma fan_stage_ok_mono:
  "fan_stage_ok k a b st \<Longrightarrow> vals a' = vals a \<Longrightarrow> (closed a \<longrightarrow> closed a') \<Longrightarrow>
   fan_stage_ok k a' b st"
  by (cases st) auto

lemma lane_ok_inp:
  "lane_ok N k (inp\<lparr>closed := b, closers := cs\<rparr>) ln d = lane_ok N k inp ln d"
proof (cases d)
  case (Some st)
  then show ?thesis by (cases st) auto
qed simp

lemma fan_tr_main:
  assumes inv: "fan_inv nums N s" and tr: "fan_tr s s'"
  shows "fan_main_inv nums N s'"
  using tr
proof (cases rule: fan_tr.cases)
  case (f_gen nums' N')
  with fan_invD(2)[OF inv] fan_pos[OF inv] show ?thesis
    by (auto simp: fan_main_inv_def fan_workers_0)
next
  case (f_worker i N')
  with fan_invD(2)[OF inv] show ?thesis
    by (auto simp: fan_main_inv_def fan_workers_Suc)
next
  case (f_dist N')
  with fan_invD(2)[OF inv] fan_pos[OF inv] show ?thesis
    by (auto simp: fan_main_inv_def fan_fanIn_0)
next
  case (f_add j' c cs)
  with fan_invD(2)[OF inv] show ?thesis
    by (auto simp: fan_main_inv_def)
next
  case (f_go j' c cs)
  with fan_invD(2)[OF inv] show ?thesis
    by (auto simp: fan_main_inv_def fanIn_eq)
next
  case f_closer
  with fan_invD(2)[OF inv] show ?thesis
    by (auto simp: fan_main_inv_def vals_Nil)
next
  case (f_gen_to_dist v rest N' i)
  with fan_invD(2)[OF inv] show ?thesis
    by (auto simp: fan_main_inv_def split: option.splits)
next
  case f_gen_close
  with fan_invD(2)[OF inv] show ?thesis
    by (auto simp: fan_main_inv_def split: option.splits)
next
  case (f_dist_end N' i)
  with fan_invD(2)[OF inv] show ?thesis
    by (auto simp: fan_main_inv_def split: option.splits)
next
  case (f_dist_to_stage N' i n f b)
  with fan_invD(2)[OF inv] show ?thesis
    by (auto simp: fan_main_inv_def split: option.splits)
next
  case (f_dist_close N' j')
  with fan_invD(2)[OF inv] show ?thesis
    by (auto simp: fan_main_inv_def split: option.splits)
next
  case (f_stage_end k' f a b)
  with fan_invD(2)[OF inv] show ?thesis
    by (auto simp: fan_main_inv_def split: option.splits)
next
  case (f_stage_close k' f a)
  with fan_invD(2)[OF inv] show ?thesis
    by (auto simp: fan_main_inv_def split: option.splits)
next
  case (f_stage_to_fwd k' f a n)
  with fan_invD(2)[OF inv] show ?thesis
    by (auto simp: fan_main_inv_def split: option.splits)
next
  case (f_fwd_end k' c)
  with fan_invD(2)[OF inv] show ?thesis
    by (auto simp: fan_main_inv_def split: option.splits)
next
  case (f_fwd_done k')
  with fan_invD(2)[OF inv] show ?thesis
    by (auto simp: fan_main_inv_def split: option.splits)
next
  case (f_fwd_to_main k' c v)
  with fan_invD(2)[OF inv] show ?thesis
    by (auto simp: fan_main_inv_def)
next
  case f_wait
  with fan_invD(2)[OF inv] show ?thesis
    by (auto simp: fan_main_inv_def split: option.splits)
next
  case f_close
  with fan_invD(2)[OF inv] show ?thesis
    by (auto simp: fan_main_inv_def split: option.splits elim!: fan_main_ok_mono)
next
  case (f_main_end c)
  with fan_invD(2)[OF inv] show ?thesis
    by (auto simp: fan_main_inv_def)
next
  case (f_main_print c v)
  with fan_invD(2)[OF inv] show ?thesis
    by (auto simp: fan_main_inv_def)
qed

lemma fan_started_simps [simp]:
  "fan_gen_started (Some (fan_workers i N))"
  "fan_gen_started (Some (fanIn j cs))"
  "\<not> dist_started (Some (fan_workers i N))"
  "dist_started (Some (fanIn j cs))"
  "stages_started N (Some (fanIn j cs)) = N"
  "fwds_started N (Some (fan_workers i M)) = 0"
  "pending_add (Some (fan_workers i M)) = 0"
  "pending_add (Some (fanIn j cs)) = 0"
  "\<not> closer_started (Some (fan_workers i M))"
  "\<not> closer_started (Some (fanIn j cs))"
  by (simp_all add: fan_workers_def fanIn_def split: list.splits)

lemma fan_main_facts:
  assumes inv: "fan_inv nums N s"
  shows "gors s GMain = Some (fan_main nums' N') \<Longrightarrow> nums' = nums \<and> N' = N"
    "gors s GMain = Some (fan_worker i N') \<Longrightarrow> N' = N \<and> i < N"
    "gors s GMain = Some (fan_dist N') \<Longrightarrow> N' = N"
    "gors s GMain = Some (fanIn_add j c cs) \<Longrightarrow> j < N \<and> c = WOut j \<and> cs = map WOut [Suc j..<N]"
    "gors s GMain = Some (fanIn_go j c cs) \<Longrightarrow> j < N \<and> c = WOut j \<and> cs = map WOut [Suc j..<N]"
    "gors s GMain = Some (consume_range c) \<Longrightarrow> c = Merged"
    "gors s GMain = Some (consume_print c v) \<Longrightarrow> c = Merged"
  using fan_invD(2)[OF inv] by (auto simp: fan_main_inv_def)

lemma fan_dist_facts:
  assumes inv: "fan_inv nums N s"
  shows "gors s GDist = Some (dist_range N' i) \<Longrightarrow> N' = N \<and> i = length (vals (chans s Input))"
    "gors s GDist = Some (dist_send N' i n) \<Longrightarrow> N' = N \<and> Suc i = length (vals (chans s Input))"
    "gors s GDist = Some (dist_close N' j) \<Longrightarrow> N' = N \<and> j < N \<and> closed (chans s Input)"
    "gors s GDist = Some st \<Longrightarrow> dist_started (gors s GMain)"
    "gors s GDist = None \<Longrightarrow> \<not> dist_started (gors s GMain) \<and> sent (chans s Input) = []"
  using fan_invD(4)[OF inv] by (auto simp: fan_dist_inv_def)

lemma fan_tr_gen:
  assumes inv: "fan_inv nums N s" and tr: "fan_tr s s'"
  shows "fan_gen_inv nums s'"
  using tr
proof (cases rule: fan_tr.cases)
  case (f_gen nums' N')
  with fan_invD(3)[OF inv] fan_main_facts(1)[OF inv f_gen(1)] show ?thesis
    by (auto simp: fan_gen_inv_def vals_Nil split: option.splits)
next
  case (f_worker i N')
  with fan_invD(3)[OF inv] show ?thesis
    by (auto simp: fan_gen_inv_def split: option.splits)
next
  case (f_dist N')
  with fan_invD(3)[OF inv] show ?thesis
    by (auto simp: fan_gen_inv_def split: option.splits)
next
  case (f_add j' c cs)
  with fan_invD(3)[OF inv] show ?thesis
    by (auto simp: fan_gen_inv_def split: option.splits)
next
  case (f_go j' c cs)
  with fan_invD(3)[OF inv] show ?thesis
    by (auto simp: fan_gen_inv_def split: option.splits)
next
  case f_closer
  with fan_invD(3)[OF inv] show ?thesis
    by (auto simp: fan_gen_inv_def split: option.splits)
next
  case (f_gen_to_dist v rest N' i)
  with fan_invD(3)[OF inv] show ?thesis
    by (auto simp: fan_gen_inv_def split: option.splits)
next
  case f_gen_close
  with fan_invD(3)[OF inv] show ?thesis
    by (auto simp: fan_gen_inv_def split: option.splits)
next
  case (f_dist_end N' i)
  with fan_invD(3)[OF inv] show ?thesis
    by (auto simp: fan_gen_inv_def split: option.splits)
next
  case (f_dist_to_stage N' i n f b)
  with fan_invD(3)[OF inv] show ?thesis
    by (auto simp: fan_gen_inv_def split: option.splits)
next
  case (f_dist_close N' j')
  with fan_invD(3)[OF inv] show ?thesis
    by (auto simp: fan_gen_inv_def split: option.splits)
next
  case (f_stage_end k' f a b)
  with fan_invD(3)[OF inv] show ?thesis
    by (auto simp: fan_gen_inv_def split: option.splits)
next
  case (f_stage_close k' f a)
  with fan_invD(3)[OF inv] show ?thesis
    by (auto simp: fan_gen_inv_def split: option.splits)
next
  case (f_stage_to_fwd k' f a n)
  with fan_invD(3)[OF inv] show ?thesis
    by (auto simp: fan_gen_inv_def split: option.splits)
next
  case (f_fwd_end k' c)
  with fan_invD(3)[OF inv] show ?thesis
    by (auto simp: fan_gen_inv_def split: option.splits)
next
  case (f_fwd_done k')
  with fan_invD(3)[OF inv] show ?thesis
    by (auto simp: fan_gen_inv_def split: option.splits)
next
  case (f_fwd_to_main k' c v)
  with fan_invD(3)[OF inv] show ?thesis
    by (auto simp: fan_gen_inv_def split: option.splits)
next
  case f_wait
  with fan_invD(3)[OF inv] show ?thesis
    by (auto simp: fan_gen_inv_def split: option.splits)
next
  case f_close
  with fan_invD(3)[OF inv] show ?thesis
    by (auto simp: fan_gen_inv_def split: option.splits)
next
  case (f_main_end c)
  with fan_invD(3)[OF inv] show ?thesis
    by (auto simp: fan_gen_inv_def split: option.splits)
next
  case (f_main_print c v)
  with fan_invD(3)[OF inv] show ?thesis
    by (auto simp: fan_gen_inv_def split: option.splits)
qed

lemma fan_tr_dist:
  assumes inv: "fan_inv nums N s" and tr: "fan_tr s s'"
  shows "fan_dist_inv N s'"
  using tr
proof (cases rule: fan_tr.cases)
  case (f_gen nums' N')
  with fan_invD(4)[OF inv] show ?thesis
    by (auto simp: fan_dist_inv_def split: option.splits)
next
  case (f_worker i N')
  with fan_invD(4)[OF inv] show ?thesis
    by (auto simp: fan_dist_inv_def split: option.splits)
next
  case (f_dist N')
  with fan_invD(4)[OF inv] fan_main_facts(3)[OF inv f_dist(1)] show ?thesis
    by (auto simp: fan_dist_inv_def vals_Nil split: option.splits)
next
  case (f_add j' c cs)
  with fan_invD(4)[OF inv] show ?thesis
    by (auto simp: fan_dist_inv_def split: option.splits)
next
  case (f_go j' c cs)
  with fan_invD(4)[OF inv] show ?thesis
    by (auto simp: fan_dist_inv_def split: option.splits)
next
  case f_closer
  with fan_invD(4)[OF inv] show ?thesis
    by (auto simp: fan_dist_inv_def split: option.splits)
next
  case (f_gen_to_dist v rest N' i)
  with fan_invD(4)[OF inv] show ?thesis
    by (auto simp: fan_dist_inv_def split: option.splits)
next
  case f_gen_close
  with fan_invD(4)[OF inv] show ?thesis
    by (auto simp: fan_dist_inv_def split: option.splits elim!: dist_ok_mono)
next
  case (f_dist_end N' i)
  with fan_invD(4)[OF inv] fan_pos[OF inv] show ?thesis
    by (auto simp: fan_dist_inv_def dist_close_next_simps split: option.splits)
next
  case (f_dist_to_stage N' i n f b)
  with fan_invD(4)[OF inv] show ?thesis
    by (auto simp: fan_dist_inv_def split: option.splits)
next
  case (f_dist_close N' j')
  with fan_invD(4)[OF inv] show ?thesis
    by (cases "Suc j' < N") (auto simp: fan_dist_inv_def dist_close_next_simps split: option.splits)
next
  case (f_stage_end k' f a b)
  with fan_invD(4)[OF inv] show ?thesis
    by (auto simp: fan_dist_inv_def split: option.splits)
next
  case (f_stage_close k' f a)
  with fan_invD(4)[OF inv] show ?thesis
    by (auto simp: fan_dist_inv_def split: option.splits)
next
  case (f_stage_to_fwd k' f a n)
  with fan_invD(4)[OF inv] show ?thesis
    by (auto simp: fan_dist_inv_def split: option.splits)
next
  case (f_fwd_end k' c)
  with fan_invD(4)[OF inv] show ?thesis
    by (auto simp: fan_dist_inv_def split: option.splits)
next
  case (f_fwd_done k')
  with fan_invD(4)[OF inv] show ?thesis
    by (auto simp: fan_dist_inv_def split: option.splits)
next
  case (f_fwd_to_main k' c v)
  with fan_invD(4)[OF inv] show ?thesis
    by (auto simp: fan_dist_inv_def split: option.splits)
next
  case f_wait
  with fan_invD(4)[OF inv] show ?thesis
    by (auto simp: fan_dist_inv_def split: option.splits)
next
  case f_close
  with fan_invD(4)[OF inv] show ?thesis
    by (auto simp: fan_dist_inv_def split: option.splits)
next
  case (f_main_end c)
  with fan_invD(4)[OF inv] show ?thesis
    by (auto simp: fan_dist_inv_def split: option.splits)
next
  case (f_main_print c v)
  with fan_invD(4)[OF inv] show ?thesis
    by (auto simp: fan_dist_inv_def split: option.splits)
qed

lemma fan_tr_lane:
  assumes inv: "fan_inv nums N s" and tr: "fan_tr s s'"
  shows "fan_lane_inv N s' j"
  using tr
proof (cases rule: fan_tr.cases)
  case (f_gen nums' N')
  with fan_invD(5)[OF inv, of j] show ?thesis
    by (auto simp: fan_lane_inv_def)
next
  case (f_worker i N')
  with fan_invD(5)[OF inv, of j] show ?thesis
    by (auto simp: fan_lane_inv_def)
next
  case (f_dist N')
  with fan_invD(5)[OF inv, of j] fan_dist_facts(5)[OF inv f_dist(2)] show ?thesis
    by (auto simp: fan_lane_inv_def vals_Nil)
next
  case (f_add j' c cs)
  with fan_invD(5)[OF inv, of j] show ?thesis
    by (auto simp: fan_lane_inv_def)
next
  case (f_go j' c cs)
  with fan_invD(5)[OF inv, of j] show ?thesis
    by (auto simp: fan_lane_inv_def)
next
  case f_closer
  with fan_invD(5)[OF inv, of j] show ?thesis
    by (auto simp: fan_lane_inv_def)
next
  case (f_gen_to_dist v rest N' i)
  with fan_invD(5)[OF inv, of j] fan_dist_facts(1)[OF inv f_gen_to_dist(2)] show ?thesis
    by (auto simp: fan_lane_inv_def deal_snoc)
next
  case f_gen_close
  with fan_invD(5)[OF inv, of j] show ?thesis
    by (auto simp: fan_lane_inv_def lane_ok_inp)
next
  case (f_dist_end N' i)
  with fan_invD(5)[OF inv, of j] fan_dist_facts(1)[OF inv f_dist_end(1)] fan_pos[OF inv] show ?thesis
    by (auto simp: fan_lane_inv_def dist_close_next_simps)
next
  case (f_dist_to_stage N' i n f b)
  with fan_invD(5)[OF inv, of j] fan_dist_facts(2)[OF inv f_dist_to_stage(1)] show ?thesis
    by (auto simp: fan_lane_inv_def)
next
  case (f_dist_close N' j')
  with fan_invD(5)[OF inv, of j] fan_dist_facts(3)[OF inv f_dist_close(1)] show ?thesis
    by (cases "Suc j' < N") (auto simp: fan_lane_inv_def dist_close_next_simps)
next
  case (f_stage_end k' f a b)
  with fan_invD(5)[OF inv, of j] show ?thesis
    by (auto simp: fan_lane_inv_def)
next
  case (f_stage_close k' f a)
  with fan_invD(5)[OF inv, of j] show ?thesis
    by (auto simp: fan_lane_inv_def)
next
  case (f_stage_to_fwd k' f a n)
  with fan_invD(5)[OF inv, of j] show ?thesis
    by (auto simp: fan_lane_inv_def)
next
  case (f_fwd_end k' c)
  with fan_invD(5)[OF inv, of j] show ?thesis
    by (auto simp: fan_lane_inv_def)
next
  case (f_fwd_done k')
  with fan_invD(5)[OF inv, of j] show ?thesis
    by (auto simp: fan_lane_inv_def)
next
  case (f_fwd_to_main k' c v)
  with fan_invD(5)[OF inv, of j] show ?thesis
    by (auto simp: fan_lane_inv_def)
next
  case f_wait
  with fan_invD(5)[OF inv, of j] show ?thesis
    by (auto simp: fan_lane_inv_def)
next
  case f_close
  with fan_invD(5)[OF inv, of j] show ?thesis
    by (auto simp: fan_lane_inv_def)
next
  case (f_main_end c)
  with fan_invD(5)[OF inv, of j] show ?thesis
    by (auto simp: fan_lane_inv_def)
next
  case (f_main_print c v)
  with fan_invD(5)[OF inv, of j] show ?thesis
    by (auto simp: fan_lane_inv_def)
qed

lemma fan_tr_stage:
  assumes inv: "fan_inv nums N s" and tr: "fan_tr s s'"
  shows "fan_stage_inv N s' j"
  using tr
proof (cases rule: fan_tr.cases)
  case (f_gen nums' N')
  with fan_invD(6)[OF inv, of j] fan_pos[OF inv] fan_main_facts(1)[OF inv f_gen(1)] show ?thesis
    by (auto simp: fan_stage_inv_def fan_workers_0 split: option.splits)
next
  case (f_worker i N')
  from fan_main_facts(2)[OF inv f_worker(1)] have i: "N' = N" "i < N" by simp_all
  from fan_dist_facts(4)[OF inv, of _] f_worker(1) have dn: "gors s GDist = None"
    by (cases "gors s GDist") auto
  from fan_invD(5)[OF inv, of i] dn have ln: "sent (chans s (Lane i)) = []"
    by (simp add: fan_lane_inv_def)
  have st: "stages_started N (Some (fan_workers (Suc i) N)) = Suc i"
    using i by (auto simp: fan_workers_Suc)
  from f_worker i ln fan_invD(6)[OF inv, of j] fan_invD(6)[OF inv, of i] show ?thesis
    unfolding fan_stage_inv_def by (auto simp: st vals_Nil split: option.splits)
next
  case (f_dist N')
  with fan_invD(6)[OF inv, of j] fan_main_facts(3)[OF inv f_dist(1)] show ?thesis
    by (auto simp: fan_stage_inv_def split: option.splits)
next
  case (f_add j' c cs)
  with fan_invD(6)[OF inv, of j] show ?thesis
    by (auto simp: fan_stage_inv_def split: option.splits)
next
  case (f_go j' c cs)
  with fan_invD(6)[OF inv, of j] show ?thesis
    by (auto simp: fan_stage_inv_def split: option.splits)
next
  case f_closer
  with fan_invD(6)[OF inv, of j] show ?thesis
    by (auto simp: fan_stage_inv_def split: option.splits)
next
  case (f_gen_to_dist v rest N' i)
  with fan_invD(6)[OF inv, of j] show ?thesis
    by (auto simp: fan_stage_inv_def split: option.splits)
next
  case f_gen_close
  with fan_invD(6)[OF inv, of j] show ?thesis
    by (auto simp: fan_stage_inv_def split: option.splits)
next
  case (f_dist_end N' i)
  with fan_invD(6)[OF inv, of j] show ?thesis
    by (auto simp: fan_stage_inv_def split: option.splits)
next
  case (f_dist_to_stage N' i n f b)
  with fan_invD(6)[OF inv, of j] show ?thesis
    by (auto simp: fan_stage_inv_def split: option.splits)
next
  case (f_dist_close N' j')
  with fan_invD(6)[OF inv, of j] show ?thesis
    by (auto simp: fan_stage_inv_def split: option.splits elim!: fan_stage_ok_mono)
next
  case (f_stage_end k' f a b)
  with fan_invD(6)[OF inv, of j] show ?thesis
    by (auto simp: fan_stage_inv_def split: option.splits)
next
  case (f_stage_close k' f a)
  with fan_invD(6)[OF inv, of j] show ?thesis
    by (auto simp: fan_stage_inv_def split: option.splits)
next
  case (f_stage_to_fwd k' f a n)
  with fan_invD(6)[OF inv, of j] show ?thesis
    by (auto simp: fan_stage_inv_def split: option.splits)
next
  case (f_fwd_end k' c)
  with fan_invD(6)[OF inv, of j] show ?thesis
    by (auto simp: fan_stage_inv_def split: option.splits)
next
  case (f_fwd_done k')
  with fan_invD(6)[OF inv, of j] show ?thesis
    by (auto simp: fan_stage_inv_def split: option.splits)
next
  case (f_fwd_to_main k' c v)
  with fan_invD(6)[OF inv, of j] show ?thesis
    by (auto simp: fan_stage_inv_def split: option.splits)
next
  case f_wait
  with fan_invD(6)[OF inv, of j] show ?thesis
    by (auto simp: fan_stage_inv_def split: option.splits)
next
  case f_close
  with fan_invD(6)[OF inv, of j] show ?thesis
    by (auto simp: fan_stage_inv_def split: option.splits)
next
  case (f_main_end c)
  with fan_invD(6)[OF inv, of j] show ?thesis
    by (auto simp: fan_stage_inv_def split: option.splits)
next
  case (f_main_print c v)
  with fan_invD(6)[OF inv, of j] show ?thesis
    by (auto simp: fan_stage_inv_def split: option.splits)
qed

lemma fan_tr_fwd:
  assumes inv: "fan_inv nums N s" and tr: "fan_tr s s'"
  shows "fin_fwd WOut N s' j"
  using tr
proof (cases rule: fan_tr.cases)
  case (f_gen nums' N')
  with fan_invD(7)[OF inv, of j] fan_main_facts(1)[OF inv f_gen(1)] show ?thesis
    by (auto simp: fin_fwd_def split: option.splits)
next
  case (f_worker i N')
  with fan_invD(7)[OF inv, of j] fan_main_facts(2)[OF inv f_worker(1)] show ?thesis
    by (auto simp: fin_fwd_def split: option.splits)
next
  case (f_dist N')
  with fan_invD(7)[OF inv, of j] fan_main_facts(3)[OF inv f_dist(1)] fan_pos[OF inv] show ?thesis
    by (auto simp: fin_fwd_def fan_fanIn_0 split: option.splits)
next
  case (f_add j' c cs)
  with fan_invD(7)[OF inv, of j] show ?thesis
    by (auto simp: fin_fwd_def split: option.splits)
next
  case (f_go j' c cs)
  with fan_main_facts(5)[OF inv f_go(1)] fan_invD(7)[OF inv, of j] fan_invD(7)[OF inv, of j']
  show ?thesis
    by (auto simp: fin_fwd_def fanIn_eq vals_Nil split: option.splits)
next
  case f_closer
  with fan_invD(7)[OF inv, of j] show ?thesis
    by (auto simp: fin_fwd_def split: option.splits)
next
  case (f_gen_to_dist v rest N' i)
  with fan_invD(7)[OF inv, of j] show ?thesis
    by (auto simp: fin_fwd_def split: option.splits)
next
  case f_gen_close
  with fan_invD(7)[OF inv, of j] show ?thesis
    by (auto simp: fin_fwd_def split: option.splits)
next
  case (f_dist_end N' i)
  with fan_invD(7)[OF inv, of j] show ?thesis
    by (auto simp: fin_fwd_def split: option.splits)
next
  case (f_dist_to_stage N' i n f b)
  with fan_invD(7)[OF inv, of j] show ?thesis
    by (auto simp: fin_fwd_def split: option.splits)
next
  case (f_dist_close N' j')
  with fan_invD(7)[OF inv, of j] show ?thesis
    by (auto simp: fin_fwd_def split: option.splits)
next
  case (f_stage_end k' f a b)
  with fan_invD(7)[OF inv, of j] show ?thesis
    by (auto simp: fin_fwd_def split: option.splits)
next
  case (f_stage_close k' f a)
  with fan_invD(7)[OF inv, of j] show ?thesis
    by (auto simp: fin_fwd_def split: option.splits elim!: fwd_ok_mono)
next
  case (f_stage_to_fwd k' f a n)
  with fan_invD(7)[OF inv, of j] fan_invD(7)[OF inv, of k'] show ?thesis
    by (auto simp: fin_fwd_def split: option.splits)
next
  case (f_fwd_end k' c)
  with fan_invD(7)[OF inv, of j] show ?thesis
    by (auto simp: fin_fwd_def split: option.splits)
next
  case (f_fwd_done k')
  with fan_invD(7)[OF inv, of j] show ?thesis
    by (auto simp: fin_fwd_def split: option.splits)
next
  case (f_fwd_to_main k' c v)
  with fan_invD(7)[OF inv, of j] fan_invD(7)[OF inv, of k'] show ?thesis
    by (auto simp: fin_fwd_def split: option.splits)
next
  case f_wait
  with fan_invD(7)[OF inv, of j] show ?thesis
    by (auto simp: fin_fwd_def split: option.splits)
next
  case f_close
  with fan_invD(7)[OF inv, of j] show ?thesis
    by (auto simp: fin_fwd_def split: option.splits)
next
  case (f_main_end c)
  with fan_main_facts(6)[OF inv f_main_end(1)] fan_invD(7)[OF inv, of j] show ?thesis
    by (auto simp: fin_fwd_def split: option.splits)
next
  case (f_main_print c v)
  with fan_invD(7)[OF inv, of j] show ?thesis
    by (auto simp: fin_fwd_def split: option.splits)
qed

lemma fan_tr_wg:
  assumes inv: "fan_inv nums N s" and tr: "fan_tr s s'"
  shows "fin_wg N s'"
  using tr
proof (cases rule: fan_tr.cases)
  case (f_gen nums' N')
  with fan_invD(8)[OF inv] show ?thesis
    by (auto simp: fin_wg_def)
next
  case (f_worker i N')
  with fan_invD(8)[OF inv] show ?thesis
    by (auto simp: fin_wg_def)
next
  case (f_dist N')
  with fan_invD(8)[OF inv] show ?thesis
    by (auto simp: fin_wg_def)
next
  case (f_add j' c cs)
  with fan_invD(8)[OF inv] show ?thesis
    by (auto simp: fin_wg_def)
next
  case (f_go j' c cs)
  from fan_main_facts(5)[OF inv f_go(1)] have j: "j' < N" "cs = map WOut [Suc j'..<N]" by simp_all
  from f_go j fan_invD(8)[OF inv]
    sum_member_le[OF j(1), of "\<lambda>_. fwd_active" "\<lambda>j. gors s (GFwd j)"]
  show ?thesis
    by (auto simp: fin_wg_def fanIn_eq fwd_sum_upd1)
next
  case f_closer
  with fan_invD(8)[OF inv] show ?thesis
    by (auto simp: fin_wg_def)
next
  case (f_gen_to_dist v rest N' i)
  with fan_invD(8)[OF inv] show ?thesis
    by (auto simp: fin_wg_def)
next
  case f_gen_close
  with fan_invD(8)[OF inv] show ?thesis
    by (auto simp: fin_wg_def)
next
  case (f_dist_end N' i)
  with fan_invD(8)[OF inv] show ?thesis
    by (auto simp: fin_wg_def)
next
  case (f_dist_to_stage N' i n f b)
  with fan_invD(8)[OF inv] show ?thesis
    by (auto simp: fin_wg_def)
next
  case (f_dist_close N' j')
  with fan_invD(8)[OF inv] show ?thesis
    by (auto simp: fin_wg_def)
next
  case (f_stage_end k' f a b)
  with fan_invD(8)[OF inv] show ?thesis
    by (auto simp: fin_wg_def)
next
  case (f_stage_close k' f a)
  with fan_invD(8)[OF inv] show ?thesis
    by (auto simp: fin_wg_def)
next
  case (f_stage_to_fwd k' f a n)
  from fan_fwd_lt[OF inv f_stage_to_fwd(2)] have k: "k' < N" .
  from f_stage_to_fwd k fan_invD(8)[OF inv]
    sum_member_le[OF k, of "\<lambda>_. fwd_active" "\<lambda>j. gors s (GFwd j)"]
  show ?thesis
    by (auto simp: fin_wg_def fwd_sum_upd1)
next
  case (f_fwd_end k' c)
  from fan_fwd_lt[OF inv f_fwd_end(1)] have k: "k' < N" .
  from f_fwd_end k fan_invD(8)[OF inv]
    sum_member_le[OF k, of "\<lambda>_. fwd_active" "\<lambda>j. gors s (GFwd j)"]
  show ?thesis
    by (auto simp: fin_wg_def fwd_sum_upd1)
next
  case (f_fwd_done k')
  from fan_fwd_lt[OF inv f_fwd_done(1)] have k: "k' < N" .
  from f_fwd_done k fan_invD(8)[OF inv]
    sum_member_le[OF k, of "\<lambda>_. fwd_active" "\<lambda>j. gors s (GFwd j)"]
  show ?thesis
    by (auto simp: fin_wg_def fwd_sum_upd1)
next
  case (f_fwd_to_main k' c v)
  from fan_fwd_lt[OF inv f_fwd_to_main(1)] have k: "k' < N" .
  from f_fwd_to_main k fan_invD(8)[OF inv]
    sum_member_le[OF k, of "\<lambda>_. fwd_active" "\<lambda>j. gors s (GFwd j)"]
  show ?thesis
    by (auto simp: fin_wg_def fwd_sum_upd1)
next
  case f_wait
  with fan_invD(8)[OF inv] show ?thesis
    by (auto simp: fin_wg_def)
next
  case f_close
  with fan_invD(8)[OF inv] show ?thesis
    by (auto simp: fin_wg_def)
next
  case (f_main_end c)
  with fan_invD(8)[OF inv] show ?thesis
    by (auto simp: fin_wg_def)
next
  case (f_main_print c v)
  with fan_invD(8)[OF inv] show ?thesis
    by (auto simp: fin_wg_def)
qed

lemma fan_tr_closer:
  assumes inv: "fan_inv nums N s" and tr: "fan_tr s s'"
  shows "fin_closer s'"
  using tr
proof (cases rule: fan_tr.cases)
  case (f_gen nums' N')
  with fan_invD(9)[OF inv] show ?thesis
    by (auto simp: fin_closer_def)
next
  case (f_worker i N')
  with fan_invD(9)[OF inv] show ?thesis
    by (auto simp: fin_closer_def)
next
  case (f_dist N')
  with fan_invD(9)[OF inv] show ?thesis
    by (auto simp: fin_closer_def)
next
  case (f_add j' c cs)
  with fan_invD(9)[OF inv] show ?thesis
    by (cases "gors s GCloser") (auto simp: fin_closer_def dest: closer_ok_started)
next
  case (f_go j' c cs)
  with fan_main_facts(5)[OF inv f_go(1)] fan_invD(9)[OF inv] show ?thesis
    by (auto simp: fin_closer_def fanIn_eq)
next
  case f_closer
  with fan_invD(9)[OF inv] show ?thesis
    by (auto simp: fin_closer_def)
next
  case (f_gen_to_dist v rest N' i)
  with fan_invD(9)[OF inv] show ?thesis
    by (auto simp: fin_closer_def)
next
  case f_gen_close
  with fan_invD(9)[OF inv] show ?thesis
    by (auto simp: fin_closer_def)
next
  case (f_dist_end N' i)
  with fan_invD(9)[OF inv] show ?thesis
    by (auto simp: fin_closer_def)
next
  case (f_dist_to_stage N' i n f b)
  with fan_invD(9)[OF inv] show ?thesis
    by (auto simp: fin_closer_def)
next
  case (f_dist_close N' j')
  with fan_invD(9)[OF inv] show ?thesis
    by (auto simp: fin_closer_def)
next
  case (f_stage_end k' f a b)
  with fan_invD(9)[OF inv] show ?thesis
    by (auto simp: fin_closer_def)
next
  case (f_stage_close k' f a)
  with fan_invD(9)[OF inv] show ?thesis
    by (auto simp: fin_closer_def)
next
  case (f_stage_to_fwd k' f a n)
  with fan_invD(9)[OF inv] show ?thesis
    by (auto simp: fin_closer_def)
next
  case (f_fwd_end k' c)
  with fan_invD(9)[OF inv] show ?thesis
    by (auto simp: fin_closer_def)
next
  case (f_fwd_done k')
  with fan_invD(9)[OF inv] show ?thesis
    by (auto simp: fin_closer_def elim!: closer_ok_wg)
next
  case (f_fwd_to_main k' c v)
  with fan_invD(9)[OF inv] show ?thesis
    by (auto simp: fin_closer_def elim!: closer_ok_sent)
next
  case f_wait
  with fan_invD(9)[OF inv] show ?thesis
    by (auto simp: fin_closer_def)
next
  case f_close
  with fan_invD(9)[OF inv] show ?thesis
    by (auto simp: fin_closer_def)
next
  case (f_main_end c)
  with fan_main_facts(6)[OF inv f_main_end(1)] fan_invD(9)[OF inv] show ?thesis
    by (auto simp: fin_closer_def)
next
  case (f_main_print c v)
  with fan_invD(9)[OF inv] show ?thesis
    by (auto simp: fin_closer_def)
qed

lemma fan_tr_inv:
  assumes "fan_inv nums N s" "fan_tr s s'"
  shows "fan_inv nums N s'"
  unfolding fan_inv_def
  using fan_tr_base[OF assms] fan_tr_main[OF assms] fan_tr_gen[OF assms] fan_tr_dist[OF assms]
    fan_tr_lane[OF assms] fan_tr_stage[OF assms] fan_tr_fwd[OF assms] fan_tr_wg[OF assms]
    fan_tr_closer[OF assms] fan_tr_senders[OF assms] fan_tr_chan[OF assms]
  by blast

lemma fan_step_inv:
  assumes "fan_inv nums N s" "step s l = Some s'"
  shows "fan_inv nums N s'"
  using assms fan_step_tr fan_tr_inv by blast

lemma fan_reach:
  assumes "0 < N" "exec ls (fan nums N) = Some s"
  shows "fan_inv nums N s"
  using assms(2) fan_inv_init[OF assms(1)] fan_step_inv by (rule exec_invariant)

text \<open>When main is at its \<open>range\<close> over the results, every goroutine has been started.\<close>

lemma fan_running:
  assumes inv: "fan_inv nums N s" and mr: "gors s GMain = Some (consume_range Merged)"
  shows "\<exists>gst. gors s (GGen 0) = Some gst \<and> merge_gen_ok nums Input (chans s Input) gst"
    "\<exists>dst. gors s GDist = Some dst \<and> dist_ok N (chans s Input) dst"
    "k < N \<Longrightarrow> \<exists>st. gors s (GStage k) = Some st \<and>
       fan_stage_ok k (chans s (Lane k)) (chans s (WOut k)) st"
    "k < N \<Longrightarrow> \<exists>st. gors s (GFwd k) = Some st \<and>
       fwd_ok (WOut k) (chans s (WOut k)) (proj (GFwd k) (sent (chans s Merged))) st"
    "\<exists>cst. gors s GCloser = Some cst \<and> closer_ok True (wg s) (chans s Merged) (Some cst)"
proof -
  from fan_invD(3)[OF inv] mr
  show "\<exists>gst. gors s (GGen 0) = Some gst \<and> merge_gen_ok nums Input (chans s Input) gst"
    by (auto simp: fan_gen_inv_def split: option.splits)
  from fan_invD(4)[OF inv] mr
  show "\<exists>dst. gors s GDist = Some dst \<and> dist_ok N (chans s Input) dst"
    by (auto simp: fan_dist_inv_def split: option.splits)
  from fan_invD(6)[OF inv, of k] mr
  show "k < N \<Longrightarrow> \<exists>st. gors s (GStage k) = Some st \<and>
       fan_stage_ok k (chans s (Lane k)) (chans s (WOut k)) st"
    by (auto simp: fan_stage_inv_def split: option.splits)
  from fan_invD(7)[OF inv, of k] mr
  show "k < N \<Longrightarrow> \<exists>st. gors s (GFwd k) = Some st \<and>
       fwd_ok (WOut k) (chans s (WOut k)) (proj (GFwd k) (sent (chans s Merged))) st"
    by (auto simp: fin_fwd_def split: option.splits)
  from fan_invD(9)[OF inv] mr
  show "\<exists>cst. gors s GCloser = Some cst \<and> closer_ok True (wg s) (chans s Merged) (Some cst)"
    by (cases "gors s GCloser") (auto simp: fin_closer_def)
qed

text \<open>A lane worker with a result in hand: its forwarder takes it, or is handing one to main.\<close>

lemma fan_stage_send_step:
  assumes inv: "fan_inv nums N s" and al: "alive s"
    and mr: "gors s GMain = Some (consume_range Merged)" and k: "k < N"
    and st: "gors s (GStage k) = Some (stage_send f a b n)"
  shows "\<exists>l s'. step s l = Some s'"
proof -
  from fan_invD(6)[OF inv, of k] st
  have ab: "f = fan_square" "a = Lane k" "b = WOut k" and opn: "\<not> closed (chans s (WOut k))"
    by (auto simp: fan_stage_inv_def)
  from fan_running(4)[OF inv mr k] obtain fst where f: "gors s (GFwd k) = Some fst"
    "fwd_ok (WOut k) (chans s (WOut k)) (proj (GFwd k) (sent (chans s Merged))) fst"
    by blast
  from fwd_okD[OF f(2)] show ?thesis
  proof (elim disjE exE)
    assume "fst = fwd_range (WOut k)"
    with f(1) st ab fan_unbuffered[OF inv, of "WOut k"] show ?thesis
      by (auto intro!: can_sync[OF al st _ f(1)])
  next
    fix v assume "fst = fwd_send (WOut k) v"
    with f(1) mr fan_unbuffered[OF inv, of Merged] show ?thesis
      by (auto intro!: can_sync[OF al f(1) _ mr])
  next
    assume "fst = fwd_done"
    with f(2) opn show ?thesis by simp
  next
    assume "fst = Exited"
    with f(2) opn show ?thesis by simp
  qed
qed

text \<open>A lane worker waiting for an item: the distributor, or the generator behind it, moves.\<close>

lemma fan_stage_range_step:
  assumes inv: "fan_inv nums N s" and al: "alive s"
    and mr: "gors s GMain = Some (consume_range Merged)" and k: "k < N"
    and st: "gors s (GStage k) = Some (stage_range f a b)"
  shows "\<exists>l s'. step s l = Some s'"
proof -
  from fan_invD(6)[OF inv, of k] st have ab: "f = fan_square" "a = Lane k" "b = WOut k"
    by (auto simp: fan_stage_inv_def)
  note pos = fan_pos[OF inv]
  from fan_running(2)[OF inv mr] obtain dst where d: "gors s GDist = Some dst"
    "dist_ok N (chans s Input) dst" by blast
  from dist_okD[OF d(2)] show ?thesis
  proof (elim disjE exE conjE)
    assume "dst = Exited"
    with fan_invD(5)[OF inv, of k] d(1) k have "closed (chans s (Lane k))"
      by (simp add: fan_lane_inv_def)
    with st ab show ?thesis by (auto intro: can_recv_closed[OF al])
  next
    fix j assume "dst = dist_close N j"
    with d(1) show ?thesis by (auto intro: can_close[OF al])
  next
    fix i assume dr: "dst = dist_range N i"
    from fan_running(1)[OF inv mr] obtain gst where g: "gors s (GGen 0) = Some gst"
      "merge_gen_ok nums Input (chans s Input) gst" by blast
    from merge_gen_okD[OF g(2)] show ?thesis
    proof (elim disjE exE conjE)
      fix rest assume r: "gst = generator_loop rest Input"
      show ?thesis
      proof (cases rest)
        case Nil
        with r g show ?thesis by (auto intro: can_close[OF al])
      next
        case (Cons v vs)
        with r g d(1) dr fan_unbuffered[OF inv, of Input] show ?thesis
          by (auto intro!: can_sync[OF al g(1) _ d(1)])
      qed
    next
      assume "closed (chans s Input)"
      with d(1) dr show ?thesis by (auto intro: can_recv_closed[OF al])
    qed
  next
    fix i n assume ds: "dst = dist_send N i n"
    from pos have k': "i mod N < N" by simp
    from fan_lanes_open[OF inv d(1)[unfolded ds], of "i mod N"]
    have opn: "\<not> closed (chans s (Lane (i mod N)))" .
    from fan_running(3)[OF inv mr k'] obtain sst where s: "gors s (GStage (i mod N)) = Some sst"
      "fan_stage_ok (i mod N) (chans s (Lane (i mod N))) (chans s (WOut (i mod N))) sst"
      by blast
    from fan_stage_okD[OF s(2)] show ?thesis
    proof (elim disjE exE conjE)
      assume "sst = stage_range fan_square (Lane (i mod N)) (WOut (i mod N))"
      with s(1) d(1) ds pos fan_unbuffered[OF inv, of "Lane (i mod N)"] show ?thesis
        by (auto intro!: can_sync[OF al d(1) _ s(1)])
    next
      fix m assume "sst = stage_send fan_square (Lane (i mod N)) (WOut (i mod N)) m"
      with s(1) show ?thesis by (auto intro: fan_stage_send_step[OF inv al mr k'])
    next
      assume "closed (chans s (Lane (i mod N)))"
      with opn show ?thesis by simp
    next
      assume "closed (chans s (Lane (i mod N)))"
      with opn show ?thesis by simp
    qed
  qed
qed

lemma fan_progress:
  assumes inv: "fan_inv nums N s" and al: "alive s"
  shows "\<exists>l s'. step s l = Some s'"
proof -
  from fan_main_obtain[OF inv] obtain m where m: "gors s GMain = Some m"
    "fan_main_ok nums N (printed s) (chans s Merged) m" .
  from inv m(1) show ?thesis
  proof (cases rule: fan_who_cases)
    case main_start
    with fan_invD(3)[OF inv] m have "gors s (GGen 0) = None"
      by (auto simp: fan_gen_inv_def split: option.splits)
    with m main_start show ?thesis by (auto intro: can_go[OF al])
  next
    case (main_worker i)
    with fan_invD(6)[OF inv, of i] m have "gors s (GStage i) = None"
      by (auto simp: fan_stage_inv_def split: option.splits)
    with m main_worker show ?thesis by (auto intro: can_go[OF al])
  next
    case main_dist
    with fan_invD(4)[OF inv] m have "gors s GDist = None"
      by (auto simp: fan_dist_inv_def split: option.splits)
    with m main_dist show ?thesis by (auto intro: can_go[OF al])
  next
    case (main_add j)
    with m show ?thesis by (auto intro: can_add[OF al])
  next
    case (main_go j)
    with fan_invD(7)[OF inv, of j] m have "gors s (GFwd j) = None"
      by (auto simp: fin_fwd_def split: option.splits)
    with m main_go show ?thesis by (auto intro: can_go[OF al])
  next
    case main_closer
    with fan_invD(9)[OF inv] m have "gors s GCloser = None"
      by (cases "gors s GCloser") (auto simp: fin_closer_def dest: closer_ok_started)
    with m main_closer show ?thesis by (auto intro: can_go[OF al])
  next
    case (main_print v)
    with m show ?thesis by (auto intro: can_print[OF al])
  next
    case main_exit
    with m al show ?thesis by (simp add: alive_def)
  next
    case main_range
    with m have mr: "gors s GMain = Some (consume_range Merged)" by simp
    from fan_running(5)[OF inv mr] obtain cst where c: "gors s GCloser = Some cst"
      "closer_ok True (wg s) (chans s Merged) (Some cst)" by blast
    from closer_okD[OF c(2)] show ?thesis
    proof (elim disjE conjE)
      assume "cst = Exited" "closed (chans s Merged)"
      with mr show ?thesis by (auto intro: can_recv_closed[OF al])
    next
      assume "cst = closer_close"
      with c show ?thesis by (auto intro: can_close[OF al])
    next
      assume cw: "cst = closer_wait"
      show ?thesis
      proof (cases "wg s = 0")
        case True
        with c cw show ?thesis by (auto intro: can_wait[OF al])
      next
        case False
        with fan_invD(8)[OF inv] mr
        have "(\<Sum>k<N. fwd_active (gors s (GFwd k))) \<noteq> 0"
          by (simp add: fin_wg_def)
        then obtain k where k: "k < N" "fwd_active (gors s (GFwd k)) \<noteq> 0"
          by (rule sum_pos_member)
        from k(2) show ?thesis
        proof (cases rule: fwd_active_cases)
          case 3
          then show ?thesis by (auto intro: can_done[OF al])
        next
          case (2 c v)
          with mr fan_unbuffered[OF inv, of Merged] show ?thesis
            by (auto intro!: can_sync[OF al 2 _ mr])
        next
          case (1 c)
          with fan_invD(7)[OF inv, of k] have c: "c = WOut k"
            by (simp add: fin_fwd_def)
          from fan_running(3)[OF inv mr k(1)] obtain sst where s: "gors s (GStage k) = Some sst"
            "fan_stage_ok k (chans s (Lane k)) (chans s (WOut k)) sst" by blast
          from fan_stage_okD[OF s(2)] show ?thesis
          proof (elim disjE exE conjE)
            assume "sst = stage_range fan_square (Lane k) (WOut k)"
            with s(1) show ?thesis by (auto intro: fan_stage_range_step[OF inv al mr k(1)])
          next
            fix n assume "sst = stage_send fan_square (Lane k) (WOut k) n"
            with s(1) show ?thesis by (auto intro: fan_stage_send_step[OF inv al mr k(1)])
          next
            assume "sst = stage_close fan_square (Lane k) (WOut k)"
            with s(1) show ?thesis by (auto intro: can_close[OF al])
          next
            assume "closed (chans s (WOut k))"
            with 1 c show ?thesis by (auto intro: can_recv_closed[OF al])
          qed
        qed
      qed
    qed
  qed (use m in auto)
qed

lemmas stage_sum_upd1 = sum_upd1_eq[where F = "\<lambda>_. stage_mu"]

lemma fan_tr_mu:
  assumes inv: "fan_inv nums N s" and tr: "fan_tr s s'"
  shows "Suc (fan_mu N s') = fan_mu N s"
  using tr
proof (cases rule: fan_tr.cases)
  case (f_gen nums' N')
  with fan_main_facts(1)[OF inv f_gen(1)] fan_pos[OF inv] show ?thesis
    by (auto simp: fan_mu_def fan_workers_0)
next
  case (f_worker i N')
  from fan_main_facts(2)[OF inv f_worker(1)] have i: "N' = N" "i < N" by simp_all
  have nx: "fan_main_mu N (Some (fan_workers (Suc i) N)) + 3 = fan_main_mu N (Some (fan_worker i N))"
    using i(2) by (auto simp: fan_workers_Suc Suc_diff_Suc)
  from f_worker i sum_member_le[OF i(2), of "\<lambda>_. stage_mu" "\<lambda>j. gors s (GStage j)"] nx
  show ?thesis
    by (auto simp del: fan_main_mu.simps simp: fan_mu_def stage_sum_upd1)
next
  case (f_dist N')
  with fan_main_facts(3)[OF inv f_dist(1)] fan_pos[OF inv] show ?thesis
    by (auto simp: fan_mu_def fan_fanIn_0)
next
  case (f_add j c cs)
  then show ?thesis by (auto simp: fan_mu_def)
next
  case (f_go j c cs)
  from fan_main_facts(5)[OF inv f_go(1)] have j: "j < N" "cs = map WOut [Suc j..<N]" by simp_all
  from f_go j sum_member_le[OF j(1), of "\<lambda>_. fwd_mu" "\<lambda>j. gors s (GFwd j)"]
  show ?thesis
    by (auto simp: fan_mu_def fanIn_eq fwdmu_sum_upd1)
next
  case f_closer
  then show ?thesis by (auto simp: fan_mu_def)
next
  case (f_gen_to_dist v rest N' i)
  then show ?thesis by (auto simp: fan_mu_def)
next
  case f_gen_close
  then show ?thesis by (auto simp: fan_mu_def)
next
  case (f_dist_end N' i)
  with fan_dist_facts(1)[OF inv f_dist_end(1)] fan_pos[OF inv] show ?thesis
    by (auto simp: fan_mu_def dist_close_next_simps)
next
  case (f_dist_to_stage N' i n f b)
  from f_dist_to_stage(2) have k: "i mod N' < N'" by simp
  from fan_dist_facts(2)[OF inv f_dist_to_stage(1)] have N: "N' = N" by simp
  from f_dist_to_stage k N
    sum_member_le[OF k[unfolded N], of "\<lambda>_. stage_mu" "\<lambda>j. gors s (GStage j)"]
  show ?thesis
    by (auto simp: fan_mu_def stage_sum_upd1)
next
  case (f_dist_close N' j)
  with fan_dist_facts(3)[OF inv f_dist_close(1)] show ?thesis
    by (cases "Suc j < N") (auto simp: fan_mu_def dist_close_next_simps)
next
  case (f_stage_end k f a b)
  from fan_stage_lt[OF inv f_stage_end(1)] have k: "k < N" .
  from f_stage_end k sum_member_le[OF k, of "\<lambda>_. stage_mu" "\<lambda>j. gors s (GStage j)"]
  show ?thesis
    by (auto simp: fan_mu_def stage_sum_upd1)
next
  case (f_stage_close k f a)
  from fan_stage_lt[OF inv f_stage_close(1)] have k: "k < N" .
  from f_stage_close k sum_member_le[OF k, of "\<lambda>_. stage_mu" "\<lambda>j. gors s (GStage j)"]
  show ?thesis
    by (auto simp: fan_mu_def stage_sum_upd1)
next
  case (f_stage_to_fwd k f a n)
  from fan_stage_lt[OF inv f_stage_to_fwd(1)] have k: "k < N" .
  from f_stage_to_fwd k sum_member_le[OF k, of "\<lambda>_. stage_mu" "\<lambda>j. gors s (GStage j)"]
    sum_member_le[OF k, of "\<lambda>_. fwd_mu" "\<lambda>j. gors s (GFwd j)"]
  show ?thesis
    by (auto simp: fan_mu_def stage_sum_upd1 fwdmu_sum_upd1)
next
  case (f_fwd_end k c)
  from fan_fwd_lt[OF inv f_fwd_end(1)] have k: "k < N" .
  from f_fwd_end k sum_member_le[OF k, of "\<lambda>_. fwd_mu" "\<lambda>j. gors s (GFwd j)"]
  show ?thesis
    by (auto simp: fan_mu_def fwdmu_sum_upd1)
next
  case (f_fwd_done k)
  from fan_fwd_lt[OF inv f_fwd_done(1)] have k: "k < N" .
  from f_fwd_done k sum_member_le[OF k, of "\<lambda>_. fwd_mu" "\<lambda>j. gors s (GFwd j)"]
  show ?thesis
    by (auto simp: fan_mu_def fwdmu_sum_upd1)
next
  case (f_fwd_to_main k c v)
  from fan_fwd_lt[OF inv f_fwd_to_main(1)] have k: "k < N" .
  from f_fwd_to_main k sum_member_le[OF k, of "\<lambda>_. fwd_mu" "\<lambda>j. gors s (GFwd j)"]
  show ?thesis
    by (auto simp: fan_mu_def fwdmu_sum_upd1)
next
  case f_wait
  then show ?thesis by (auto simp: fan_mu_def)
next
  case f_close
  then show ?thesis by (auto simp: fan_mu_def)
next
  case (f_main_end c)
  with fan_main_facts(6)[OF inv f_main_end(1)] show ?thesis
    by (auto simp: fan_mu_def)
next
  case (f_main_print c v)
  then show ?thesis by (auto simp: fan_mu_def)
qed

lemma fan_step_mu:
  assumes "fan_inv nums N s" "step s l = Some s'"
  shows "fan_inv nums N s' \<and> Suc (fan_mu N s') = fan_mu N s"
  using fan_step_inv[OF assms] fan_tr_mu[OF assms(1) fan_step_tr[OF assms]] by simp



lemma fan_stuck_exited:
  assumes inv: "fan_inv nums N s" and st: "stuck s"
  shows "gors s GMain = Some Exited" "crashed s = None"
proof -
  from fan_invD(1)[OF inv] show c: "crashed s = None" by (simp add: fan_base_def)
  from fan_progress[OF inv] st have "\<not> alive s" by (auto simp: stuck_def)
  with c show "gors s GMain = Some Exited" by (simp add: alive_def)
qed

lemma fan_can_finish:
  assumes "0 < N" "exec ls (fan nums N) = Some s"
  shows "\<exists>ms t. exec ms s = Some t \<and> stuck t"
proof -
  have "\<exists>ms t. exec ms s = Some t \<and> \<not> alive t"
  proof (rule run_to_end[where I = "fan_inv nums N" and m = "fan_mu N"])
    show "fan_inv nums N s" by (rule fan_reach[OF assms])
  qed (auto intro: fan_progress dest: fan_step_mu)
  with not_alive_stuck show ?thesis by blast
qed

text \<open>Dealing keeps the order, loses nothing and adds nothing.\<close>

lemma deal_subseq: "subseq (deal N k i xs) xs"
  by (induction xs arbitrary: i) auto

lemma deal_prefix: "prefix xs ys \<Longrightarrow> prefix (deal N k i xs) (deal N k i ys)"
  by (auto simp: prefix_def deal_append)

lemma deal_mset:
  assumes "0 < N"
  shows "(\<Sum>k<N. mset (deal N k i xs)) = mset xs"
proof (induction xs arbitrary: i)
  case Nil
  then show ?case by simp
next
  case (Cons x xs)
  have "(\<Sum>k<N. mset (deal N k i (x # xs))) =
      (\<Sum>k<N. (if k = i mod N then {#x#} else {#}) + mset (deal N k (Suc i) xs))"
    by (rule sum.cong) auto
  also have "\<dots> = (\<Sum>k<N. if k = i mod N then {#x#} else {#}) +
      (\<Sum>k<N. mset (deal N k (Suc i) xs))"
    by (rule sum.distrib)
  also have "(\<Sum>k<N. if k = i mod N then {#x#} else {#}) = {#x#}"
    using assms by (simp add: sum.delta)
  finally show ?case using Cons.IH[of "Suc i"] by simp
qed

text \<open>Item number \<open>j\<close> is on lane \<open>j mod N\<close>, and on no other.\<close>

lemma deal_nths: "deal N k i xs = nths xs {j. (i + j) mod N = k}"
proof (induction xs arbitrary: i)
  case Nil
  then show ?case by simp
next
  case (Cons x xs)
  from Cons.IH[of "Suc i"] show ?case by (simp add: nths_Cons)
qed

lemma deal_last:
  "length xs = i \<Longrightarrow> deal N (i mod N) 0 (xs @ [x]) = deal N (i mod N) 0 xs @ [x]"
  by (simp add: deal_snoc)

text \<open>What the input and the lanes have carried.\<close>

lemma fan_input_prefix:
  assumes inv: "fan_inv nums N s"
  shows "prefix (carried s Input) nums"
    "closed (chans s Input) \<longrightarrow> carried s Input = nums \<and> gors s (GGen 0) = Some Exited"
proof -
  show "prefix (carried s Input) nums"
  proof (cases "gors s (GGen 0)")
    case None
    with fan_invD(3)[OF inv] show ?thesis by (simp add: fan_gen_inv_def carried_def vals_Nil)
  next
    case (Some st)
    with fan_invD(3)[OF inv] have "merge_gen_ok nums Input (chans s Input) st"
      by (simp add: fan_gen_inv_def)
    then show ?thesis by (cases st) (auto simp: carried_def prefix_def)
  qed
  show "closed (chans s Input) \<longrightarrow> carried s Input = nums \<and> gors s (GGen 0) = Some Exited"
  proof (cases "gors s (GGen 0)")
    case None
    with fan_invD(3)[OF inv] show ?thesis by (simp add: fan_gen_inv_def)
  next
    case (Some st)
    with fan_invD(3)[OF inv] have "merge_gen_ok nums Input (chans s Input) st"
      by (simp add: fan_gen_inv_def)
    with Some show ?thesis by (cases st) (auto simp: carried_def)
  qed
qed

lemma fan_lane_prefix:
  assumes inv: "fan_inv nums N s"
  shows "prefix (carried s (Lane k)) (deal N k 0 (carried s Input))"
proof (cases "gors s GDist")
  case None
  with fan_invD(5)[OF inv, of k] show ?thesis by (simp add: fan_lane_inv_def carried_def vals_Nil)
next
  case (Some st)
  from fan_invD(4)[OF inv] Some have "dist_ok N (chans s Input) st"
    by (simp add: fan_dist_inv_def)
  from dist_okD[OF this] show ?thesis
  proof (elim disjE exE conjE)
    fix i n assume "st = dist_send N i n"
    with fan_invD(5)[OF inv, of k] Some
    have "vals (chans s (Lane k)) @ (if i mod N = k then [n] else []) =
        deal N k 0 (vals (chans s Input))"
      by (simp add: fan_lane_inv_def)
    then show ?thesis unfolding carried_def by (metis prefixI)
  qed (use fan_invD(5)[OF inv, of k] Some in \<open>auto simp: fan_lane_inv_def carried_def\<close>)
qed

lemma fan_lane_closed:
  assumes inv: "fan_inv nums N s" and c: "closed (chans s (Lane k))"
  shows "k < N" "closed (chans s Input)" "carried s (Lane k) = deal N k 0 nums"
proof -
  from fan_invD(5)[OF inv, of k] c obtain st where st: "gors s GDist = Some st"
    by (cases "gors s GDist") (auto simp: fan_lane_inv_def)
  from fan_invD(4)[OF inv] st have ok: "dist_ok N (chans s Input) st"
    by (simp add: fan_dist_inv_def)
  from dist_okD[OF ok] fan_invD(5)[OF inv, of k] st c ok
  show "k < N" and "closed (chans s Input)"
    and "carried s (Lane k) = deal N k 0 nums"
    using fan_input_prefix(2)[OF inv]
    by (auto simp: fan_lane_inv_def carried_def)
qed

text \<open>The item the distributor holds is item number \<open>i\<close> of the input.\<close>

lemma fan_dist_holds:
  assumes inv: "fan_inv nums N s" and d: "gors s GDist = Some (dist_send N' i n)"
  shows "N' = N" "i < length nums" "n = nums ! i"
proof -
  from fan_dist_facts(2)[OF inv d] have len: "Suc i = length (vals (chans s Input))" by simp
  from fan_dist_facts(2)[OF inv d] show N: "N' = N" by simp
  from fan_input_prefix(1)[OF inv] obtain zs where zs: "nums = vals (chans s Input) @ zs"
    by (auto simp: prefix_def carried_def)
  with len show i: "i < length nums" by simp
  from len obtain xs x where xs: "vals (chans s Input) = xs @ [x]" "length xs = i"
    by (cases "vals (chans s Input)" rule: rev_cases) auto
  from fan_invD(5)[OF inv, of "i mod N"] d
  have "vals (chans s (Lane (i mod N))) @ [n] = deal N (i mod N) 0 (vals (chans s Input))"
    by (simp add: fan_lane_inv_def)
  with xs deal_last[OF xs(2), of N x] have "n = x" by simp
  with zs xs show "n = nums ! i" by (simp add: nth_append)
qed

text \<open>When the output is closed, everything behind it has come to its end.\<close>

lemma fan_closed_all_done:
  assumes inv: "fan_inv nums N s" and c: "closed (chans s Merged)" and k: "k < N"
  shows "gors s (GFwd k) = Some Exited" "closed (chans s (WOut k))"
    "gors s (GStage k) = Some Exited" "closed (chans s (Lane k))"
    "gors s GDist = Some Exited" "gors s (GGen 0) = Some Exited"
    "wg s = 0" "gors s GCloser = Some Exited"
proof -
  from fan_invD(9)[OF inv] c obtain cst where cst: "gors s GCloser = Some cst"
    "closer_ok (closer_started (gors s GMain)) (wg s) (chans s Merged) (Some cst)"
    by (cases "gors s GCloser") (auto simp: fin_closer_def)
  from closer_okD[OF cst(2)] c cst(1) show w: "wg s = 0" and "gors s GCloser = Some Exited"
    by auto
  from closer_ok_started[OF cst(2)] have cs: "closer_started (gors s GMain)" .
  then have fs: "fwds_started N (gors s GMain) = N" "stages_started N (gors s GMain) = N"
    by (cases "gors s GMain"; cases "the (gors s GMain)"; auto)+
  have all: "gors s (GFwd j) = Some Exited \<and> closed (chans s (WOut j)) \<and>
      gors s (GStage j) = Some Exited \<and> closed (chans s (Lane j))" if j: "j < N" for j
  proof -
    from fan_invD(7)[OF inv, of j] j fs obtain st where st: "gors s (GFwd j) = Some st"
      "fwd_ok (WOut j) (chans s (WOut j)) (proj (GFwd j) (sent (chans s Merged))) st"
      by (auto simp: fin_fwd_def split: option.splits)
    from fan_open_while_active[OF inv st(1)] c have ex: "gors s (GFwd j) = Some Exited"
      using st(1) by auto
    with st have cl: "closed (chans s (WOut j))" by auto
    from fan_invD(6)[OF inv, of j] j fs obtain sst where sst: "gors s (GStage j) = Some sst"
      "fan_stage_ok j (chans s (Lane j)) (chans s (WOut j)) sst"
      by (auto simp: fan_stage_inv_def split: option.splits)
    from fan_stage_okD[OF sst(2)] cl sst(1) ex show ?thesis by auto
  qed
  from all[OF k] show "gors s (GFwd k) = Some Exited" "closed (chans s (WOut k))"
    "gors s (GStage k) = Some Exited" "closed (chans s (Lane k))" by simp_all
  from fan_pos[OF inv] have "N - 1 < N" by simp
  from all[OF this] have last: "closed (chans s (Lane (N - 1)))" by simp
  from fan_lane_closed(2)[OF inv last] fan_input_prefix(2)[OF inv]
  show "gors s (GGen 0) = Some Exited" by simp
  from fan_invD(5)[OF inv, of "N - 1"] last obtain dst where d: "gors s GDist = Some dst"
    by (cases "gors s GDist") (auto simp: fan_lane_inv_def)
  from fan_invD(4)[OF inv] d have ok: "dist_ok N (chans s Input) dst"
    by (simp add: fan_dist_inv_def)
  from dist_okD[OF ok] fan_invD(5)[OF inv, of "N - 1"] last d
  show "gors s GDist = Some Exited"
    by (auto simp: fan_lane_inv_def)
qed

lemma fan_finished:
  assumes inv: "fan_inv nums N s" and ex: "gors s GMain = Some Exited"
  shows "printed s = carried s Merged" "closed (chans s Merged)"
  using fan_invD(2)[OF inv] ex by (simp_all add: fan_main_inv_def carried_def)

lemmas run_simps = step_def solo_def sync_def proceed_def panic_def set_chan_def boot_def
  new_chan_def pipeline_def pipe_next_def carried_def vals_def




text \<open>
  The output of a single stage in terms of the expression it sends, for every schedule.
\<close>

lemma stage_output_by_expr:
  assumes "exec ls (pipeline nums [f]) = Some s"
  shows "prefix (carried s (Link (Suc 0))) (map (stage_expr f) nums) \<and>
         prefix (carried s (Link (Suc 0))) (map (stage_expr f) (carried s (Link 0))) \<and>
         prefix (carried s (Link 0)) nums \<and>
         prefix (printed s) (carried s (Link (Suc 0))) \<and>
         (closed (chans s (Link (Suc 0))) \<longrightarrow> carried s (Link (Suc 0)) = map (stage_expr f) nums) \<and>
         (stuck s \<longrightarrow> closed (chans s (Link (Suc 0))) \<and> crashed s = None \<and>
            carried s (Link (Suc 0)) = map (stage_expr f) nums \<and>
            printed s = map (stage_expr f) nums) \<and>
         (\<exists>ms t. exec ms s = Some t \<and> stuck t)"
proof -
  note inv = pipe_reach[OF assms]
  from pipe_carried_prefix[OF inv, of "Suc 0"]
  have 1: "prefix (carried s (Link (Suc 0))) (map (stage_expr f) nums)"
    by (auto simp: pipe_fun_single prefix_def)
  from pipe_carried_prefix[OF inv, of 0]
  have 0: "prefix (carried s (Link 0)) nums"
    by (auto simp: pipe_fun_def prefix_def)
  have 2: "prefix (carried s (Link (Suc 0))) (map (stage_expr f) (carried s (Link 0)))"
  proof (cases "gors s (GStage 0)")
    case None
    with pipe_invD(4)[OF inv, of 0] show ?thesis
      by (simp add: pipe_stage_inv_def carried_def vals_Nil)
  next
    case (Some st)
    with pipe_invD(4)[OF inv, of 0]
    have ok: "pipe_stage_ok f 0 (chans s (Link 0)) (chans s (Link (Suc 0))) st"
      by (simp add: pipe_stage_inv_def)
    from pipe_stage_okD[OF ok] ok show ?thesis by (auto simp: carried_def prefix_def)
  qed
  from pipe_printed_prefix[OF inv]
  have 3: "prefix (printed s) (carried s (Link (Suc 0)))" by (auto simp: prefix_def)
  have 4: "carried s (Link (Suc 0)) = map (stage_expr f) nums"
    if "closed (chans s (Link (Suc 0)))"
    using pipe_closed_complete[OF inv, of "Suc 0"] that by (simp add: pipe_fun_single)
  have 5: "closed (chans s (Link (Suc 0))) \<and> crashed s = None \<and>
      carried s (Link (Suc 0)) = map (stage_expr f) nums \<and> printed s = map (stage_expr f) nums"
    if "stuck s"
    using pipe_finished[OF inv pipe_stuck_exited(1)[OF inv that]] pipe_stuck_exited(2)[OF inv that]
    by (simp add: pipe_fun_single)
  from 0 1 2 3 4 5 pipe_can_finish[OF assms] show ?thesis by blast
qed

lemma two_item_run:
  "exec two_item_schedule (pipeline [x, y] [f]) =
     Some (the (exec two_item_schedule (pipeline [x, y] [f])))"
  by (simp add: two_item_schedule_def run_simps)

lemma two_item_end:
  "gors (the (exec two_item_schedule (pipeline [x, y] [f]))) GMain = Some Exited"
  "printed (the (exec two_item_schedule (pipeline [x, y] [f]))) = [stage_expr f x, stage_expr f y]"
  by (simp_all add: two_item_schedule_def run_simps)

lemma two_item_stuck: "stuck (the (exec two_item_schedule (pipeline [x, y] [f])))"
  by (rule not_alive_stuck) (simp add: alive_def two_item_end)

text \<open>
  C5. A source followed by one stage, for the generic stage \<open>transform\<close> with any function
  \<open>fn\<close> and for the stages \<open>square\<close>, \<open>addTen\<close> and \<open>double\<close> with the functions
  \<open>n * n\<close>, \<open>n + 10\<close> and \<open>n * 2\<close>: at every moment of every run the stage's output
  channel has carried a prefix of \<open>map fn input\<close>, it has carried the images under \<open>fn\<close>
  of what the stage received, in the order received, and main has printed a prefix of
  that. The output channel is closed only when all of \<open>map fn input\<close> has been sent; a
  run that cannot go on has closed it and printed exactly \<open>map fn input\<close>; and every run
  can be continued to such an end.
\<close>

theorem stage_applies_fn_in_order:
  assumes run: "exec ls (pipeline nums [f]) = Some s"
    and fn: "f = transform fn name \<or> (f = square \<and> fn = (\<lambda>n. n * n)) \<or>
             (f = addTen \<and> fn = (\<lambda>n. n + 10)) \<or> (f = double \<and> fn = (\<lambda>n. n * 2))"
  shows "prefix (carried s (Link (Suc 0))) (map fn nums) \<and>
         prefix (carried s (Link (Suc 0))) (map fn (carried s (Link 0))) \<and>
         prefix (carried s (Link 0)) nums \<and>
         prefix (printed s) (carried s (Link (Suc 0))) \<and>
         (closed (chans s (Link (Suc 0))) \<longrightarrow> carried s (Link (Suc 0)) = map fn nums) \<and>
         (stuck s \<longrightarrow> closed (chans s (Link (Suc 0))) \<and> crashed s = None \<and>
            carried s (Link (Suc 0)) = map fn nums \<and> printed s = map fn nums) \<and>
         (\<exists>ms t. exec ms s = Some t \<and> stuck t)"
proof -
  from fn have e: "stage_expr f = fn" by (auto simp: fun_eq_iff)
  from stage_output_by_expr[OF run] show ?thesis unfolding e .
qed

theorem stage_applies_fn_in_order_witness:
  "printed (the (exec two_item_schedule (pipeline [2, 3] [square]))) = [4, 9] \<and>
   carried (the (exec two_item_schedule (pipeline [2, 3] [square]))) (Link (Suc 0)) = [4, 9] \<and>
   closed (chans (the (exec two_item_schedule (pipeline [2, 3] [square]))) (Link (Suc 0))) \<and>
   stuck (the (exec two_item_schedule (pipeline [2, 3] [square]))) \<and>
   printed (the (exec two_item_schedule
      (pipeline [2, 3] [transform (\<lambda>n. n + 1) ''inc'']))) = [3, 4] \<and>
   carried (the (exec two_item_schedule
      (pipeline [2, 3] [transform (\<lambda>n. n + 1) ''inc'']))) (Link (Suc 0)) = [3, 4]"
  using
    stage_applies_fn_in_order[OF two_item_run, of square "\<lambda>n. n * n" "''sq''" 2 3]
    stage_applies_fn_in_order[OF two_item_run,
      of "transform (\<lambda>n. n + 1) ''inc''" "\<lambda>n. n + 1" "''inc''" 2 3]
    two_item_stuck[of 2 3 square] two_item_stuck[of 2 3 "transform (\<lambda>n. n + 1) ''inc''"]
  by simp




lemmas merge_run_simps = step_def solo_def sync_def proceed_def panic_def set_chan_def boot_def
  new_chan_def merger_def merge_next_def fanIn_def carried_def vals_def sent_by_def

lemma two_lane_run:
  "exec two_lane_schedule (merger [[1], [2]]) =
     Some (the (exec two_lane_schedule (merger [[1], [2]])))"
  by (simp add: two_lane_schedule_def merge_run_simps)

lemma two_lane_end:
  "gors (the (exec two_lane_schedule (merger [[1], [2]]))) GMain = Some Exited"
  "printed (the (exec two_lane_schedule (merger [[1], [2]]))) = [2, 1]"
  "carried (the (exec two_lane_schedule (merger [[1], [2]]))) Merged = [2, 1]"
  "sent_by (the (exec two_lane_schedule (merger [[1], [2]]))) (GFwd 0) Merged = [1]"
  "sent_by (the (exec two_lane_schedule (merger [[1], [2]]))) (GFwd 1) Merged = [2]"
  "closed (chans (the (exec two_lane_schedule (merger [[1], [2]]))) Merged)"
  "closers (chans (the (exec two_lane_schedule (merger [[1], [2]]))) Merged) = [GCloser]"
  "wg (the (exec two_lane_schedule (merger [[1], [2]]))) = 0"
  by (simp_all add: two_lane_schedule_def merge_run_simps)

lemma no_lane_run:
  "exec no_lane_schedule (merger []) = Some (the (exec no_lane_schedule (merger [])))"
  by (simp add: no_lane_schedule_def merge_run_simps)

lemma no_lane_end:
  "gors (the (exec no_lane_schedule (merger []))) GMain = Some Exited"
  "printed (the (exec no_lane_schedule (merger []))) = []"
  "closed (chans (the (exec no_lane_schedule (merger []))) Merged)"
  "closers (chans (the (exec no_lane_schedule (merger []))) Merged) = [GCloser]"
  by (simp_all add: no_lane_schedule_def merge_run_simps)

lemma two_lane_stuck: "stuck (the (exec two_lane_schedule (merger [[1], [2]])))"
  by (rule not_alive_stuck) (simp add: alive_def two_lane_end)

lemma no_lane_stuck: "stuck (the (exec no_lane_schedule (merger [])))"
  by (rule not_alive_stuck) (simp add: alive_def no_lane_end)

lemma sent_by_proj: "sent_by s g c = proj g (sent (chans s c))"
  by (simp add: sent_by_def proj_def)

lemma merge_closers:
  assumes inv: "merge_inv xss s"
  shows "closers (chans s Merged) = (if closed (chans s Merged) then [GCloser] else [])"
proof (cases "gors s GCloser")
  case None
  with merge_invD(6)[OF inv] show ?thesis by (simp add: fin_closer_def)
next
  case (Some st)
  with merge_invD(6)[OF inv]
  have ok: "closer_ok (closer_started (gors s GMain)) (wg s) (chans s Merged) (Some st)"
    by (simp add: fin_closer_def)
  from closer_okD[OF ok] ok show ?thesis by auto
qed

text \<open>
  C1. In every run of \<open>fanIn\<close> on any inputs: the program never panics (no send on a
  closed channel, no second close, no negative counter); only the forwarders send on the
  output; only the closer closes it, and at most once; as long as a forwarder has not
  returned the output is open and the counter is above zero; once the output is closed the
  counter is zero, every forwarder has returned and every input is closed; and a run that
  cannot go on has closed the output exactly once.
\<close>

theorem fanIn_closes_once_after_all:
  assumes "exec ls (merger xss) = Some s"
  shows "crashed s = None \<and>
         (\<forall>p \<in> set (sent (chans s Merged)). \<exists>k<length xss. fst p = GFwd k) \<and>
         closers (chans s Merged) = (if closed (chans s Merged) then [GCloser] else []) \<and>
         (\<forall>k st. gors s (GFwd k) = Some st \<and> st \<noteq> Exited \<longrightarrow>
            \<not> closed (chans s Merged) \<and> wg s \<noteq> 0) \<and>
         (closed (chans s Merged) \<longrightarrow>
            wg s = 0 \<and> gors s GCloser = Some Exited \<and>
            (\<forall>k<length xss. gors s (GFwd k) = Some Exited \<and> closed (chans s (Src k)))) \<and>
         (stuck s \<longrightarrow> closers (chans s Merged) = [GCloser])"
proof -
  note inv = merge_reach[OF assms]
  from merge_invD(1)[OF inv] have 1: "crashed s = None" by (simp add: merge_base_def)
  from merge_invD(7)[OF inv]
  have 2: "\<forall>p \<in> set (sent (chans s Merged)). \<exists>k<length xss. fst p = GFwd k"
    by (simp add: fin_senders_def)
  note 3 = merge_closers[OF inv]
  have 4: "\<forall>k st. gors s (GFwd k) = Some st \<and> st \<noteq> Exited \<longrightarrow>
      \<not> closed (chans s Merged) \<and> wg s \<noteq> 0"
    using merge_open_while_active[OF inv] by blast
  have 5: "wg s = 0 \<and> gors s GCloser = Some Exited \<and>
      (\<forall>k<length xss. gors s (GFwd k) = Some Exited \<and> closed (chans s (Src k)))"
    if c: "closed (chans s Merged)"
  proof -
    from merge_invD(6)[OF inv] c obtain cst where cst: "gors s GCloser = Some cst"
      "closer_ok (closer_started (gors s GMain)) (wg s) (chans s Merged) (Some cst)"
      by (cases "gors s GCloser") (auto simp: fin_closer_def)
    from closer_okD[OF cst(2)] c cst(1) have "wg s = 0" "gors s GCloser = Some Exited" by auto
    with merge_closed_all_done(1,2)[OF inv c] show ?thesis by blast
  qed
  have 6: "closers (chans s Merged) = [GCloser]" if "stuck s"
    using merge_finished(2)[OF inv merge_stuck_exited(1)[OF inv that]] 3 by simp
  from 1 2 3 4 5 6 show ?thesis by blast
qed

theorem fanIn_closes_once_after_all_witness:
  "closers (chans (the (exec two_lane_schedule (merger [[1], [2]]))) Merged) = [GCloser] \<and>
   wg (the (exec two_lane_schedule (merger [[1], [2]]))) = 0 \<and>
   gors (the (exec two_lane_schedule (merger [[1], [2]]))) (GFwd 0) = Some Exited \<and>
   gors (the (exec two_lane_schedule (merger [[1], [2]]))) (GFwd 1) = Some Exited \<and>
   closed (chans (the (exec two_lane_schedule (merger [[1], [2]]))) (Src 0)) \<and>
   closed (chans (the (exec two_lane_schedule (merger [[1], [2]]))) (Src 1)) \<and>
   crashed (the (exec two_lane_schedule (merger [[1], [2]]))) = None"
  using fanIn_closes_once_after_all[OF two_lane_run] two_lane_end(6) two_lane_stuck
  by (simp add: less_Suc_eq)

text \<open>
  C3. In every run of \<open>fanIn\<close> on the input sequences \<open>xss\<close>: what forwarder \<open>k\<close>
  has put on the output is a prefix of input \<open>k\<close>, in its order; the output is, as a
  multiset, the sum of what the forwarders have put on it, and is contained in the union
  of the inputs; the output is closed only when every input is closed and every input
  has been forwarded whole, so that the output is then the union of the inputs; a run
  that cannot go on has closed the output and printed all of it; and every run can be
  continued to such an end.
\<close>

theorem fanIn_merges_all_in_lane_order:
  assumes "exec ls (merger xss) = Some s"
  shows "(\<forall>k<length xss. prefix (sent_by s (GFwd k) Merged) (xss ! k)) \<and>
         mset (carried s Merged) = (\<Sum>k<length xss. mset (sent_by s (GFwd k) Merged)) \<and>
         mset (carried s Merged) \<subseteq># mset (concat xss) \<and>
         (closed (chans s Merged) \<longrightarrow>
            (\<forall>k<length xss. closed (chans s (Src k)) \<and> sent_by s (GFwd k) Merged = xss ! k) \<and>
            mset (carried s Merged) = mset (concat xss)) \<and>
         (stuck s \<longrightarrow>
            closed (chans s Merged) \<and> printed s = carried s Merged \<and>
            mset (printed s) = mset (concat xss)) \<and>
         (\<exists>ms t. exec ms s = Some t \<and> stuck t)"
proof -
  note inv = merge_reach[OF assms]
  have 1: "\<forall>k<length xss. prefix (sent_by s (GFwd k) Merged) (xss ! k)"
    using merge_lane_prefix[OF inv] prefix_order.trans by (fastforce simp: sent_by_proj)
  note 2 = merge_mset(1)[OF inv, folded sent_by_proj] and 3 = merge_mset(2)[OF inv]
  have 4: "(\<forall>k<length xss. closed (chans s (Src k)) \<and> sent_by s (GFwd k) Merged = xss ! k) \<and>
      mset (carried s Merged) = mset (concat xss)" if c: "closed (chans s Merged)"
    using merge_closed_all_done(2,3)[OF inv c] merge_mset(3)[OF inv c]
    by (simp add: sent_by_proj)
  have 5: "closed (chans s Merged) \<and> printed s = carried s Merged \<and>
      mset (printed s) = mset (concat xss)" if "stuck s"
  proof -
    note f = merge_finished[OF inv merge_stuck_exited(1)[OF inv that]]
    with merge_mset(3)[OF inv f(2)] show ?thesis by simp
  qed
  from 1 2 3 4 5 merge_can_finish[OF assms] show ?thesis by blast
qed

theorem fanIn_merges_all_in_lane_order_witness:
  "printed (the (exec two_lane_schedule (merger [[1], [2]]))) = [2, 1] \<and>
   sent_by (the (exec two_lane_schedule (merger [[1], [2]]))) (GFwd 0) Merged = [1] \<and>
   sent_by (the (exec two_lane_schedule (merger [[1], [2]]))) (GFwd 1) Merged = [2] \<and>
   mset (printed (the (exec two_lane_schedule (merger [[1], [2]])))) = mset (concat [[1], [2]]) \<and>
   closed (chans (the (exec two_lane_schedule (merger [[1], [2]]))) (Src 0)) \<and>
   closed (chans (the (exec two_lane_schedule (merger [[1], [2]]))) (Src 1))"
  using fanIn_merges_all_in_lane_order[OF two_lane_run] two_lane_end two_lane_stuck
  by (simp add: less_Suc_eq)

text \<open>
  C10. \<open>fanIn\<close> on no channels: it goes straight to starting the closer (line 104);
  in every run the counter is zero, nothing is sent or printed and nothing panics; the
  closer's \<open>wg.Wait()\<close> never blocks; the whole run has at most four steps; a run that
  cannot go on has closed the output (once, by the closer) and main has returned; and
  every run can be continued to that end.
\<close>

theorem fanIn_of_nothing:
  assumes "exec ls (merger []) = Some s"
  shows "fanIn 0 [] = fanIn_closer \<and>
         crashed s = None \<and> wg s = 0 \<and> sent (chans s Merged) = [] \<and> printed s = [] \<and>
         (\<forall>k. gors s (GFwd k) = None) \<and>
         (gors s GCloser = Some closer_wait \<longrightarrow> (\<exists>s'. step s (Solo GCloser) = Some s')) \<and>
         length ls \<le> 4 \<and>
         (stuck s \<longrightarrow> closed (chans s Merged) \<and> closers (chans s Merged) = [GCloser] \<and>
            gors s GMain = Some Exited) \<and>
         (\<exists>ms t. exec ms s = Some t \<and> stuck t)"
proof -
  note inv = merge_reach[OF assms]
  have 0: "fanIn 0 [] = fanIn_closer" by (simp add: fanIn_def)
  from merge_invD(1)[OF inv] have 1: "crashed s = None" by (simp add: merge_base_def)
  from merge_invD(2)[OF inv] obtain m where m: "gors s GMain = Some m"
    "merge_main_ok [] (printed s) (chans s Merged) m"
    by (auto simp: merge_main_inv_def split: option.splits)
  from merge_main_okD[OF m(2)] m(1) have "pending_add (gors s GMain) = 0" by auto
  with merge_invD(5)[OF inv] have 2: "wg s = 0" by (simp add: fin_wg_def)
  from merge_invD(7)[OF inv] have 3: "sent (chans s Merged) = []"
    by (cases "sent (chans s Merged)") (auto simp: fin_senders_def)
  from merge_printed_prefix[OF inv] 3 have 4: "printed s = []"
    by (simp add: carried_def vals_Nil)
  have 5: "\<forall>k. gors s (GFwd k) = None"
    using merge_fwd_lt[OF inv] by (metis list.size(3) not_less_zero option.exhaust)
  have 6: "\<exists>s'. step s (Solo GCloser) = Some s'" if c: "gors s GCloser = Some closer_wait"
  proof -
    from merge_invD(6)[OF inv] c have "\<not> closed (chans s Merged)"
      by (simp add: fin_closer_def)
    with merge_finished(2)[OF inv] have "gors s GMain \<noteq> Some Exited" by auto
    with c 1 2 show ?thesis
      by (auto simp: step_def solo_def split: option.splits gor.splits)
  qed
  from merge_run_length[OF assms] have 7: "length ls \<le> 4" by simp
  have 8: "closed (chans s Merged) \<and> closers (chans s Merged) = [GCloser] \<and>
      gors s GMain = Some Exited" if "stuck s"
    using merge_finished(2)[OF inv merge_stuck_exited(1)[OF inv that]] merge_closers[OF inv]
      merge_stuck_exited(1)[OF inv that] by simp
  from 0 1 2 3 4 5 6 7 8 merge_can_finish[OF assms] show ?thesis by blast
qed

theorem fanIn_of_nothing_witness:
  "closed (chans (the (exec no_lane_schedule (merger []))) Merged) \<and>
   closers (chans (the (exec no_lane_schedule (merger []))) Merged) = [GCloser] \<and>
   printed (the (exec no_lane_schedule (merger []))) = [] \<and>
   length no_lane_schedule \<le> 4"
  using fanIn_of_nothing[OF no_lane_run] no_lane_stuck
  by simp

subsection \<open>The source\<close>

lemma empty_source_run:
  "exec empty_source_schedule (pipeline [] []) =
     Some (the (exec empty_source_schedule (pipeline [] [])))"
  by (simp add: empty_source_schedule_def run_simps)

lemma empty_source_end:
  "gors (the (exec empty_source_schedule (pipeline [] []))) GMain = Some Exited"
  "gors (the (exec empty_source_schedule (pipeline [] []))) (GGen 0) = Some Exited"
  "printed (the (exec empty_source_schedule (pipeline [] []))) = []"
  "carried (the (exec empty_source_schedule (pipeline [] []))) (Link 0) = []"
  "closed (chans (the (exec empty_source_schedule (pipeline [] []))) (Link 0))"
  "closers (chans (the (exec empty_source_schedule (pipeline [] []))) (Link 0)) = [GGen 0]"
  by (simp_all add: empty_source_schedule_def run_simps)

lemma empty_source_stuck: "stuck (the (exec empty_source_schedule (pipeline [] [])))"
  by (rule not_alive_stuck) (simp add: alive_def empty_source_end)

lemma two_lane_sources:
  "carried (the (exec two_lane_schedule (merger [[1], [2]]))) (Src (Suc 0)) = [2]"
  "closers (chans (the (exec two_lane_schedule (merger [[1], [2]]))) (Src (Suc 0))) = [GGen (Suc 0)]"
  by (simp_all add: two_lane_schedule_def merge_run_simps carried_def vals_def)

lemma pipe_gen_done:
  "pipe_gen_ok nums ch st \<Longrightarrow>
     (\<exists>rest. st = generate_loop rest (Link 0) \<and> vals ch @ rest = nums \<and> \<not> closed ch) \<or>
     (st = Exited \<and> vals ch = nums \<and> closed ch)"
  by (cases st) auto

lemma merge_gen_done:
  "merge_gen_ok xs c ch st \<Longrightarrow>
     (\<exists>rest. st = generator_loop rest c \<and> vals ch @ rest = xs \<and> \<not> closed ch) \<or>
     (st = Exited \<and> vals ch = xs \<and> closed ch)"
  by (cases st) auto

text \<open>What a source has done, read off the state of its goroutine.\<close>

lemma generate_source:
  assumes inv: "pipe_inv nums fs s"
  shows "(gors s (GGen 0) = None \<longrightarrow> sent (chans s (Link 0)) = [] \<and> \<not> closed (chans s (Link 0)))"
    "prefix (carried s (Link 0)) nums"
    "closed (chans s (Link 0)) \<longrightarrow> carried s (Link 0) = nums \<and> gors s (GGen 0) = Some Exited"
    "gors s (GGen 0) = Some Exited \<longrightarrow> closed (chans s (Link 0))"
    "gors s (GGen 0) = None \<or>
     (\<exists>rest. gors s (GGen 0) = Some (generate_loop rest (Link 0)) \<and>
        carried s (Link 0) @ rest = nums) \<or>
     gors s (GGen 0) = Some Exited"
proof -
  show "gors s (GGen 0) = None \<longrightarrow> sent (chans s (Link 0)) = [] \<and> \<not> closed (chans s (Link 0))"
    using pipe_invD(3)[OF inv] by (auto simp: pipe_gen_inv_def)
  show "prefix (carried s (Link 0)) nums"
    using pipe_carried_prefix[OF inv, of 0] by (auto simp: pipe_fun_def prefix_def)
  show "closed (chans s (Link 0)) \<longrightarrow> carried s (Link 0) = nums \<and> gors s (GGen 0) = Some Exited"
    using pipe_closed_complete[OF inv, of 0] by (auto simp: pipe_fun_def)
  show "gors s (GGen 0) = Some Exited \<longrightarrow> closed (chans s (Link 0))"
    using pipe_invD(3)[OF inv] by (auto simp: pipe_gen_inv_def)
  show "gors s (GGen 0) = None \<or>
     (\<exists>rest. gors s (GGen 0) = Some (generate_loop rest (Link 0)) \<and>
        carried s (Link 0) @ rest = nums) \<or>
     gors s (GGen 0) = Some Exited"
  proof (cases "gors s (GGen 0)")
    case (Some st)
    with pipe_invD(3)[OF inv] have "pipe_gen_ok nums (chans s (Link 0)) st"
      by (simp add: pipe_gen_inv_def)
    from pipe_gen_done[OF this] Some show ?thesis by (auto simp: carried_def)
  qed simp
qed

lemma generator_source:
  assumes inv: "merge_inv xss s" and k: "k < length xss"
  shows "(gors s (GGen k) = None \<longrightarrow> sent (chans s (Src k)) = [] \<and> \<not> closed (chans s (Src k)))"
    "prefix (carried s (Src k)) (xss ! k)"
    "closed (chans s (Src k)) \<longrightarrow> carried s (Src k) = xss ! k \<and> gors s (GGen k) = Some Exited"
    "gors s (GGen k) = Some Exited \<longrightarrow> closed (chans s (Src k))"
    "gors s (GGen k) = None \<or>
     (\<exists>rest. gors s (GGen k) = Some (generator_loop rest (Src k)) \<and>
        carried s (Src k) @ rest = xss ! k) \<or>
     gors s (GGen k) = Some Exited"
proof -
  show "gors s (GGen k) = None \<longrightarrow> sent (chans s (Src k)) = [] \<and> \<not> closed (chans s (Src k))"
    using merge_invD(3)[OF inv, of k] by (auto simp: merge_gen_inv_def)
  show "prefix (carried s (Src k)) (xss ! k)"
    using merge_lane_prefix(2)[OF inv k] by (simp add: carried_def)
  show 5: "gors s (GGen k) = None \<or>
     (\<exists>rest. gors s (GGen k) = Some (generator_loop rest (Src k)) \<and>
        carried s (Src k) @ rest = xss ! k) \<or>
     gors s (GGen k) = Some Exited"
  proof (cases "gors s (GGen k)")
    case (Some st)
    with merge_invD(3)[OF inv, of k] have "merge_gen_ok (xss ! k) (Src k) (chans s (Src k)) st"
      by (simp add: merge_gen_inv_def)
    from merge_gen_done[OF this] Some show ?thesis by (auto simp: carried_def)
  qed simp
  show "closed (chans s (Src k)) \<longrightarrow> carried s (Src k) = xss ! k \<and> gors s (GGen k) = Some Exited"
    using merge_invD(3)[OF inv, of k]
    by (auto simp: merge_gen_inv_def carried_def split: option.splits dest!: merge_gen_done)
  show "gors s (GGen k) = Some Exited \<longrightarrow> closed (chans s (Src k))"
    using merge_invD(3)[OF inv, of k] by (auto simp: merge_gen_inv_def)
qed


text \<open>
  C7. The source (\<open>generate\<close> of the pipeline, \<open>generator\<close> of the fan programs). Its
  channel is new when the producer is launched: nothing sent on it, not closed. In every
  run the channel has carried a prefix of the input, in order, all of it sent by the
  producer; the producer stands at the rest of the input; the channel is closed exactly
  when the producer has returned, by the producer, once, and then the whole input has
  been sent. Nothing panics, a run that cannot go on has closed the channel with the
  whole input sent, and every run can be continued to such an end. On the empty input
  the producer's first and only action is the \<open>close\<close>, and nothing is ever sent.
\<close>

theorem source_sends_all_then_closes:
  "(exec ls (pipeline nums fs) = Some s \<longrightarrow>
      crashed s = None \<and>
      (gors s (GGen 0) = None \<longrightarrow> sent (chans s (Link 0)) = [] \<and> \<not> closed (chans s (Link 0))) \<and>
      prefix (carried s (Link 0)) nums \<and>
      (\<forall>p \<in> set (sent (chans s (Link 0))). fst p = GGen 0) \<and>
      closers (chans s (Link 0)) = (if closed (chans s (Link 0)) then [GGen 0] else []) \<and>
      (gors s (GGen 0) = None \<or>
       (\<exists>rest. gors s (GGen 0) = Some (generate_loop rest (Link 0)) \<and>
          carried s (Link 0) @ rest = nums) \<or>
       gors s (GGen 0) = Some Exited) \<and>
      (closed (chans s (Link 0)) \<longleftrightarrow> gors s (GGen 0) = Some Exited) \<and>
      (closed (chans s (Link 0)) \<longrightarrow> carried s (Link 0) = nums) \<and>
      (nums = [] \<longrightarrow> carried s (Link 0) = []) \<and>
      (stuck s \<longrightarrow> closed (chans s (Link 0)) \<and> carried s (Link 0) = nums) \<and>
      (\<exists>ms t. exec ms s = Some t \<and> stuck t)) \<and>
   (exec ls (merger xss) = Some s \<and> k < length xss \<longrightarrow>
      crashed s = None \<and>
      (gors s (GGen k) = None \<longrightarrow> sent (chans s (Src k)) = [] \<and> \<not> closed (chans s (Src k))) \<and>
      prefix (carried s (Src k)) (xss ! k) \<and>
      (\<forall>p \<in> set (sent (chans s (Src k))). fst p = GGen k) \<and>
      closers (chans s (Src k)) = (if closed (chans s (Src k)) then [GGen k] else []) \<and>
      (gors s (GGen k) = None \<or>
       (\<exists>rest. gors s (GGen k) = Some (generator_loop rest (Src k)) \<and>
          carried s (Src k) @ rest = xss ! k) \<or>
       gors s (GGen k) = Some Exited) \<and>
      (closed (chans s (Src k)) \<longleftrightarrow> gors s (GGen k) = Some Exited) \<and>
      (closed (chans s (Src k)) \<longrightarrow> carried s (Src k) = xss ! k) \<and>
      (xss ! k = [] \<longrightarrow> carried s (Src k) = []) \<and>
      (stuck s \<longrightarrow> closed (chans s (Src k)) \<and> carried s (Src k) = xss ! k) \<and>
      (\<exists>ms t. exec ms s = Some t \<and> stuck t)) \<and>
   instr (generate_loop [] c) = (Cls c, \<lambda>_. Exited) \<and>
   instr (generate_loop (n # rest) c) = (Snd c n, \<lambda>_. generate_loop rest c) \<and>
   instr (generator_loop [] c) = (Cls c, \<lambda>_. Exited) \<and>
   instr (generator_loop (n # rest) c) = (Snd c n, \<lambda>_. generator_loop rest c)"
proof -
  have pipe: "crashed s = None \<and>
      (gors s (GGen 0) = None \<longrightarrow> sent (chans s (Link 0)) = [] \<and> \<not> closed (chans s (Link 0))) \<and>
      prefix (carried s (Link 0)) nums \<and>
      (\<forall>p \<in> set (sent (chans s (Link 0))). fst p = GGen 0) \<and>
      closers (chans s (Link 0)) = (if closed (chans s (Link 0)) then [GGen 0] else []) \<and>
      (gors s (GGen 0) = None \<or>
       (\<exists>rest. gors s (GGen 0) = Some (generate_loop rest (Link 0)) \<and>
          carried s (Link 0) @ rest = nums) \<or>
       gors s (GGen 0) = Some Exited) \<and>
      (closed (chans s (Link 0)) \<longleftrightarrow> gors s (GGen 0) = Some Exited) \<and>
      (closed (chans s (Link 0)) \<longrightarrow> carried s (Link 0) = nums) \<and>
      (nums = [] \<longrightarrow> carried s (Link 0) = []) \<and>
      (stuck s \<longrightarrow> closed (chans s (Link 0)) \<and> carried s (Link 0) = nums) \<and>
      (\<exists>ms t. exec ms s = Some t \<and> stuck t)"
    if run: "exec ls (pipeline nums fs) = Some s"
  proof -
    note inv = pipe_reach[OF run]
    note src = generate_source[OF inv]
    have 1: "crashed s = None" using pipe_invD(1)[OF inv] by (simp add: pipe_base_def)
    have 2: "\<forall>p \<in> set (sent (chans s (Link 0))). fst p = GGen 0"
      using pipe_invD(5)[OF inv, of 0] by (simp add: pipe_chan_inv_def)
    have 3: "closers (chans s (Link 0)) = (if closed (chans s (Link 0)) then [GGen 0] else [])"
      using pipe_invD(5)[OF inv, of 0] by (simp add: pipe_chan_inv_def)
    have 4: "carried s (Link 0) = []" if "nums = []" using src(2) that by simp
    have 5: "closed (chans s (Link 0)) \<and> carried s (Link 0) = nums" if "stuck s"
      using pipe_finished(5)[OF inv pipe_stuck_exited(1)[OF inv that]] src(3,4) by blast
    from 1 2 3 4 5 src pipe_can_finish[OF run] show ?thesis by blast
  qed
  have merge: "crashed s = None \<and>
      (gors s (GGen k) = None \<longrightarrow> sent (chans s (Src k)) = [] \<and> \<not> closed (chans s (Src k))) \<and>
      prefix (carried s (Src k)) (xss ! k) \<and>
      (\<forall>p \<in> set (sent (chans s (Src k))). fst p = GGen k) \<and>
      closers (chans s (Src k)) = (if closed (chans s (Src k)) then [GGen k] else []) \<and>
      (gors s (GGen k) = None \<or>
       (\<exists>rest. gors s (GGen k) = Some (generator_loop rest (Src k)) \<and>
          carried s (Src k) @ rest = xss ! k) \<or>
       gors s (GGen k) = Some Exited) \<and>
      (closed (chans s (Src k)) \<longleftrightarrow> gors s (GGen k) = Some Exited) \<and>
      (closed (chans s (Src k)) \<longrightarrow> carried s (Src k) = xss ! k) \<and>
      (xss ! k = [] \<longrightarrow> carried s (Src k) = []) \<and>
      (stuck s \<longrightarrow> closed (chans s (Src k)) \<and> carried s (Src k) = xss ! k) \<and>
      (\<exists>ms t. exec ms s = Some t \<and> stuck t)"
    if run: "exec ls (merger xss) = Some s" and k: "k < length xss"
  proof -
    note inv = merge_reach[OF run]
    note src = generator_source[OF inv k]
    have 1: "crashed s = None" using merge_invD(1)[OF inv] by (simp add: merge_base_def)
    have 2: "\<forall>p \<in> set (sent (chans s (Src k))). fst p = GGen k"
      using merge_invD(8)[OF inv, of k] by (simp add: src_chan_inv_def)
    have 3: "closers (chans s (Src k)) = (if closed (chans s (Src k)) then [GGen k] else [])"
      using merge_invD(8)[OF inv, of k] by (simp add: src_chan_inv_def)
    have 4: "carried s (Src k) = []" if "xss ! k = []" using src(2) that by simp
    have 5: "closed (chans s (Src k)) \<and> carried s (Src k) = xss ! k" if "stuck s"
    proof -
      from merge_stuck_exited(1)[OF inv that] have "gors s GMain = Some Exited" .
      from merge_finished(2)[OF inv this] have "closed (chans s Merged)" .
      from merge_closed_all_done(2)[OF inv this k] src(3) show ?thesis by blast
    qed
    from 1 2 3 4 5 src merge_can_finish[OF run] show ?thesis by blast
  qed
  have "instr (generate_loop [] c) = (Cls c, \<lambda>_. Exited)"
    "instr (generate_loop (n # rest) c) = (Snd c n, \<lambda>_. generate_loop rest c)"
    "instr (generator_loop [] c) = (Cls c, \<lambda>_. Exited)"
    "instr (generator_loop (n # rest) c) = (Snd c n, \<lambda>_. generator_loop rest c)"
    by simp_all
  with pipe merge show ?thesis by blast
qed

theorem source_sends_all_then_closes_witness:
  "carried (the (exec empty_source_schedule (pipeline [] []))) (Link 0) = [] \<and>
   closed (chans (the (exec empty_source_schedule (pipeline [] []))) (Link 0)) \<and>
   closers (chans (the (exec empty_source_schedule (pipeline [] []))) (Link 0)) = [GGen 0] \<and>
   gors (the (exec empty_source_schedule (pipeline [] []))) (GGen 0) = Some Exited \<and>
   crashed (the (exec empty_source_schedule (pipeline [] []))) = None \<and>
   carried (the (exec two_lane_schedule (merger [[1], [2]]))) (Src (Suc 0)) = [2] \<and>
   closed (chans (the (exec two_lane_schedule (merger [[1], [2]]))) (Src (Suc 0))) \<and>
   closers (chans (the (exec two_lane_schedule (merger [[1], [2]]))) (Src (Suc 0))) = [GGen (Suc 0)] \<and>
   gors (the (exec two_lane_schedule (merger [[1], [2]]))) (GGen (Suc 0)) = Some Exited"
  using
    source_sends_all_then_closes[THEN conjunct1, rule_format, OF empty_source_run]
    source_sends_all_then_closes[where ls = two_lane_schedule and xss = "[[1], [2]]" and
        k = "Suc 0" and s = "the (exec two_lane_schedule (merger [[1], [2]]))",
      THEN conjunct2, THEN conjunct1]
    empty_source_stuck two_lane_run two_lane_stuck
  by auto

lemmas pool_run_simps = step_def solo_def sync_def proceed_def panic_def set_chan_def boot_def
  new_chan_def pool_def pool_workers_def pool_jobs_def carried_def vals_def

lemma one_job_run:
  "exec one_job_schedule (pool (Suc 0) (Suc 0)) = Some (the (exec one_job_schedule (pool (Suc 0) (Suc 0))))"
  by (simp add: one_job_schedule_def pool_run_simps)

lemma one_job_end:
  "gors (the (exec one_job_schedule (pool (Suc 0) (Suc 0)))) GMain = Some Exited"
  "gors (the (exec one_job_schedule (pool (Suc 0) (Suc 0)))) (GWorker (Suc 0)) = Some Exited"
  "printed (the (exec one_job_schedule (pool (Suc 0) (Suc 0)))) = [2]"
  "carried (the (exec one_job_schedule (pool (Suc 0) (Suc 0)))) Jobs = [1]"
  "carried (the (exec one_job_schedule (pool (Suc 0) (Suc 0)))) Results = [2]"
  "closed (chans (the (exec one_job_schedule (pool (Suc 0) (Suc 0)))) Jobs)"
  "closed (chans (the (exec one_job_schedule (pool (Suc 0) (Suc 0)))) Results)"
  "closers (chans (the (exec one_job_schedule (pool (Suc 0) (Suc 0)))) Jobs) = [GMain]"
  "closers (chans (the (exec one_job_schedule (pool (Suc 0) (Suc 0)))) Results) = [GMain]"
  "wg (the (exec one_job_schedule (pool (Suc 0) (Suc 0)))) = 0"
  by (simp_all add: one_job_schedule_def pool_run_simps)

lemma one_job_stuck: "stuck (the (exec one_job_schedule (pool (Suc 0) (Suc 0))))"
  by (rule not_alive_stuck) (simp add: alive_def one_job_end)

lemma pool_jobs_prefix:
  assumes inv: "pool_inv J W s"
  shows "prefix (carried s Jobs) (all_jobs J)"
    "closed (chans s Jobs) \<longrightarrow> carried s Jobs = all_jobs J"
proof -
  from pool_main_obtain[OF inv] obtain m where m: "gors s GMain = Some m"
    "pool_main_ok J W (chans s Jobs) (chans s Results) (printed s) (wg s) m" .
  have up: "prefix (map of_nat [Suc 0..<j]) (all_jobs J)" if "j \<le> J" for j
  proof (cases "Suc 0 \<le> j")
    case True
    from that obtain d where d: "Suc J = j + d" by (auto simp: le_iff_add)
    from upt_add_eq_append[OF True, of d] d show ?thesis
      unfolding all_jobs_def by (simp add: prefix_def del: upt_Suc)
  qed simp
  from pool_main_okD[OF m(2)] m(2) show "prefix (carried s Jobs) (all_jobs J)"
    by (auto simp: carried_def vals_Nil intro: up)
  from pool_main_okD[OF m(2)] m(2) show "closed (chans s Jobs) \<longrightarrow> carried s Jobs = all_jobs J"
    by (auto simp: carried_def)
qed

text \<open>Once \<open>results\<close> is closed, the counter is zero and every worker has returned.\<close>

lemma pool_closed_results:
  assumes inv: "pool_inv J W s" and c: "closed (chans s Results)"
  shows "wg s = 0" "closed (chans s Jobs)" "workers_started W (gors s GMain) = Suc W"
    "1 \<le> i \<Longrightarrow> i \<le> W \<Longrightarrow> gors s (GWorker i) = Some Exited"
proof -
  from pool_main_obtain[OF inv] obtain m where m: "gors s GMain = Some m"
    "pool_main_ok J W (chans s Jobs) (chans s Results) (printed s) (wg s) m" .
  from pool_main_okD[OF m(2)] m c show w: "wg s = 0" and "closed (chans s Jobs)"
    and st: "workers_started W (gors s GMain) = Suc W"
    by auto
  assume i: "1 \<le> i" "i \<le> W"
  with pool_invD(3)[OF inv, of i] st obtain wst where wst: "gors s (GWorker i) = Some wst"
    "worker_ok i wst"
    by (auto simp: pool_worker_inv_def split: option.splits)
  from pool_open_while_active(1)[OF inv wst(1)] w show "gors s (GWorker i) = Some Exited"
    using wst(1) by auto
qed

lemma pool_finished:
  assumes inv: "pool_inv J W s" and ex: "gors s GMain = Some Exited"
  shows "closed (chans s Jobs)" "closed (chans s Results)" "printed s = carried s Results"
    "carried s Jobs = all_jobs J"
  using pool_invD(2)[OF inv] ex by (simp_all add: pool_main_inv_def carried_def)

text \<open>
  C6. Who closes what in the worker pool, in every run of \<open>main\<close> with \<open>J\<close> jobs and
  \<open>W\<close> workers. Nothing panics. Only main sends on \<open>jobs\<close>; \<open>jobs\<close> is closed at most
  once, by main and by no worker, and when it is closed main has sent all the jobs
  \<open>1, ..., J\<close> on it. Only workers send on \<open>results\<close>; \<open>results\<close> is closed at most once,
  by main and by no worker, and when it is closed the counter of the wait group is zero,
  \<open>jobs\<close> is closed and every one of the \<open>W\<close> workers has returned. A run that cannot go
  on has closed both channels, and every run can be continued to such an end.
\<close>

theorem pool_closes_by_owner_only:
  assumes "exec ls (pool J W) = Some s"
  shows "crashed s = None \<and>
         (\<forall>p \<in> set (sent (chans s Jobs)). fst p = GMain) \<and>
         closers (chans s Jobs) = (if closed (chans s Jobs) then [GMain] else []) \<and>
         prefix (carried s Jobs) (all_jobs J) \<and>
         (closed (chans s Jobs) \<longrightarrow> carried s Jobs = all_jobs J) \<and>
         (\<forall>p \<in> set (sent (chans s Results)). \<exists>i. 1 \<le> i \<and> i \<le> W \<and> fst p = GWorker i) \<and>
         closers (chans s Results) = (if closed (chans s Results) then [GMain] else []) \<and>
         (closed (chans s Results) \<longrightarrow>
            wg s = 0 \<and> closed (chans s Jobs) \<and>
            (\<forall>i. 1 \<le> i \<and> i \<le> W \<longrightarrow> gors s (GWorker i) = Some Exited)) \<and>
         (stuck s \<longrightarrow> closed (chans s Jobs) \<and> closed (chans s Results) \<and>
            closers (chans s Jobs) = [GMain] \<and> closers (chans s Results) = [GMain]) \<and>
         (\<exists>ms t. exec ms s = Some t \<and> stuck t)"
proof -
  note inv = pool_reach[OF assms]
  have 1: "crashed s = None" using pool_invD(1)[OF inv] by (simp add: pool_base_def)
  note ch = pool_invD(6)[OF inv, unfolded pool_chan_inv_def]
  have 2: "closed (chans s Results) \<longrightarrow>
            wg s = 0 \<and> closed (chans s Jobs) \<and>
            (\<forall>i. 1 \<le> i \<and> i \<le> W \<longrightarrow> gors s (GWorker i) = Some Exited)"
    using pool_closed_results[OF inv] by blast
  have 3: "closed (chans s Jobs) \<and> closed (chans s Results) \<and>
            closers (chans s Jobs) = [GMain] \<and> closers (chans s Results) = [GMain]"
    if "stuck s"
    using pool_finished(1,2)[OF inv pool_stuck_exited(1)[OF inv that]] ch by simp
  from 1 2 3 ch pool_jobs_prefix[OF inv] pool_can_finish[OF assms] show ?thesis by blast
qed

theorem pool_closes_by_owner_only_witness:
  "closers (chans (the (exec one_job_schedule (pool (Suc 0) (Suc 0)))) Jobs) = [GMain] \<and>
   closers (chans (the (exec one_job_schedule (pool (Suc 0) (Suc 0)))) Results) = [GMain] \<and>
   carried (the (exec one_job_schedule (pool (Suc 0) (Suc 0)))) Jobs = all_jobs (Suc 0) \<and>
   wg (the (exec one_job_schedule (pool (Suc 0) (Suc 0)))) = 0 \<and>
   gors (the (exec one_job_schedule (pool (Suc 0) (Suc 0)))) (GWorker (Suc 0)) = Some Exited \<and>
   crashed (the (exec one_job_schedule (pool (Suc 0) (Suc 0)))) = None"
  using pool_closes_by_owner_only[OF one_job_run] one_job_stuck
  by simp

subsection \<open>Programs with a width of zero\<close>

lemmas fan_run_simps = step_def solo_def sync_def proceed_def panic_def set_chan_def boot_def
  new_chan_def fan_def fan_workers_def fanIn_def dist_close_next_def carried_def vals_def

lemma no_worker_run:
  "exec no_worker_schedule (pool 5 0) = Some (the (exec no_worker_schedule (pool 5 0)))"
  by (simp add: no_worker_schedule_def pool_run_simps)

lemma no_worker_end:
  "gors (the (exec no_worker_schedule (pool 5 0))) GMain = Some Exited"
  "crashed (the (exec no_worker_schedule (pool 5 0))) = None"
  "carried (the (exec no_worker_schedule (pool 5 0))) Jobs = [1, 2, 3, 4, 5]"
  "printed (the (exec no_worker_schedule (pool 5 0))) = []"
  by (simp_all add: no_worker_schedule_def pool_run_simps)

lemma no_worker_stuck: "stuck (the (exec no_worker_schedule (pool 5 0)))"
  by (rule not_alive_stuck) (simp add: alive_def no_worker_end)

lemma zero_lanes_built:
  "exec zero_lanes_built_schedule (fan nums 0) =
     Some (the (exec zero_lanes_built_schedule (fan nums 0)))"
  "crashed (the (exec zero_lanes_built_schedule (fan nums 0))) = None"
  "gors (the (exec zero_lanes_built_schedule (fan nums 0))) GDist = Some (dist_range 0 0)"
  "gors (the (exec zero_lanes_built_schedule (fan nums 0))) GMain = Some fanIn_closer"
  by (simp_all add: zero_lanes_built_schedule_def fan_run_simps)

lemma zero_lanes_panic:
  "exec zero_lanes_panic_schedule (fan (v # rest) 0) =
     Some (the (exec zero_lanes_panic_schedule (fan (v # rest) 0)))"
  "crashed (the (exec zero_lanes_panic_schedule (fan (v # rest) 0))) = Some (GDist, DivideByZero)"
  "carried (the (exec zero_lanes_panic_schedule (fan (v # rest) 0))) Input = [v]"
  "printed (the (exec zero_lanes_panic_schedule (fan (v # rest) 0))) = []"
  by (simp_all add: zero_lanes_panic_schedule_def fan_run_simps)

lemma zero_lanes_quiet:
  "exec zero_lanes_quiet_schedule (fan nums 0) =
     Some (the (exec zero_lanes_quiet_schedule (fan nums 0)))"
  "crashed (the (exec zero_lanes_quiet_schedule (fan nums 0))) = None"
  "gors (the (exec zero_lanes_quiet_schedule (fan nums 0))) GMain = Some Exited"
  "printed (the (exec zero_lanes_quiet_schedule (fan nums 0))) = []"
  by (simp_all add: zero_lanes_quiet_schedule_def fan_run_simps)

lemma crashed_stuck: "crashed s \<noteq> None \<Longrightarrow> stuck s"
  by (rule not_alive_stuck) (simp add: alive_def)

text \<open>A pool without workers: nothing is ever sent on \<open>results\<close>, nothing printed.\<close>

lemma pool_no_workers:
  assumes inv: "pool_inv J 0 s"
  shows "gors s (GWorker i) = None" "carried s Results = []" "printed s = []"
proof -
  show "gors s (GWorker i) = None"
  proof (cases "gors s (GWorker i)")
    case (Some st)
    from pool_worker_bounds(1,2)[OF inv Some] show ?thesis by simp
  qed simp
  have "sent (chans s Results) = []"
  proof (cases "sent (chans s Results)")
    case (Cons p ps)
    then have "p \<in> set (sent (chans s Results))" by simp
    with pool_invD(6)[OF inv] obtain i :: nat where "1 \<le> i" "i \<le> 0"
      unfolding pool_chan_inv_def by blast
    then show ?thesis by simp
  qed simp
  then show r: "carried s Results = []" by (simp add: carried_def vals_def)
  from pool_main_obtain[OF inv] obtain m where m: "gors s GMain = Some m"
    "pool_main_ok J 0 (chans s Jobs) (chans s Results) (printed s) (wg s) m" .
  from pool_main_okD[OF m(2)] m(2) r show "printed s = []"
    by (auto simp: carried_def)
qed

text \<open>
  C8, as the code has it. No width is validated anywhere. A worker pool of no workers is
  not refused: for every number of jobs and in every run nothing panics, no worker is
  ever started, main puts the jobs on the buffered \<open>jobs\<close> channel, and nothing is sent on
  \<open>results\<close> or printed; a run that cannot go on has sent all the jobs, closed both
  channels and returned from main, and every run can be continued to that end. A
  distributor over no lanes is not refused either: main starts it and goes on into
  \<open>fanIn\<close> with no panic; on a non-empty input there is a run in which the distributor
  takes the first number and the program dies of the division by zero in
  \<^verbatim>\<open>i%numWorkers\<close>, and a run in which main returns first, nothing printed and
  nothing reported.
\<close>

theorem zero_width_is_not_refused:
  "(exec ls (pool J 0) = Some s \<longrightarrow>
      crashed s = None \<and> (\<forall>i. gors s (GWorker i) = None) \<and>
      prefix (carried s Jobs) (all_jobs J) \<and> carried s Results = [] \<and> printed s = [] \<and>
      (stuck s \<longrightarrow> gors s GMain = Some Exited \<and> carried s Jobs = all_jobs J \<and>
         closed (chans s Jobs) \<and> closed (chans s Results)) \<and>
      (\<exists>ms t. exec ms s = Some t \<and> stuck t)) \<and>
   (\<exists>u. exec zero_lanes_built_schedule (fan nums 0) = Some u \<and> crashed u = None \<and>
      gors u GDist = Some (dist_range 0 0) \<and> gors u GMain = Some fanIn_closer) \<and>
   (\<exists>t. exec zero_lanes_panic_schedule (fan (v # rest) 0) = Some t \<and>
      crashed t = Some (GDist, DivideByZero) \<and> carried t Input = [v] \<and> printed t = [] \<and>
      stuck t) \<and>
   (\<exists>t. exec zero_lanes_quiet_schedule (fan nums 0) = Some t \<and> crashed t = None \<and>
      gors t GMain = Some Exited \<and> printed t = [] \<and> stuck t)"
proof -
  have pool: "crashed s = None \<and> (\<forall>i. gors s (GWorker i) = None) \<and>
      prefix (carried s Jobs) (all_jobs J) \<and> carried s Results = [] \<and> printed s = [] \<and>
      (stuck s \<longrightarrow> gors s GMain = Some Exited \<and> carried s Jobs = all_jobs J \<and>
         closed (chans s Jobs) \<and> closed (chans s Results)) \<and>
      (\<exists>ms t. exec ms s = Some t \<and> stuck t)"
    if run: "exec ls (pool J 0) = Some s"
  proof -
    note inv = pool_reach[OF run]
    have 1: "crashed s = None" using pool_invD(1)[OF inv] by (simp add: pool_base_def)
    have 2: "gors s GMain = Some Exited \<and> carried s Jobs = all_jobs J \<and>
         closed (chans s Jobs) \<and> closed (chans s Results)" if "stuck s"
      using pool_stuck_exited(1)[OF inv that]
        pool_finished(1,2,4)[OF inv pool_stuck_exited(1)[OF inv that]] by simp
    from 1 2 pool_no_workers[OF inv] pool_jobs_prefix(1)[OF inv] pool_can_finish[OF run]
    show ?thesis by blast
  qed
  have built: "\<exists>u. exec zero_lanes_built_schedule (fan nums 0) = Some u \<and> crashed u = None \<and>
      gors u GDist = Some (dist_range 0 0) \<and> gors u GMain = Some fanIn_closer"
    using zero_lanes_built[of nums] by blast
  have "stuck (the (exec zero_lanes_panic_schedule (fan (v # rest) 0)))"
    by (rule crashed_stuck) (simp add: zero_lanes_panic(2))
  with zero_lanes_panic[of v rest]
  have dies: "\<exists>t. exec zero_lanes_panic_schedule (fan (v # rest) 0) = Some t \<and>
      crashed t = Some (GDist, DivideByZero) \<and> carried t Input = [v] \<and> printed t = [] \<and>
      stuck t"
    by blast
  have "stuck (the (exec zero_lanes_quiet_schedule (fan nums 0)))"
    by (rule not_alive_stuck) (simp add: alive_def zero_lanes_quiet(3))
  with zero_lanes_quiet[of nums]
  have quiet: "\<exists>t. exec zero_lanes_quiet_schedule (fan nums 0) = Some t \<and> crashed t = None \<and>
      gors t GMain = Some Exited \<and> printed t = [] \<and> stuck t"
    by blast
  from pool built dies quiet show ?thesis by blast
qed

theorem zero_width_is_not_refused_witness:
  "crashed (the (exec no_worker_schedule (pool 5 0))) = None \<and>
   gors (the (exec no_worker_schedule (pool 5 0))) GMain = Some Exited \<and>
   carried (the (exec no_worker_schedule (pool 5 0))) Jobs = all_jobs 5 \<and>
   carried (the (exec no_worker_schedule (pool 5 0))) Results = [] \<and>
   printed (the (exec no_worker_schedule (pool 5 0))) = [] \<and>
   closed (chans (the (exec no_worker_schedule (pool 5 0))) Results)"
  using zero_width_is_not_refused[THEN conjunct1, rule_format, OF no_worker_run] no_worker_stuck
  by simp

text \<open>
  The claim of C8 fails on the code. The pool of the source's five jobs with a width of
  zero runs to its end: no error at any step, the five jobs sent, main returned. The
  fan-out program with a width of zero gets through the construction with the
  distributor started and no error; the only error there is comes later, from the
  distributor's goroutine.
\<close>

theorem zero_width_runs_unchecked:
  "exec no_worker_schedule (pool 5 0) = Some (the (exec no_worker_schedule (pool 5 0))) \<and>
   crashed (the (exec no_worker_schedule (pool 5 0))) = None \<and>
   gors (the (exec no_worker_schedule (pool 5 0))) GMain = Some Exited \<and>
   carried (the (exec no_worker_schedule (pool 5 0))) Jobs = [1, 2, 3, 4, 5] \<and>
   exec zero_lanes_built_schedule (fan [1, 2, 3] 0) =
     Some (the (exec zero_lanes_built_schedule (fan [1, 2, 3] 0))) \<and>
   crashed (the (exec zero_lanes_built_schedule (fan [1, 2, 3] 0))) = None \<and>
   gors (the (exec zero_lanes_built_schedule (fan [1, 2, 3] 0))) GDist = Some (dist_range 0 0) \<and>
   exec zero_lanes_panic_schedule (fan [1, 2, 3] 0) =
     Some (the (exec zero_lanes_panic_schedule (fan [1, 2, 3] 0))) \<and>
   crashed (the (exec zero_lanes_panic_schedule (fan [1, 2, 3] 0))) = Some (GDist, DivideByZero)"
  using no_worker_run no_worker_end zero_lanes_built[of "[1, 2, 3]"]
    zero_lanes_panic[of 1 "[2, 3]"]
  by auto

lemmas fan_eval_simps = step_def solo_def sync_def proceed_def panic_def set_chan_def boot_def
  new_chan_def fan_def fan_workers_def fanIn_def dist_close_next_def carried_def vals_def

lemma two_lanes_run:
  "exec two_lanes_schedule (fan [1, 2, 3] (Suc (Suc 0))) =
     Some (the (exec two_lanes_schedule (fan [1, 2, 3] (Suc (Suc 0)))))"
  by (simp add: two_lanes_schedule_def fan_eval_simps)

lemma two_lanes_end:
  "gors (the (exec two_lanes_schedule (fan [1, 2, 3] (Suc (Suc 0))))) GMain = Some Exited"
  "printed (the (exec two_lanes_schedule (fan [1, 2, 3] (Suc (Suc 0))))) = [1, 4, 9]"
  "carried (the (exec two_lanes_schedule (fan [1, 2, 3] (Suc (Suc 0))))) (Lane 0) = [1, 3]"
  "carried (the (exec two_lanes_schedule (fan [1, 2, 3] (Suc (Suc 0))))) (Lane (Suc 0)) = [2]"
  by (simp_all add: two_lanes_schedule_def fan_eval_simps)

lemma two_lanes_stuck: "stuck (the (exec two_lanes_schedule (fan [1, 2, 3] (Suc (Suc 0)))))"
  by (rule not_alive_stuck) (simp add: alive_def two_lanes_end)

lemma fan_lanes_mset:
  assumes inv: "fan_inv nums N s"
  shows "(\<Sum>k<N. mset (carried s (Lane k))) \<subseteq># mset nums"
proof -
  have "mset (carried s (Lane k)) \<subseteq># mset (deal N k 0 nums)" for k
  proof -
    from fan_lane_prefix[OF inv, of k] deal_prefix[OF fan_input_prefix(1)[OF inv], of N k 0]
    have "prefix (carried s (Lane k)) (deal N k 0 nums)" by (rule prefix_order.trans)
    then show ?thesis by (auto simp: prefix_def)
  qed
  then have "(\<Sum>k<N. mset (carried s (Lane k))) \<subseteq># (\<Sum>k<N. mset (deal N k 0 nums))"
    by (intro sum_subset_mset)
  with deal_mset[OF fan_pos[OF inv], of 0 nums] show ?thesis by simp
qed

text \<open>
  C4. The distributor of the fan-out program with \<open>N\<close> lanes, \<open>N\<close> at least one, on
  the input \<open>nums\<close>, in every run. The item it holds in \<open>inputChannels[i%numWorkers] <- n\<close>
  is item number \<open>i\<close> of the input, and the send goes to lane \<open>i mod N\<close>. So lane \<open>k\<close>
  has carried a prefix of the items whose number is \<open>k\<close> modulo \<open>N\<close>, in the order of
  the input: a subsequence of the input. Only the distributor sends on a lane and only it
  closes one, at most once, and only when the input is closed and has carried all of
  \<open>nums\<close>; the lane has then carried its whole share. The lanes together have carried a
  part of the input, as a multiset. A distributor that has returned has closed all \<open>N\<close>
  lanes; a run that cannot go on has all lanes closed, with the whole input on them as a
  multiset; and every run can be continued to such an end.
\<close>

theorem distributor_deals_round_robin:
  assumes "0 < N" and "exec ls (fan nums N) = Some s"
  shows "crashed s = None \<and>
         (\<forall>N' i n. gors s GDist = Some (dist_send N' i n) \<longrightarrow>
            N' = N \<and> i < length nums \<and> n = nums ! i \<and>
            fst (instr (dist_send N' i n)) = Snd (Lane (i mod N)) n) \<and>
         (\<forall>k. deal N k 0 nums = nths nums {j. j mod N = k}) \<and>
         (\<forall>k. prefix (carried s (Lane k)) (deal N k 0 nums) \<and>
              subseq (carried s (Lane k)) nums \<and>
              (\<forall>p \<in> set (sent (chans s (Lane k))). fst p = GDist) \<and>
              closers (chans s (Lane k)) = (if closed (chans s (Lane k)) then [GDist] else []) \<and>
              (closed (chans s (Lane k)) \<longrightarrow>
                 k < N \<and> closed (chans s Input) \<and> carried s Input = nums \<and>
                 carried s (Lane k) = deal N k 0 nums)) \<and>
         (\<Sum>k<N. mset (carried s (Lane k))) \<subseteq># mset nums \<and>
         (gors s GDist = Some Exited \<longrightarrow> (\<forall>k<N. closed (chans s (Lane k)))) \<and>
         (stuck s \<longrightarrow>
            (\<forall>k<N. closed (chans s (Lane k)) \<and> carried s (Lane k) = deal N k 0 nums) \<and>
            (\<Sum>k<N. mset (carried s (Lane k))) = mset nums) \<and>
         (\<exists>ms t. exec ms s = Some t \<and> stuck t)"
proof -
  note inv = fan_reach[OF assms]
  have 1: "crashed s = None" using fan_invD(1)[OF inv] by (simp add: fan_base_def)
  have 2: "N' = N \<and> i < length nums \<and> n = nums ! i \<and>
      fst (instr (dist_send N' i n)) = Snd (Lane (i mod N)) n"
    if "gors s GDist = Some (dist_send N' i n)" for N' i n
    using fan_dist_holds[OF inv that] assms(1) by simp
  have 3: "deal N k 0 nums = nths nums {j. j mod N = k}" for k
    by (simp add: deal_nths)
  have pre: "prefix (carried s (Lane k)) (deal N k 0 nums)" for k
    using fan_lane_prefix[OF inv, of k] deal_prefix[OF fan_input_prefix(1)[OF inv], of N k 0]
    by (rule prefix_order.trans)
  have sub: "subseq (carried s (Lane k)) nums" for k
    using prefix_imp_subseq[OF pre[of k]] deal_subseq[of N k 0 nums] by (rule subseq_order.trans)
  have own: "(\<forall>p \<in> set (sent (chans s (Lane k))). fst p = GDist) \<and>
      closers (chans s (Lane k)) = (if closed (chans s (Lane k)) then [GDist] else [])" for k
    using fan_invD(11)[OF inv, of k] by (simp add: fan_chan_inv_def)
  have cl: "k < N \<and> closed (chans s Input) \<and> carried s Input = nums \<and>
      carried s (Lane k) = deal N k 0 nums" if "closed (chans s (Lane k))" for k
    using fan_lane_closed[OF inv that] fan_input_prefix(2)[OF inv] by simp
  have 4: "prefix (carried s (Lane k)) (deal N k 0 nums) \<and>
      subseq (carried s (Lane k)) nums \<and>
      (\<forall>p \<in> set (sent (chans s (Lane k))). fst p = GDist) \<and>
      closers (chans s (Lane k)) = (if closed (chans s (Lane k)) then [GDist] else []) \<and>
      (closed (chans s (Lane k)) \<longrightarrow>
         k < N \<and> closed (chans s Input) \<and> carried s Input = nums \<and>
         carried s (Lane k) = deal N k 0 nums)" for k
    using pre[of k] sub[of k] own[of k] cl[of k] by blast
  have 5: "\<forall>k<N. closed (chans s (Lane k))" if "gors s GDist = Some Exited"
    using fan_invD(5)[OF inv] that by (simp add: fan_lane_inv_def)
  have 6: "(\<forall>k<N. closed (chans s (Lane k)) \<and> carried s (Lane k) = deal N k 0 nums) \<and>
      (\<Sum>k<N. mset (carried s (Lane k))) = mset nums" if "stuck s"
  proof -
    from fan_finished(2)[OF inv fan_stuck_exited(1)[OF inv that]]
    have m: "closed (chans s Merged)" .
    have a: "closed (chans s (Lane k)) \<and> carried s (Lane k) = deal N k 0 nums" if "k < N" for k
      using fan_closed_all_done(4)[OF inv m that] cl[of k] by simp
    then have "(\<Sum>k<N. mset (carried s (Lane k))) = (\<Sum>k<N. mset (deal N k 0 nums))"
      by (intro sum.cong) simp_all
    with deal_mset[OF assms(1), of 0 nums] a show ?thesis by simp
  qed
  from 1 2 3 4 5 6 fan_lanes_mset[OF inv] fan_can_finish[OF assms] show ?thesis by blast
qed

theorem distributor_deals_round_robin_witness:
  "carried (the (exec two_lanes_schedule (fan [1, 2, 3] (Suc (Suc 0))))) (Lane 0) = [1, 3] \<and>
   carried (the (exec two_lanes_schedule (fan [1, 2, 3] (Suc (Suc 0))))) (Lane (Suc 0)) = [2] \<and>
   deal (Suc (Suc 0)) 0 0 [1, 2, 3 :: goint] = [1, 3] \<and>
   deal (Suc (Suc 0)) (Suc 0) 0 [1, 2, 3 :: goint] = [2] \<and>
   closed (chans (the (exec two_lanes_schedule (fan [1, 2, 3] (Suc (Suc 0))))) (Lane 0)) \<and>
   closed (chans (the (exec two_lanes_schedule (fan [1, 2, 3] (Suc (Suc 0))))) (Lane (Suc 0))) \<and>
   crashed (the (exec two_lanes_schedule (fan [1, 2, 3] (Suc (Suc 0))))) = None"
  using distributor_deals_round_robin[OF _ two_lanes_run] two_lanes_stuck two_lanes_end(3,4)
  by (simp add: less_Suc_eq)







end
